(* ===== verification/Prelude.thy ===== *)
theory Prelude
  imports Main "HOL-Library.Word" "HOL-Library.Monad_Syntax"
begin

section \<open>Shared vocabulary of the TinyCache development\<close>

text \<open>
  The types, character functions and decimal printing that every component uses, with the
  generic lemmas about them.

  \<^item> Byte strings (\<open>std::string\<close>, \<open>std::string_view\<close>, the contents of an
    \<open>asio::streambuf\<close>) are char lists; a char is one byte.
  \<^item> \<open>std::size_t\<close>, \<open>std::uint64_t\<close> and \<open>std::int64_t\<close> are 64-bit words where the code does
    arithmetic on them: addition wraps, \<open>unat\<close> reads the unsigned value and \<open>sint\<close> the signed one.
  \<^item> \<open>to_uppercase\<close> and \<open>to_lowercase\<close> are \<open>include/utils.hpp\<close> with \<open>std::toupper\<close> and
    \<open>std::tolower\<close> in the C locale.
  \<^item> \<open>decimal\<close> is the text that \<open>std::to_chars\<close> and \<open>std::to_string\<close> write in base 10.
  \<^item> A call whose C++ counterpart has undefined behaviour or throws returns \<open>None\<close>; the
    option monad's do notation propagates it.
\<close>

type_synonym bytes = string
type_synonym size_t = "64 word"
type_synonym uint64 = "64 word"
type_synonym int64 = "64 word"
type_synonym uint32 = "32 word"

named_theorems resp_limits \<open>the parser's limits as numbers\<close>
named_theorems spec_eval \<open>evaluation of the abstract cache on concrete inputs\<close>

subsection \<open>Characters and case conversion\<close>

definition cr :: char where "cr = CHR 0x0D"
definition lf :: char where "lf = CHR 0x0A"

definition crlf :: bytes where "crlf = [cr, lf]"

definition is_digit :: "char \<Rightarrow> bool" where
  "is_digit c \<longleftrightarrow> 48 \<le> (of_char c :: nat) \<and> (of_char c :: nat) \<le> 57"

definition digit_val :: "char \<Rightarrow> nat" where
  "digit_val c = of_char c - 48"

definition digit_char :: "nat \<Rightarrow> char" where
  "digit_char d = char_of (48 + d)"

definition toupper :: "char \<Rightarrow> char" where
  "toupper c = (if 97 \<le> (of_char c :: nat) \<and> (of_char c :: nat) \<le> 122
                then char_of (of_char c - 32 :: nat) else c)"

definition tolower :: "char \<Rightarrow> char" where
  "tolower c = (if 65 \<le> (of_char c :: nat) \<and> (of_char c :: nat) \<le> 90
                then char_of (of_char c + 32 :: nat) else c)"

definition to_uppercase :: "bytes \<Rightarrow> bytes" where
  "to_uppercase str = map toupper str"

definition to_lowercase :: "bytes \<Rightarrow> bytes" where
  "to_lowercase str = map tolower str"

subsection \<open>Decimal numbers\<close>

fun nat_digits :: "nat \<Rightarrow> bytes" where
  "nat_digits n = (if n < 10 then [digit_char n]
                   else nat_digits (n div 10) @ [digit_char (n mod 10)])"

declare nat_digits.simps [simp del]

definition decimal :: "int \<Rightarrow> bytes" where
  "decimal i = (if i < 0 then CHR ''-'' # nat_digits (nat (- i)) else nat_digits (nat i))"

definition dec_value_from :: "nat \<Rightarrow> bytes \<Rightarrow> nat" where
  "dec_value_from acc ds = foldl (\<lambda>a c. a * 10 + digit_val c) acc ds"

definition dec_value :: "bytes \<Rightarrow> nat" where
  "dec_value ds = dec_value_from 0 ds"

subsection \<open>Machine words\<close>

lemma unat64_less: "unat (w :: 64 word) < 2 ^ 64"
  using unsigned_less [of w] by simp

lemma unat64_of_nat: "n < 2 ^ 64 \<Longrightarrow> unat (of_nat n :: 64 word) = n"
  by (simp add: unat_of_nat take_bit_eq_mod)

lemma unat32_less: "unat (w :: 32 word) < 2 ^ 32"
  using unsigned_less [of w] by simp

lemma unat_ucast_32_64: "unat (ucast (w :: 32 word) :: 64 word) = unat w"
proof -
  have "unat w < 2 ^ 64" using unat32_less [of w] by simp
  then show ?thesis by (simp add: unsigned_ucast_eq take_bit_eq_mod)
qed

lemma unat_ucast_64_32: "unat (ucast (w :: 64 word) :: 32 word) = unat w mod 2 ^ 32"
  by (simp add: unsigned_ucast_eq take_bit_eq_mod)

lemma sint64_of_int: "- (2 ^ 63) \<le> i \<Longrightarrow> i < 2 ^ 63 \<Longrightarrow> sint (word_of_int i :: 64 word) = i"
  by (simp add: signed_of_int signed_take_bit_int_eq_self)

lemma sint64_of_nat: "n < 2 ^ 63 \<Longrightarrow> sint (of_nat n :: 64 word) = int n"
  using sint64_of_int [of "int n"] by simp

lemma sint64_bounds: "- (2 ^ 63) \<le> sint (w :: 64 word)" "sint (w :: 64 word) < 2 ^ 63"
  using sint_ge [of w] sint_lt [of w] by simp_all

subsection \<open>Segments of a list\<close>

lemma segment_Cons:
  assumes "s < e" and "s < length xs"
  shows "take (e - s) (drop s xs) = xs ! s # take (e - Suc s) (drop (Suc s) xs)"
proof -
  from assms(1) have "e - s = Suc (e - Suc s)" by simp
  moreover from assms(2) have "drop s xs = xs ! s # drop (Suc s) xs"
    by (simp add: Cons_nth_drop_Suc)
  ultimately show ?thesis by simp
qed

subsection \<open>Lemmas on characters\<close>

lemma crlf_chars [simp]: "cr \<noteq> lf" "lf \<noteq> cr" "\<not> is_digit cr" "\<not> is_digit lf"
  "length crlf = 2" "crlf \<noteq> []"
  by (simp_all add: cr_def lf_def crlf_def is_digit_def)

lemma digit_char_of: "d < 10 \<Longrightarrow> (of_char (digit_char d) :: nat) = 48 + d"
  by (simp add: digit_char_def of_char_of)

lemma digit_char_props [simp]:
  assumes "d < 10"
  shows "is_digit (digit_char d)" and "digit_val (digit_char d) = d"
  using assms by (simp_all add: is_digit_def digit_val_def digit_char_of)

lemma digit_val_less: "is_digit c \<Longrightarrow> digit_val c < 10"
  unfolding is_digit_def digit_val_def by linarith

lemma digit_not_sign [simp]:
  "\<not> is_digit (CHR ''-'')" "\<not> is_digit (CHR ''+'')"
  by (simp_all add: is_digit_def)

lemma length_to_uppercase [simp]: "length (to_uppercase s) = length s"
  by (simp add: to_uppercase_def)

lemma length_to_lowercase [simp]: "length (to_lowercase s) = length s"
  by (simp add: to_lowercase_def)

lemma toupper_idem [simp]: "toupper (toupper c) = toupper c"
proof (cases "97 \<le> (of_char c :: nat) \<and> (of_char c :: nat) \<le> 122")
  case True
  then have "(of_char c - 32 :: nat) < 256" by linarith
  then have "(of_char (char_of (of_char c - 32 :: nat)) :: nat) = of_char c - 32"
    by (simp add: of_char_of)
  with True show ?thesis by (auto simp: toupper_def)
next
  case False
  then show ?thesis by (auto simp: toupper_def)
qed

lemma to_uppercase_idem [simp]: "to_uppercase (to_uppercase s) = to_uppercase s"
  by (simp add: to_uppercase_def)

subsection \<open>Lemmas on decimal numbers\<close>

lemma nat_digits_not_Nil [simp]: "nat_digits n \<noteq> []"
  by (subst nat_digits.simps) simp

lemma nat_digits_is_digit: "c \<in> set (nat_digits n) \<Longrightarrow> is_digit c"
proof (induction n rule: nat_digits.induct)
  case (1 n)
  show ?case
    using 1 by (cases "n < 10") (auto simp: nat_digits.simps [of n])
qed

lemma dec_value_from_simps [simp]:
  "dec_value_from acc [] = acc"
  "dec_value_from acc (c # ds) = dec_value_from (acc * 10 + digit_val c) ds"
  "dec_value_from acc (ds @ [c]) = dec_value_from acc ds * 10 + digit_val c"
  by (simp_all add: dec_value_from_def)

lemma dec_value_from_ge: "acc \<le> dec_value_from acc ds"
proof (induction ds arbitrary: acc)
  case (Cons c ds)
  have "acc \<le> acc * 10 + digit_val c" by simp
  also have "\<dots> \<le> dec_value_from (acc * 10 + digit_val c) ds" by (rule Cons.IH)
  finally show ?case by simp
qed simp

lemma dec_value_nat_digits [simp]: "dec_value (nat_digits n) = n"
  unfolding dec_value_def
proof (induction n rule: nat_digits.induct)
  case (1 n)
  show ?case
  proof (cases "n < 10")
    case True
    then show ?thesis by (simp add: nat_digits.simps [of n])
  next
    case False
    with 1 have "dec_value_from 0 (nat_digits (n div 10)) = n div 10" by simp
    with False show ?thesis by (simp add: nat_digits.simps [of n])
  qed
qed

lemma length_nat_digits: "n < 10 ^ k \<Longrightarrow> 0 < k \<Longrightarrow> length (nat_digits n) \<le> k"
proof (induction n arbitrary: k rule: nat_digits.induct)
  case (1 n)
  show ?case
  proof (cases "n < 10")
    case True
    with 1 show ?thesis by (simp add: nat_digits.simps [of n])
  next
    case False
    with "1.prems" have "1 < k" by (cases k; cases "k - 1") auto
    moreover from this "1.prems" have "n div 10 < 10 ^ (k - 1)"
      by (simp add: less_mult_imp_div_less power_eq_if)
    ultimately have "length (nat_digits (n div 10)) \<le> k - 1"
      using False "1.IH" by simp
    with False \<open>1 < k\<close> show ?thesis by (simp add: nat_digits.simps [of n])
  qed
qed

lemma decimal_not_Nil [simp]: "decimal i \<noteq> []"
  by (simp add: decimal_def)

lemma decimal_chars: "c \<in> set (decimal i) \<Longrightarrow> is_digit c \<or> c = CHR ''-''"
  by (auto simp: decimal_def dest: nat_digits_is_digit split: if_splits)

lemma decimal_no_crlf [simp]: "cr \<notin> set (decimal i)" "lf \<notin> set (decimal i)"
proof -
  show "cr \<notin> set (decimal i)"
    using decimal_chars [of cr i] by (auto simp: cr_def is_digit_def)
  show "lf \<notin> set (decimal i)"
    using decimal_chars [of lf i] by (auto simp: lf_def is_digit_def)
qed

lemma length_decimal_int64:
  assumes "- (2 ^ 63) \<le> i" and "i < 2 ^ 64"
  shows "length (decimal i) \<le> 21"
proof -
  have "nat \<bar>i\<bar> < 10 ^ 20" using assms by simp
  then have "length (nat_digits (nat \<bar>i\<bar>)) \<le> 20" by (rule length_nat_digits) simp
  then show ?thesis by (auto simp: decimal_def)
qed

lemma enumerate_Nil_iff [simp]: "enumerate n xs = [] \<longleftrightarrow> xs = []"
  by (cases xs) simp_all

end
