(* ===== verification/Lru_Shard.thy ===== *)
theory Lru_Shard
  imports Prelude "HOL-Library.Mapping"
begin

section \<open>The LRU shard\<close>

text \<open>
  \<open>include/lruShard.hpp\<close> and \<open>src/lruShard.cpp\<close>. A shard is three structures that point into one
  another: a list of nodes in order of use, a hash map from key to list iterator, and a multimap
  from deadline to list iterator, with the iterator into the multimap stored in the node.

  The model keeps the pointers. A list iterator is an address; \<open>nodes\<close> is the heap that maps the
  address of every live node to its contents, \<open>lru_list\<close> the order of the addresses. A multimap
  iterator is the identity of an entry; \<open>expire_map\<close> lists the entries (deadline, identity, list
  iterator) in the multimap's order. Addresses and identities are fresh on every insertion, so an
  iterator that outlives its element can be told from a valid one: dereferencing or erasing it
  yields \<open>None\<close>, the undefined behaviour of the C++ code. A map iterator is the entry it points to,
  or \<open>None\<close> for \<open>end()\<close>.

  \<open>used_payload_bytes\<close> and the counters are 64-bit words. \<open>steady_clock::now()\<close> is an argument of
  the operations that read the clock, one argument per reading.
\<close>

subsection \<open>Time\<close>

text \<open>\<open>steady_clock::time_point\<close>: nanoseconds in an \<open>int64_t\<close>. \<open>to_int64\<close> is the conversion of an
  out-of-range number to \<open>int64_t\<close>, which C++ defines as reduction modulo \<open>2 ^ 64\<close>.\<close>

type_synonym time_point = int

definition to_int64 :: "int \<Rightarrow> int" where
  "to_int64 i = sint (word_of_int i :: int64)"

definition nanos_per_second :: int where "nanos_per_second = 1000000000"

text \<open>\<open>steady_clock::now() + std::chrono::seconds(n)\<close> for \<open>n\<close> of type \<open>size_t\<close>.\<close>

definition deadline :: "time_point \<Rightarrow> size_t \<Rightarrow> time_point" where
  "deadline now n = to_int64 (now + to_int64 (to_int64 (uint n) * nanos_per_second))"

text \<open>The conversion of \<open>n\<close> to the signed count of \<open>std::chrono::seconds\<close> is defined for every \<open>n\<close>. The
  multiplication and the addition after it are signed 64-bit arithmetic, whose overflow C++ leaves undefined.
  \<open>deadline_defined\<close> is the condition under which neither overflows; \<open>deadline\<close> is then the exact
  result. Where it does not hold, \<open>deadline\<close> is the two's complement result that compilers commonly
  produce, and what the model says of the program from then on is under this proviso. \<open>deadline_overflow\<close> in
  \<open>Concurrent_Server\<close> shows which requests of a client get there.\<close>

definition in_int64 :: "int \<Rightarrow> bool" where
  "in_int64 i \<longleftrightarrow> - (2 ^ 63) \<le> i \<and> i < 2 ^ 63"

definition deadline_defined :: "time_point \<Rightarrow> size_t \<Rightarrow> bool" where
  "deadline_defined now n \<longleftrightarrow>
     in_int64 (to_int64 (uint n) * nanos_per_second) \<and> in_int64 (now + to_int64 (uint n) * nanos_per_second)"

lemma to_int64_id: "- (2 ^ 63) \<le> i \<Longrightarrow> i < 2 ^ 63 \<Longrightarrow> to_int64 i = i"
  by (simp add: to_int64_def sint64_of_int)

lemma deadline_exact: "deadline_defined now n \<Longrightarrow> deadline now n = now + to_int64 (uint n) * nanos_per_second"
  by (simp add: deadline_defined_def deadline_def in_int64_def to_int64_id)

lemma to_int64_range: "in_int64 (to_int64 i)"
  using sint_greater_eq [of "word_of_int i :: int64"] sint_less [of "word_of_int i :: int64"]
  by (simp add: to_int64_def in_int64_def)

text \<open>For clock readings of \<open>steady_clock\<close> and a number of seconds that is not negative as \<open>int64_t\<close>, the
  arithmetic is defined exactly when the sum is in range, and then only is the result the right one.\<close>

lemma deadline_defined_iff:
  assumes "0 \<le> now" and "uint n < 2 ^ 63"
  shows "deadline_defined now n \<longleftrightarrow> now + uint n * nanos_per_second < 2 ^ 63"
    "deadline now n = now + uint n * nanos_per_second \<longleftrightarrow> deadline_defined now n"
proof -
  have pos: "0 \<le> uint n" by simp
  then have "- (2 ^ 63) \<le> uint n" by (rule order_trans [rotated]) simp
  with to_int64_id assms(2) pos have n: "to_int64 (uint n) = uint n" "0 \<le> uint n * nanos_per_second"
    by (simp_all add: nanos_per_second_def)
  show iff: "deadline_defined now n \<longleftrightarrow> now + uint n * nanos_per_second < 2 ^ 63"
    using assms(1) n by (auto simp: deadline_defined_def in_int64_def)
  have "deadline now n < 2 ^ 63" using to_int64_range by (simp add: deadline_def in_int64_def)
  then show "deadline now n = now + uint n * nanos_per_second \<longleftrightarrow> deadline_defined now n"
    using deadline_exact [of now n] iff n(1) by auto
qed

text \<open>\<open>duration_cast<seconds>\<close> truncates towards zero.\<close>

definition whole_seconds :: "int \<Rightarrow> int" where
  "whole_seconds d = (if d < 0 then - ((- d) div nanos_per_second) else d div nanos_per_second)"

subsection \<open>State\<close>

type_synonym addr = nat
type_synonym entry_id = nat
type_synonym map_iterator = "(bytes \<times> addr) option"

record Node =
  node_key :: bytes
  node_value :: bytes
  expire_at :: "time_point option"
  expire_it :: "entry_id option"

datatype RemovalReason = Reason_kDelete | Reason_kEviction | Reason_kExpired

record LruShard =
  kmap :: "(bytes, addr) mapping"
  lru_list :: "addr list"
  nodes :: "addr \<Rightarrow> Node option"
  expire_map :: "(time_point \<times> entry_id \<times> addr) list"
  fresh :: nat
  max_memory_bytes :: size_t
  used_payload_bytes :: size_t
  evictions :: uint64
  expired_count :: uint64

record Stats =
  stat_used_payload_bytes :: size_t
  stat_key_count :: size_t
  stat_evictions :: uint64
  stat_expired :: uint64
  stat_max_memory_bytes :: size_t

definition new_shard :: "size_t \<Rightarrow> LruShard" where
  "new_shard max_bytes =
     \<lparr>kmap = Mapping.empty, lru_list = [], nodes = Map.empty, expire_map = [], fresh = 0,
      max_memory_bytes = max_bytes, used_payload_bytes = 0, evictions = 0, expired_count = 0\<rparr>"

subsection \<open>The containers\<close>

definition map_find :: "bytes \<Rightarrow> LruShard \<Rightarrow> map_iterator" where
  "map_find key s = map_option (Pair key) (Mapping.lookup (kmap s) key)"

definition deref :: "addr \<Rightarrow> LruShard \<Rightarrow> Node option" where
  "deref a s = nodes s a"

definition write_node :: "addr \<Rightarrow> Node \<Rightarrow> LruShard \<Rightarrow> LruShard" where
  "write_node a n s = s\<lparr>nodes := (nodes s)(a \<mapsto> n)\<rparr>"

definition list_push_front :: "Node \<Rightarrow> LruShard \<Rightarrow> addr \<times> LruShard" where
  "list_push_front n s =
     (fresh s, s\<lparr>lru_list := fresh s # lru_list s, nodes := (nodes s)(fresh s \<mapsto> n),
                  fresh := Suc (fresh s)\<rparr>)"

definition list_erase :: "addr \<Rightarrow> LruShard \<Rightarrow> LruShard option" where
  "list_erase a s =
     (if a \<in> set (lru_list s)
      then Some (s\<lparr>lru_list := remove1 a (lru_list s), nodes := (nodes s)(a := None)\<rparr>)
      else None)"

definition splice_front :: "addr \<Rightarrow> LruShard \<Rightarrow> LruShard option" where
  "splice_front a s =
     (if a \<in> set (lru_list s) then Some (s\<lparr>lru_list := a # remove1 a (lru_list s)\<rparr>) else None)"

text \<open>\<open>std::multimap::emplace\<close> puts a new entry behind the entries with the same key.\<close>

fun insert_entry :: "time_point \<times> entry_id \<times> addr \<Rightarrow> (time_point \<times> entry_id \<times> addr) list \<Rightarrow>
    (time_point \<times> entry_id \<times> addr) list" where
  "insert_entry x [] = [x]"
| "insert_entry x (y # ys) = (if fst y \<le> fst x then y # insert_entry x ys else x # y # ys)"

definition expire_emplace :: "time_point \<Rightarrow> addr \<Rightarrow> LruShard \<Rightarrow> entry_id \<times> LruShard" where
  "expire_emplace t a s =
     (fresh s, s\<lparr>expire_map := insert_entry (t, fresh s, a) (expire_map s),
                  fresh := Suc (fresh s)\<rparr>)"

definition expire_erase :: "entry_id \<Rightarrow> LruShard \<Rightarrow> LruShard option" where
  "expire_erase e s =
     (if list_ex (\<lambda>(t, i, a). i = e) (expire_map s)
      then Some (s\<lparr>expire_map := filter (\<lambda>(t, i, a). i \<noteq> e) (expire_map s)\<rparr>)
      else None)"

text \<open>\<open>if (it != expire_map.end()) expire_map.erase(it)\<close>\<close>

definition expire_erase_opt :: "entry_id option \<Rightarrow> LruShard \<Rightarrow> LruShard option" where
  "expire_erase_opt it s = (case it of None \<Rightarrow> Some s | Some e \<Rightarrow> expire_erase e s)"

subsection \<open>Operations\<close>

definition is_expired :: "time_point option \<Rightarrow> time_point \<Rightarrow> bool" where
  "is_expired t_opt now = (case t_opt of None \<Rightarrow> False | Some t \<Rightarrow> now \<ge> t)"

definition payload_bytes :: "Node \<Rightarrow> size_t" where
  "payload_bytes node = of_nat (length (node_key node)) + of_nat (length (node_value node))"

definition count_removal :: "RemovalReason \<Rightarrow> LruShard \<Rightarrow> LruShard" where
  "count_removal reason s =
     (if reason = Reason_kEviction then s\<lparr>evictions := evictions s + 1\<rparr>
      else if reason = Reason_kExpired then s\<lparr>expired_count := expired_count s + 1\<rparr>
      else s)"

definition remove_key :: "map_iterator \<Rightarrow> RemovalReason \<Rightarrow> LruShard \<Rightarrow> LruShard option" where
  "remove_key it reason s =
     (case it of
        None \<Rightarrow> Some s
      | Some (key, node_it) \<Rightarrow> do {
          node \<leftarrow> deref node_it s;
          let removed_payload_bytes = payload_bytes node;
          s \<leftarrow> expire_erase_opt (expire_it node) s;
          let s = write_node node_it (node\<lparr>expire_it := None\<rparr>) s;
          let s = s\<lparr>kmap := Mapping.delete key (kmap s)\<rparr>;
          s \<leftarrow> list_erase node_it s;
          let s = s\<lparr>used_payload_bytes :=
            (if used_payload_bytes s \<ge> removed_payload_bytes
             then used_payload_bytes s - removed_payload_bytes else 0)\<rparr>;
          Some (count_removal reason s)
        })"

definition evict_lru :: "LruShard \<Rightarrow> LruShard option" where
  "evict_lru s =
     (if lru_list s = [] then Some s
      else do {
        let lru_it = last (lru_list s);
        node \<leftarrow> deref lru_it s;
        case map_find (node_key node) s of
          Some it \<Rightarrow> remove_key (Some it) Reason_kEviction s
        | None \<Rightarrow> list_erase lru_it s
      })"

text \<open>Eviction makes the list shorter, so the loop that enforces the memory limit ends.\<close>

lemma list_erase_length: "list_erase a s = Some s' \<Longrightarrow> length (lru_list s') < length (lru_list s)"
  by (auto simp: list_erase_def length_remove1 split: if_splits) (metis length_pos_if_in_set diff_less zero_less_one One_nat_def)

lemma expire_erase_opt_list: "expire_erase_opt it s = Some s' \<Longrightarrow> lru_list s' = lru_list s"
  by (auto simp: expire_erase_opt_def expire_erase_def split: option.splits if_splits)

lemma count_removal_list [simp]: "lru_list (count_removal r s) = lru_list s"
  by (simp add: count_removal_def)

lemma remove_key_length:
  "remove_key (Some it) r s = Some s' \<Longrightarrow> length (lru_list s') < length (lru_list s)"
  by (auto simp: remove_key_def write_node_def Let_def split: prod.splits Option.bind_splits
      dest!: list_erase_length expire_erase_opt_list)

lemma evict_lru_length:
  "evict_lru s = Some s' \<Longrightarrow> lru_list s \<noteq> [] \<Longrightarrow> length (lru_list s') < length (lru_list s)"
  by (auto simp: evict_lru_def Let_def split: Option.bind_splits option.splits
      dest: remove_key_length list_erase_length)

function enforce_max_memory :: "LruShard \<Rightarrow> LruShard option" where
  "enforce_max_memory s =
     (if used_payload_bytes s > max_memory_bytes s \<and> lru_list s \<noteq> [] then
        (case evict_lru s of None \<Rightarrow> None | Some s' \<Rightarrow> enforce_max_memory s')
      else Some s)"
  by pat_completeness auto
termination
  by (relation "measure (\<lambda>s. length (lru_list s))") (auto dest: evict_lru_length)

declare enforce_max_memory.simps [simp del]

definition lru_get :: "bytes \<Rightarrow> time_point \<Rightarrow> LruShard \<Rightarrow> (bytes option \<times> LruShard) option" where
  "lru_get key now s =
     (case map_find key s of
        None \<Rightarrow> Some (None, s)
      | Some (k, node_it) \<Rightarrow> do {
          node \<leftarrow> deref node_it s;
          if is_expired (expire_at node) now then do {
            s \<leftarrow> remove_key (Some (k, node_it)) Reason_kExpired s;
            Some (None, s)
          } else do {
            s \<leftarrow> splice_front node_it s;
            Some (Some (node_value node), s)
          }
        })"

text \<open>The byte counter after a value changed its size.\<close>

definition new_used :: "size_t \<Rightarrow> size_t \<Rightarrow> size_t \<Rightarrow> size_t" where
  "new_used used old_payload new_payload =
     (if new_payload \<ge> old_payload then used + (new_payload - old_payload)
      else let diff = old_payload - new_payload in if used \<ge> diff then used - diff else 0)"

definition set_existing ::
  "addr \<Rightarrow> bytes \<Rightarrow> time_point option \<Rightarrow> LruShard \<Rightarrow> LruShard option" where
  "set_existing node_it value expire_at' s = do {
     node \<leftarrow> deref node_it s;
     let old_payload = payload_bytes node;
     let node = node\<lparr>node_value := value\<rparr>;
     let new_payload = payload_bytes node;
     let s = s\<lparr>used_payload_bytes := new_used (used_payload_bytes s) old_payload new_payload\<rparr>;
     s \<leftarrow> expire_erase_opt (expire_it node) s;
     let (it, s) = (case expire_at' of
         None \<Rightarrow> (None, s)
       | Some t \<Rightarrow> (let (e, s) = expire_emplace t node_it s in (Some e, s)));
     let s = write_node node_it (node\<lparr>expire_it := it, expire_at := expire_at'\<rparr>) s;
     s \<leftarrow> splice_front node_it s;
     enforce_max_memory s
   }"

definition set_new ::
  "bytes \<Rightarrow> bytes \<Rightarrow> time_point option \<Rightarrow> LruShard \<Rightarrow> LruShard option" where
  "set_new key value expire_at' s =
     (let node = \<lparr>node_key = key, node_value = value, expire_at = expire_at', expire_it = None\<rparr>;
          (node_it, s) = list_push_front node s;
          s = s\<lparr>kmap := (case Mapping.lookup (kmap s) key of
                  None \<Rightarrow> Mapping.update key node_it (kmap s) | Some _ \<Rightarrow> kmap s)\<rparr>;
          s = s\<lparr>used_payload_bytes := used_payload_bytes s + payload_bytes node\<rparr>;
          s = (case expire_at' of
                 None \<Rightarrow> s
               | Some t \<Rightarrow> (let (e, s) = expire_emplace t node_it s
                            in write_node node_it (node\<lparr>expire_it := Some e\<rparr>) s))
      in enforce_max_memory s)"

definition lru_set ::
  "bytes \<Rightarrow> bytes \<Rightarrow> size_t option \<Rightarrow> time_point \<Rightarrow> LruShard \<Rightarrow> LruShard option" where
  "lru_set key value expire_seconds now s =
     (let expire_at' = map_option (deadline now) expire_seconds in
      case map_find key s of
        Some (k, node_it) \<Rightarrow> set_existing node_it value expire_at' s
      | None \<Rightarrow> set_new key value expire_at' s)"

definition lru_del :: "bytes \<Rightarrow> LruShard \<Rightarrow> (bool \<times> LruShard) option" where
  "lru_del key s = do {
     let it = map_find key s;
     s \<leftarrow> remove_key it Reason_kDelete s;
     Some (it \<noteq> None, s)
   }"

definition get_stats :: "LruShard \<Rightarrow> Stats" where
  "get_stats s =
     \<lparr>stat_used_payload_bytes = used_payload_bytes s,
      stat_key_count = of_nat (Mapping.size (kmap s)),
      stat_evictions = evictions s,
      stat_expired = expired_count s,
      stat_max_memory_bytes = max_memory_bytes s\<rparr>"

definition lru_expire :: "bytes \<Rightarrow> size_t \<Rightarrow> time_point \<Rightarrow> LruShard \<Rightarrow> (bool \<times> LruShard) option" where
  "lru_expire key seconds now s =
     (case map_find key s of
        None \<Rightarrow> Some (False, s)
      | Some (k, node_it) \<Rightarrow> do {
          node \<leftarrow> deref node_it s;
          s \<leftarrow> expire_erase_opt (expire_it node) s;
          let t = deadline now seconds;
          let (e, s) = expire_emplace t node_it s;
          let s = write_node node_it (node\<lparr>expire_at := Some t, expire_it := Some e\<rparr>) s;
          Some (True, s)
        })"

text \<open>\<open>ttl\<close> reads the clock twice: in \<open>is_expired\<close> and for the remaining time.\<close>

definition lru_ttl ::
  "bytes \<Rightarrow> time_point \<Rightarrow> time_point \<Rightarrow> LruShard \<Rightarrow> (int64 \<times> LruShard) option" where
  "lru_ttl key now1 now2 s =
     (case map_find key s of
        None \<Rightarrow> Some (-2, s)
      | Some (k, node_it) \<Rightarrow> do {
          node \<leftarrow> deref node_it s;
          if is_expired (expire_at node) now1 then do {
            s \<leftarrow> remove_key (Some (k, node_it)) Reason_kExpired s;
            Some (-2, s)
          } else
            (case expire_at node of
               None \<Rightarrow> Some (-1, s)
             | Some t \<Rightarrow>
                 let seconds = whole_seconds (to_int64 (t - now2)) in
                 Some (if seconds > 0 then word_of_int seconds else 0, s))
        })"

text \<open>One turn of the loop in \<open>remove_expired_keys\<close>: drop the first entry and the node it names.\<close>

definition remove_expired_turn :: "addr \<Rightarrow> LruShard \<Rightarrow> LruShard option" where
  "remove_expired_turn node_it s = do {
     let s = s\<lparr>expire_map := tl (expire_map s)\<rparr>;
     node \<leftarrow> deref node_it s;
     let s = write_node node_it (node\<lparr>expire_it := None\<rparr>) s;
     case map_find (node_key node) s of
       None \<Rightarrow> Some s
     | Some it \<Rightarrow> remove_key (Some it) Reason_kExpired s
   }"

lemma remove_key_expire_length:
  "remove_key it r s = Some s' \<Longrightarrow> length (expire_map s') \<le> length (expire_map s)"
  by (auto simp: remove_key_def Let_def write_node_def list_erase_def count_removal_def
      expire_erase_opt_def expire_erase_def
      split: option.splits prod.splits Option.bind_splits if_splits intro: length_filter_le)

lemma remove_expired_turn_length:
  "remove_expired_turn a s = Some s' \<Longrightarrow> expire_map s \<noteq> [] \<Longrightarrow>
    length (expire_map s') < length (expire_map s)"
  by (cases "expire_map s")
    (auto simp: remove_expired_turn_def Let_def write_node_def split: Option.bind_splits option.splits
      dest!: remove_key_expire_length)

function remove_expired_keys :: "time_point \<Rightarrow> LruShard \<Rightarrow> LruShard option" where
  "remove_expired_keys now s =
     (case expire_map s of
        [] \<Rightarrow> Some s
      | (t, e, node_it) # rest \<Rightarrow>
          if t \<le> now then
            (case remove_expired_turn node_it s of
               None \<Rightarrow> None | Some s' \<Rightarrow> remove_expired_keys now s')
          else Some s)"
  by pat_completeness auto
termination
  by (relation "measure (\<lambda>(now, s). length (expire_map s))") (auto dest: remove_expired_turn_length)

declare remove_expired_keys.simps [simp del]

definition get_next_expire_time :: "LruShard \<Rightarrow> time_point option" where
  "get_next_expire_time s =
     (case expire_map s of [] \<Rightarrow> None | (t, e, a) # rest \<Rightarrow> Some t)"

end
