(* ===== verification/Lru_Spec.thy ===== *)
theory Lru_Spec
  imports Lru_Shard
begin

section \<open>What a shard promises\<close>

text \<open>
  The abstract view of an LRU shard: a list of entries (key, value, deadline), most recently used
  first, with every key once, and a budget in payload bytes. The operations of
  \<open>src/lruShard.cpp\<close> are stated on this view without iterators, hash map, multimap or machine
  integers: \<open>spec_get\<close>, \<open>spec_set\<close>, \<open>spec_del\<close>, \<open>spec_expire\<close>, \<open>spec_ttl\<close>, \<open>spec_purge\<close> and
  \<open>spec_next\<close>. \<open>keep_recent\<close> is the eviction policy: the longest prefix that fits the budget.

  \<open>entries\<close> maps a shard to its abstract view, and \<open>wf_shard\<close> is the invariant that ties the
  three structures of a shard together.
\<close>

type_synonym entry = "bytes \<times> bytes \<times> time_point option"

definition entry_size :: "entry \<Rightarrow> nat" where
  "entry_size e = length (fst e) + length (fst (snd e))"

definition payload :: "entry list \<Rightarrow> nat" where
  "payload es = sum_list (map entry_size es)"

definition drop_key :: "bytes \<Rightarrow> entry list \<Rightarrow> entry list" where
  "drop_key k es = filter (\<lambda>e. fst e \<noteq> k) es"

fun keep_recent :: "nat \<Rightarrow> entry list \<Rightarrow> entry list" where
  "keep_recent budget [] = []"
| "keep_recent budget (e # es) =
     (if entry_size e \<le> budget then e # keep_recent (budget - entry_size e) es else [])"

definition spec_get :: "bytes \<Rightarrow> time_point \<Rightarrow> entry list \<Rightarrow> bytes option \<times> entry list" where
  "spec_get k now es =
     (case map_of es k of
        None \<Rightarrow> (None, es)
      | Some (v, d) \<Rightarrow>
          if is_expired d now then (None, drop_key k es)
          else (Some v, (k, v, d) # drop_key k es))"

definition spec_set :: "nat \<Rightarrow> bytes \<Rightarrow> bytes \<Rightarrow> time_point option \<Rightarrow> entry list \<Rightarrow> entry list" where
  "spec_set budget k v d es = keep_recent budget ((k, v, d) # drop_key k es)"

definition spec_del :: "bytes \<Rightarrow> entry list \<Rightarrow> bool \<times> entry list" where
  "spec_del k es = (k \<in> fst ` set es, drop_key k es)"

definition set_deadline :: "bytes \<Rightarrow> time_point option \<Rightarrow> entry list \<Rightarrow> entry list" where
  "set_deadline k d es = map (\<lambda>(k', v, d'). (k', v, if k' = k then d else d')) es"

definition spec_expire :: "bytes \<Rightarrow> time_point \<Rightarrow> entry list \<Rightarrow> bool \<times> entry list" where
  "spec_expire k t es = (k \<in> fst ` set es, set_deadline k (Some t) es)"

definition spec_ttl :: "bytes \<Rightarrow> time_point \<Rightarrow> time_point \<Rightarrow> entry list \<Rightarrow> int64 \<times> entry list" where
  "spec_ttl k now1 now2 es =
     (case map_of es k of
        None \<Rightarrow> (-2, es)
      | Some (v, d) \<Rightarrow>
          if is_expired d now1 then (-2, drop_key k es)
          else (case d of
              None \<Rightarrow> (-1, es)
            | Some t \<Rightarrow>
                (let seconds = whole_seconds (to_int64 (t - now2)) in
                 if seconds > 0 then word_of_int seconds else 0, es)))"

definition spec_purge :: "time_point \<Rightarrow> entry list \<Rightarrow> entry list" where
  "spec_purge now es = filter (\<lambda>(k, v, d). \<not> is_expired d now) es"

definition deadlines :: "entry list \<Rightarrow> time_point set" where
  "deadlines es = {t. \<exists>k v. (k, v, Some t) \<in> set es}"

definition spec_next :: "entry list \<Rightarrow> time_point option" where
  "spec_next es = (if deadlines es = {} then None else Some (Min (deadlines es)))"

declare spec_set_def [spec_eval] spec_get_def [spec_eval] spec_purge_def [spec_eval] drop_key_def [spec_eval]
  entry_size_def [spec_eval] is_expired_def [spec_eval] deadline_def [spec_eval] to_int64_def [spec_eval]
  nanos_per_second_def [spec_eval]

subsection \<open>The abstraction and the invariant\<close>

definition node_entry :: "Node \<Rightarrow> entry" where
  "node_entry n = (node_key n, node_value n, expire_at n)"

definition entries :: "LruShard \<Rightarrow> entry list" where
  "entries s = map (\<lambda>a. node_entry (the (nodes s a))) (lru_list s)"

text \<open>Every live node is in the list exactly once.\<close>

definition wf_list :: "LruShard \<Rightarrow> bool" where
  "wf_list s \<longleftrightarrow> distinct (lru_list s) \<and> set (lru_list s) = dom (nodes s)"

text \<open>The hash map has exactly one entry per live node, under the node's own key. Its
  \<open>string_view\<close> keys point into the nodes, so this also says that no view dangles.\<close>

definition wf_map :: "LruShard \<Rightarrow> bool" where
  "wf_map s \<longleftrightarrow>
     (\<forall>k a. Mapping.lookup (kmap s) k = Some a \<longleftrightarrow> (\<exists>n. nodes s a = Some n \<and> node_key n = k))"

text \<open>The multimap is sorted and holds exactly the deadlines of the live nodes, and each node's
  iterator designates its own entry.\<close>

definition wf_expire :: "LruShard \<Rightarrow> bool" where
  "wf_expire s \<longleftrightarrow>
     sorted (map fst (expire_map s)) \<and> distinct (map (fst \<circ> snd) (expire_map s)) \<and>
     (\<forall>t e a. (t, e, a) \<in> set (expire_map s) \<longleftrightarrow>
        (\<exists>n. nodes s a = Some n \<and> expire_at n = Some t \<and> expire_it n = Some e)) \<and>
     (\<forall>a n. nodes s a = Some n \<longrightarrow> (expire_at n = None \<longleftrightarrow> expire_it n = None))"

definition wf_fresh :: "LruShard \<Rightarrow> bool" where
  "wf_fresh s \<longleftrightarrow>
     (\<forall>a \<in> dom (nodes s). a < fresh s) \<and> (\<forall>(t, e, a) \<in> set (expire_map s). e < fresh s)"

text \<open>The byte counter is exact.\<close>

definition wf_used :: "LruShard \<Rightarrow> bool" where
  "wf_used s \<longleftrightarrow> payload (entries s) < 2 ^ 64 \<and> used_payload_bytes s = of_nat (payload (entries s))"

definition wf_core :: "LruShard \<Rightarrow> bool" where
  "wf_core s \<longleftrightarrow> wf_list s \<and> wf_map s \<and> wf_expire s \<and> wf_fresh s \<and> wf_used s"

definition wf_shard :: "LruShard \<Rightarrow> bool" where
  "wf_shard s \<longleftrightarrow> wf_core s \<and> payload (entries s) \<le> unat (max_memory_bytes s)"

subsection \<open>Lemmas on the abstract view\<close>

lemma payload_simps [simp]:
  "payload [] = 0" "payload (e # es) = entry_size e + payload es"
  "payload (es @ fs) = payload es + payload fs"
  by (simp_all add: payload_def)

lemma payload_drop_key: "payload (drop_key k es) \<le> payload es"
  by (induction es) (auto simp: drop_key_def)

lemma drop_key_absent: "k \<notin> fst ` set es \<Longrightarrow> drop_key k es = es"
  by (auto simp: drop_key_def filter_id_conv)

lemma drop_key_keys [simp]: "fst ` set (drop_key k es) = fst ` set es - {k}"
  by (auto simp: drop_key_def)

lemma map_of_drop_key [simp]: "map_of (drop_key k es) = (map_of es)(k := None)"
  by (induction es) (auto simp: drop_key_def)

lemma distinct_drop_key: "distinct (map fst es) \<Longrightarrow> distinct (map fst (drop_key k es))"
  by (simp add: drop_key_def distinct_map_filter)

lemma drop_key_last:
  assumes "distinct (map fst es)" and "es \<noteq> []"
  shows "drop_key (fst (last es)) es = butlast es"
proof -
  obtain xs x where es: "es = xs @ [x]" using assms(2) by (cases es rule: rev_cases) auto
  then have "fst x \<notin> fst ` set xs" using assms(1) by auto
  then show ?thesis
    using drop_key_absent [of "fst x" xs] by (simp add: es drop_key_def)
qed

lemma payload_split_key:
  assumes "distinct (map fst es)" and "map_of es k = Some (v, d)"
  shows "payload es = entry_size (k, v, d) + payload (drop_key k es)"
  using assms
proof (induction es)
  case (Cons e es)
  show ?case
  proof (cases "fst e = k")
    case True
    with Cons.prems have "e = (k, v, d)" and "k \<notin> fst ` set es" by (cases e; auto)+
    then show ?thesis
      using True drop_key_absent [of k es] by (simp add: drop_key_def)
  next
    case False
    with Cons show ?thesis by (cases e) (auto simp: drop_key_def)
  qed
qed simp

lemma length_drop_key:
  assumes "distinct (map fst es)" and "map_of es k = Some x"
  shows "length es = Suc (length (drop_key k es))"
  using assms
proof (induction es)
  case (Cons e es)
  show ?case
  proof (cases "fst e = k")
    case True
    with Cons.prems have "k \<notin> fst ` set es" by auto
    with True show ?thesis
      using drop_key_absent [of k es] by (simp add: drop_key_def)
  next
    case False
    with Cons show ?thesis by (cases e) (auto simp: drop_key_def)
  qed
qed simp

lemma keep_recent_all: "payload es \<le> budget \<Longrightarrow> keep_recent budget es = es"
  by (induction budget es rule: keep_recent.induct) auto

lemma keep_recent_fits: "payload (keep_recent budget es) \<le> budget"
  by (induction budget es rule: keep_recent.induct) auto

lemma keep_recent_snoc:
  "budget < payload (es @ [e]) \<Longrightarrow> keep_recent budget (es @ [e]) = keep_recent budget es"
  by (induction budget es rule: keep_recent.induct) auto

lemma keep_recent_butlast:
  "budget < payload es \<Longrightarrow> keep_recent budget es = keep_recent budget (butlast es)"
  using keep_recent_snoc [of budget "butlast es" "last es"]
  by (cases "es = []") simp_all

lemma keep_recent_prefix: "\<exists>evicted. es = keep_recent budget es @ evicted"
  by (induction budget es rule: keep_recent.induct) auto

lemma keep_recent_longest:
  "es = pre @ post \<Longrightarrow> payload pre \<le> budget \<Longrightarrow> length pre \<le> length (keep_recent budget es)"
proof (induction budget es arbitrary: pre rule: keep_recent.induct)
  case (2 budget e es)
  then show ?case by (cases pre) auto
qed simp

lemma keep_recent_set: "set (keep_recent budget es) \<subseteq> set es"
  using keep_recent_prefix [of es budget] by (metis Un_upper1 set_append)

lemma keep_recent_distinct: "distinct (map fst es) \<Longrightarrow> distinct (map fst (keep_recent budget es))"
  using keep_recent_prefix [of es budget] by (metis distinct_append map_append)

lemma keep_recent_too_big: "budget < entry_size e \<Longrightarrow> keep_recent budget (e # es) = []"
  by simp

lemma set_deadline_keys [simp]: "map fst (set_deadline k d es) = map fst es"
  by (induction es) (auto simp: set_deadline_def)

lemma set_deadline_payload [simp]: "payload (set_deadline k d es) = payload es"
  by (induction es) (auto simp: set_deadline_def entry_size_def)

lemma map_of_set_deadline:
  "map_of (set_deadline k d es) k' =
    (case map_of es k' of None \<Rightarrow> None | Some (v, d') \<Rightarrow> Some (v, if k' = k then d else d'))"
  by (induction es) (auto simp: set_deadline_def split: option.splits)

lemma drop_key_set_deadline [simp]: "drop_key k (set_deadline k d es) = drop_key k es"
  by (induction es) (auto simp: set_deadline_def drop_key_def)

definition set_value :: "bytes \<Rightarrow> bytes \<Rightarrow> entry list \<Rightarrow> entry list" where
  "set_value k v es = map (\<lambda>(k', v', d). (k', if k' = k then v else v', d)) es"

lemma set_value_keys [simp]: "map fst (set_value k v es) = map fst es"
  by (induction es) (auto simp: set_value_def)

lemma drop_key_set_value [simp]: "drop_key k (set_value k v es) = drop_key k es"
  by (induction es) (auto simp: set_value_def drop_key_def)

lemma map_of_set_value:
  "map_of (set_value k v es) k = map_option (\<lambda>(v', d). (v, d)) (map_of es k)"
  by (induction es) (auto simp: set_value_def)

lemma payload_set_value:
  assumes "distinct (map fst es)" and "map_of es k = Some (v', d)"
  shows "payload (set_value k v es) = length k + length v + payload (drop_key k es)"
proof -
  have "map_of (set_value k v es) k = Some (v, d)"
    using assms(2) by (simp add: map_of_set_value)
  from payload_split_key [OF _ this] assms(1) show ?thesis
    by (simp add: entry_size_def)
qed

end
