(* ===== verification/Lru_Contract.thy ===== *)
theory Lru_Contract
  imports Lru_Spec
begin

section \<open>Interface: what the rest of the server may assume of a shard\<close>

text \<open>
  The command executor and the expiration controller use a shard only through its operations.
  \<open>shard_contract\<close> states what they rely on: in a state that satisfies the provider's invariant
  every operation returns, keeps the invariant and the budget, and acts on the abstract view as
  the \<open>spec_\<close> operations of \<open>Lru_Spec\<close> say. The only precondition is on \<open>set\<close>: the sizes involved
  must not overflow \<open>size_t\<close>.

  The client lemmas are proved here once: reading back what was stored, deletion, the effect of a
  store on other keys, a value larger than the budget, deadlines, and runs of several operations.
\<close>

datatype shard_call =
    CallGet bytes time_point
  | CallSet bytes bytes "size_t option" time_point
  | CallDel bytes
  | CallExpire bytes size_t time_point
  | CallTtl bytes time_point time_point
  | CallPurge time_point

text \<open>The effect of a call on the abstract view with a given budget.\<close>

fun spec_call :: "nat \<Rightarrow> shard_call \<Rightarrow> entry list \<Rightarrow> entry list" where
  "spec_call b (CallGet k now) es = snd (spec_get k now es)"
| "spec_call b (CallSet k v secs now) es = spec_set b k v (map_option (deadline now) secs) es"
| "spec_call b (CallDel k) es = snd (spec_del k es)"
| "spec_call b (CallExpire k secs now) es = snd (spec_expire k (deadline now secs) es)"
| "spec_call b (CallTtl k now1 now2) es = snd (spec_ttl k now1 now2 es)"
| "spec_call b (CallPurge now) es = spec_purge now es"

fun call_fits :: "nat \<Rightarrow> shard_call \<Rightarrow> bool" where
  "call_fits b (CallSet k v secs now) = (b + length k + length v < 2 ^ 64)"
| "call_fits b _ = True"

locale shard_contract =
  fixes inv :: "'s \<Rightarrow> bool"
    and view :: "'s \<Rightarrow> entry list"
    and budget :: "'s \<Rightarrow> nat"
    and get :: "bytes \<Rightarrow> time_point \<Rightarrow> 's \<Rightarrow> (bytes option \<times> 's) option"
    and set' :: "bytes \<Rightarrow> bytes \<Rightarrow> size_t option \<Rightarrow> time_point \<Rightarrow> 's \<Rightarrow> 's option"
    and del :: "bytes \<Rightarrow> 's \<Rightarrow> (bool \<times> 's) option"
    and expire :: "bytes \<Rightarrow> size_t \<Rightarrow> time_point \<Rightarrow> 's \<Rightarrow> (bool \<times> 's) option"
    and ttl :: "bytes \<Rightarrow> time_point \<Rightarrow> time_point \<Rightarrow> 's \<Rightarrow> (int64 \<times> 's) option"
    and purge :: "time_point \<Rightarrow> 's \<Rightarrow> 's option"
  assumes view_distinct: "inv s \<Longrightarrow> distinct (map fst (view s))"
    and view_fits: "inv s \<Longrightarrow> payload (view s) \<le> budget s"
    and get_law: "inv s \<Longrightarrow> \<exists>s'. get k now s = Some (fst (spec_get k now (view s)), s') \<and> inv s' \<and>
          view s' = snd (spec_get k now (view s)) \<and> budget s' = budget s"
    and set_law: "inv s \<Longrightarrow> budget s + length k + length v < 2 ^ 64 \<Longrightarrow>
          \<exists>s'. set' k v secs now s = Some s' \<and> inv s' \<and>
          view s' = spec_set (budget s) k v (map_option (deadline now) secs) (view s) \<and> budget s' = budget s"
    and del_law: "inv s \<Longrightarrow> \<exists>s'. del k s = Some (fst (spec_del k (view s)), s') \<and> inv s' \<and>
          view s' = snd (spec_del k (view s)) \<and> budget s' = budget s"
    and expire_law: "inv s \<Longrightarrow>
          \<exists>s'. expire k n now s = Some (fst (spec_expire k (deadline now n) (view s)), s') \<and> inv s' \<and>
          view s' = snd (spec_expire k (deadline now n) (view s)) \<and> budget s' = budget s"
    and ttl_law: "inv s \<Longrightarrow> \<exists>s'. ttl k now1 now2 s = Some (fst (spec_ttl k now1 now2 (view s)), s') \<and> inv s' \<and>
          view s' = snd (spec_ttl k now1 now2 (view s)) \<and> budget s' = budget s"
    and purge_law: "inv s \<Longrightarrow> \<exists>s'. purge now s = Some s' \<and> inv s' \<and>
          view s' = spec_purge now (view s) \<and> budget s' = budget s"
begin

definition call :: "shard_call \<Rightarrow> 's \<Rightarrow> 's option" where
  "call c s = (case c of
     CallGet k now \<Rightarrow> map_option snd (get k now s)
   | CallSet k v secs now \<Rightarrow> set' k v secs now s
   | CallDel k \<Rightarrow> map_option snd (del k s)
   | CallExpire k secs now \<Rightarrow> map_option snd (expire k secs now s)
   | CallTtl k now1 now2 \<Rightarrow> map_option snd (ttl k now1 now2 s)
   | CallPurge now \<Rightarrow> purge now s)"

fun calls :: "shard_call list \<Rightarrow> 's \<Rightarrow> 's option" where
  "calls [] s = Some s"
| "calls (c # cs) s = (case call c s of None \<Rightarrow> None | Some s' \<Rightarrow> calls cs s')"

lemma call_law:
  assumes "inv s" and "call_fits (budget s) c"
  shows "\<exists>s'. call c s = Some s' \<and> inv s' \<and> view s' = spec_call (budget s) c (view s) \<and> budget s' = budget s"
  using assms get_law [OF assms(1)] set_law [OF assms(1)] del_law [OF assms(1)]
    expire_law [OF assms(1)] ttl_law [OF assms(1)] purge_law [OF assms(1)]
  by (cases c) (fastforce simp: call_def)+

lemma calls_law:
  assumes "inv s" and "\<And>c. c \<in> set cs \<Longrightarrow> call_fits (budget s) c"
  shows "\<exists>s'. calls cs s = Some s' \<and> inv s' \<and> view s' = fold (spec_call (budget s)) cs (view s) \<and>
    budget s' = budget s"
  using assms
proof (induction cs arbitrary: s)
  case Nil
  then show ?case by simp
next
  case (Cons c cs)
  then obtain s1 where s1: "call c s = Some s1" "inv s1" "view s1 = spec_call (budget s) c (view s)"
      "budget s1 = budget s"
    using call_law [of s c] by auto
  have "\<exists>s'. calls cs s1 = Some s' \<and> inv s' \<and> view s' = fold (spec_call (budget s1)) cs (view s1) \<and>
      budget s' = budget s1"
    using Cons.prems(2) s1(2,4) by (intro Cons.IH) auto
  with s1 show ?case by auto
qed

lemma get_after_set:
  assumes "inv s" and "length k + length v \<le> budget s" and "budget s + length k + length v < 2 ^ 64"
    and "\<not> is_expired (map_option (deadline now) secs) now'"
  shows "\<exists>s1 s2. set' k v secs now s = Some s1 \<and> get k now' s1 = Some (Some v, s2)"
proof -
  obtain s1 where s1: "set' k v secs now s = Some s1" "inv s1"
      "view s1 = spec_set (budget s) k v (map_option (deadline now) secs) (view s)"
    using set_law [OF assms(1,3)] by blast
  have "map_of (view s1) k = Some (v, map_option (deadline now) secs)"
    using s1(3) assms(2) by (simp add: spec_set_def entry_size_def)
  with s1 assms(4) get_law [OF s1(2), of k now'] show ?thesis
    by (auto simp: spec_get_def)
qed

lemma get_after_del:
  assumes "inv s"
  shows "\<exists>b s1 s2. del k s = Some (b, s1) \<and> (b \<longleftrightarrow> k \<in> fst ` set (view s)) \<and>
    get k now s1 = Some (None, s2)"
proof -
  obtain s1 where s1: "del k s = Some (fst (spec_del k (view s)), s1)" "inv s1"
      "view s1 = snd (spec_del k (view s))"
    using del_law [OF assms] by blast
  with get_law [OF s1(2), of k now] show ?thesis
    by (auto simp: spec_get_def spec_del_def)
qed

lemma set_other_keys:
  assumes "inv s" and "budget s + length k + length v < 2 ^ 64" and "k' \<noteq> k"
    and "set' k v secs now s = Some s1"
  shows "map_of (view s1) k' = None \<or> map_of (view s1) k' = map_of (view s) k'"
proof -
  let ?es = "(k, v, map_option (deadline now) secs) # drop_key k (view s)"
  have v1: "view s1 = keep_recent (budget s) ?es"
    using set_law [OF assms(1,2), of secs now] assms(4) by (auto simp: spec_set_def)
  obtain evicted where "?es = view s1 @ evicted"
    using keep_recent_prefix [of ?es "budget s"] v1 by auto
  then have "map_of ?es k' = (map_of evicted ++ map_of (view s1)) k'"
    by (metis map_of_append)
  with assms(3) show ?thesis
    by (cases "map_of (view s1) k'") (auto simp: map_add_def)
qed

lemma set_too_big:
  assumes "inv s" and "budget s + length k + length v < 2 ^ 64" and "budget s < length k + length v"
  shows "\<exists>s1. set' k v secs now s = Some s1 \<and> view s1 = []"
  using set_law [OF assms(1,2), of secs now] assms(3)
  by (auto simp: spec_set_def entry_size_def)

lemma get_after_purge:
  assumes "inv s"
  shows "\<exists>s1. purge now s = Some s1 \<and>
    map_of (view s1) k = (case map_of (view s) k of
        None \<Rightarrow> None | Some (v, d) \<Rightarrow> if is_expired d now then None else Some (v, d))"
proof -
  have "distinct (map fst es) \<Longrightarrow> map_of (spec_purge now es) k = (case map_of es k of
        None \<Rightarrow> None | Some (v, d) \<Rightarrow> if is_expired d now then None else Some (v, d))" for es
  proof (induction es)
    case (Cons e es)
    show ?case
    proof (cases "fst e = k")
      case True
      with Cons.prems have "k \<notin> fst ` set es" by auto
      then have "map_of (spec_purge now es) k = None"
        by (auto simp: spec_purge_def map_of_eq_None_iff)
      with True show ?thesis by (cases e) (simp add: spec_purge_def)
    next
      case False
      with Cons show ?thesis by (cases e) (simp add: spec_purge_def)
    qed
  qed (simp add: spec_purge_def)
  with view_distinct [OF assms] purge_law [OF assms, of now] show ?thesis by auto
qed

end

end
