(* ===== verification/Lru_Refine.thy ===== *)
theory Lru_Refine
  imports Lru_Contract
begin

section \<open>The shard implements its specification\<close>

text \<open>
  Every operation of the shard, run from a state that satisfies \<open>wf_shard\<close>, stays clear of
  undefined behaviour (it never dereferences or erases a dead iterator), re-establishes the
  invariant and acts on the abstract view as the corresponding \<open>spec_\<close> operation.

  The operations are built from four state changes: \<open>removed\<close> takes a node out of all three
  structures, \<open>retimed\<close> replaces a node's deadline, \<open>to_front\<close> moves a node to the front, and
  \<open>pushed\<close> and \<open>revalued\<close> add a node or replace its value. Each has one invariant lemma and one
  abstraction lemma; the operations are then compositions.
\<close>

subsection \<open>Consequences of the invariant\<close>

lemma wf_coreD:
  assumes "wf_core s"
  shows "wf_list s" "wf_map s" "wf_expire s" "wf_fresh s" "wf_used s"
  using assms by (simp_all add: wf_core_def)

lemma wf_listD:
  assumes "wf_list s"
  shows "distinct (lru_list s)" "a \<in> set (lru_list s) \<longleftrightarrow> (\<exists>n. nodes s a = Some n)"
  using assms by (auto simp: wf_list_def)

lemma wf_map_lookup:
  assumes "wf_map s"
  shows "nodes s a = Some n \<Longrightarrow> Mapping.lookup (kmap s) (node_key n) = Some a"
    and "Mapping.lookup (kmap s) k = Some a \<Longrightarrow> \<exists>n. nodes s a = Some n \<and> node_key n = k"
    and "nodes s a = Some n \<Longrightarrow> nodes s b = Some m \<Longrightarrow> node_key n = node_key m \<longleftrightarrow> a = b"
proof -
  note law = assms [unfolded wf_map_def, rule_format]
  show l: "nodes s a = Some n \<Longrightarrow> Mapping.lookup (kmap s) (node_key n) = Some a"
    and "Mapping.lookup (kmap s) k = Some a \<Longrightarrow> \<exists>n. nodes s a = Some n \<and> node_key n = k" for a n
    using law by blast+
  assume "nodes s a = Some n" and "nodes s b = Some m"
  with l [of a n] l [of b m] show "node_key n = node_key m \<longleftrightarrow> a = b" by auto
qed

lemma entries_keys_distinct:
  assumes "wf_list s" and "wf_map s"
  shows "distinct (map fst (entries s))"
proof -
  have "inj_on (\<lambda>a. node_key (the (nodes s a))) (set (lru_list s))"
    using wf_listD(2) [OF assms(1)] wf_map_lookup(3) [OF assms(2)]
    by (auto simp: inj_on_def)
  then show ?thesis
    using wf_listD(1) [OF assms(1)] by (simp add: entries_def node_entry_def distinct_map comp_def)
qed

lemma entries_mem:
  assumes "wf_list s"
  shows "x \<in> set (entries s) \<longleftrightarrow> (\<exists>a n. nodes s a = Some n \<and> x = node_entry n)"
  using wf_listD(2) [OF assms] by (force simp: entries_def image_iff Bex_def)

lemma map_of_entries:
  assumes "wf_list s" and "wf_map s"
  shows "map_of (entries s) k =
    (case Mapping.lookup (kmap s) k of
       None \<Rightarrow> None
     | Some a \<Rightarrow> Some (node_value (the (nodes s a)), expire_at (the (nodes s a))))"
proof (cases "Mapping.lookup (kmap s) k")
  case None
  then have "k \<notin> fst ` set (entries s)"
    using wf_map_lookup(1) [OF assms(2)] by (force simp: entries_mem [OF assms(1)] node_entry_def)
  with None show ?thesis by (simp add: map_of_eq_None_iff)
next
  case (Some a)
  then obtain n where n: "nodes s a = Some n" "node_key n = k"
    using wf_map_lookup(2) [OF assms(2)] by blast
  then have "(k, node_value n, expire_at n) \<in> set (entries s)"
    by (auto simp: entries_mem [OF assms(1)] node_entry_def)
  then show ?thesis
    using entries_keys_distinct [OF assms] n Some by (simp add: map_of_is_SomeI)
qed

lemma payload_bytes_size: "payload_bytes n = of_nat (entry_size (node_entry n))"
  by (simp add: payload_bytes_def entry_size_def node_entry_def)

lemma map_find_iff:
  assumes "wf_map s"
  shows "map_find k s = Some (k', a) \<longleftrightarrow> k' = k \<and> (\<exists>n. nodes s a = Some n \<and> node_key n = k)"
  using assms unfolding map_find_def wf_map_def by auto

lemma map_find_None:
  assumes "wf_list s" and "wf_map s"
  shows "map_find k s = None \<longleftrightarrow> k \<notin> fst ` set (entries s)"
  using map_of_entries [OF assms, of k] map_of_eq_None_iff [of "entries s" k]
  by (auto simp: map_find_def split: option.splits)

text \<open>The entries of one node in the multimap: none, or the one its iterator names.\<close>

lemma expire_entry_iff:
  assumes "wf_expire s" and "nodes s a = Some n" and "(t, e, b) \<in> set (expire_map s)"
  shows "b = a \<longleftrightarrow> expire_it n = Some e"
proof -
  note law = assms(1) [unfolded wf_expire_def]
  from assms law obtain m where m: "nodes s b = Some m" "expire_at m = Some t" "expire_it m = Some e"
    by blast
  show ?thesis
  proof
    assume "b = a"
    with m assms(2) show "expire_it n = Some e" by simp
  next
    assume e: "expire_it n = Some e"
    then obtain t' where "expire_at n = Some t'" using law assms(2) by (metis not_None_eq)
    with e assms(2) law have "(t', e, a) \<in> set (expire_map s)" by blast
    moreover have "inj_on (fst \<circ> snd) (set (expire_map s))"
      using law by (simp add: distinct_map)
    ultimately have "(t', e, a) = (t, e, b)"
      using assms(3) by (intro inj_onD [where f = "fst \<circ> snd"]) auto
    then show "b = a" by simp
  qed
qed

definition other_entries :: "addr \<Rightarrow> LruShard \<Rightarrow> (time_point \<times> entry_id \<times> addr) list" where
  "other_entries a s = filter (\<lambda>(t, i, b). b \<noteq> a) (expire_map s)"

lemma expire_erase_opt_wf:
  assumes "wf_expire s" and "nodes s a = Some n"
  shows "expire_erase_opt (expire_it n) s = Some (s\<lparr>expire_map := other_entries a s\<rparr>)"
proof (cases "expire_it n")
  case None
  then have "other_entries a s = expire_map s"
    using expire_entry_iff [OF assms] by (auto simp: other_entries_def filter_id_conv)
  with None show ?thesis by (simp add: expire_erase_opt_def)
next
  case (Some e)
  then obtain t where "expire_at n = Some t"
    using assms unfolding wf_expire_def by (metis not_None_eq)
  with Some assms have "(t, e, a) \<in> set (expire_map s)"
    unfolding wf_expire_def by blast
  then have "list_ex (\<lambda>(t, i, a). i = e) (expire_map s)"
    by (force simp: list_ex_iff)
  moreover have "filter (\<lambda>(t, i, b). i \<noteq> e) (expire_map s) = other_entries a s"
    unfolding other_entries_def using expire_entry_iff [OF assms] Some
    by (intro filter_cong) auto
  ultimately show ?thesis using Some by (simp add: expire_erase_opt_def expire_erase_def)
qed

lemma other_entries_mem:
  "(t, e, b) \<in> set (other_entries a s) \<longleftrightarrow> (t, e, b) \<in> set (expire_map s) \<and> b \<noteq> a"
  by (auto simp: other_entries_def)

lemma other_entries_order:
  assumes "wf_expire s"
  shows "sorted (map fst (other_entries a s))" and "distinct (map (fst \<circ> snd) (other_entries a s))"
proof -
  from assms have "sorted (map fst (expire_map s))" and d: "distinct (map (fst \<circ> snd) (expire_map s))"
    by (simp_all add: wf_expire_def)
  then show "sorted (map fst (other_entries a s))"
    unfolding other_entries_def by (intro sorted_filter)
  show "distinct (map (fst \<circ> snd) (other_entries a s))"
    using d unfolding other_entries_def by (rule distinct_map_filter)
qed

lemma lookup_delete_if:
  "Mapping.lookup (Mapping.delete k m) k' = (if k = k' then None else Mapping.lookup m k')"
  by (cases "k = k'") simp_all

subsection \<open>Taking a node out\<close>

definition removed :: "addr \<Rightarrow> RemovalReason \<Rightarrow> LruShard \<Rightarrow> LruShard" where
  "removed a r s = count_removal r
     (s\<lparr>kmap := Mapping.delete (node_key (the (nodes s a))) (kmap s),
        lru_list := remove1 a (lru_list s),
        nodes := (nodes s)(a := None),
        expire_map := other_entries a s,
        used_payload_bytes := used_payload_bytes s - payload_bytes (the (nodes s a))\<rparr>)"

lemma count_removal_fields [simp]:
  "kmap (count_removal r s) = kmap s" "nodes (count_removal r s) = nodes s"
  "expire_map (count_removal r s) = expire_map s" "fresh (count_removal r s) = fresh s"
  "max_memory_bytes (count_removal r s) = max_memory_bytes s"
  "used_payload_bytes (count_removal r s) = used_payload_bytes s"
  "entries (count_removal r s) = entries s"
  by (simp_all add: count_removal_def entries_def)

lemma count_removal_counters [simp]:
  "evictions (count_removal r s) = (if r = Reason_kEviction then evictions s + 1 else evictions s)"
  "expired_count (count_removal r s) = (if r = Reason_kExpired then expired_count s + 1 else expired_count s)"
  by (simp_all add: count_removal_def)

lemma node_size_le:
  assumes "wf_list s" and "nodes s a = Some n"
  shows "entry_size (node_entry n) \<le> payload (entries s)"
proof -
  have "node_entry n \<in> set (entries s)" using assms by (auto simp: entries_mem)
  then show ?thesis by (simp add: payload_def member_le_sum_list)
qed

lemma remove_key_wf:
  assumes "wf_core s" and n: "nodes s a = Some n"
  shows "remove_key (Some (node_key n, a)) r s = Some (removed a r s)"
proof -
  note wf = wf_coreD [OF assms(1)]
  have mem: "a \<in> set (lru_list s)" using wf_listD(2) [OF wf(1)] n by blast
  have "entry_size (node_entry n) \<le> payload (entries s)" by (rule node_size_le [OF wf(1) n])
  then have "payload_bytes n \<le> used_payload_bytes s"
    using wf(5) by (simp add: wf_used_def payload_bytes_size word_le_nat_alt unat64_of_nat)
  with mem n expire_erase_opt_wf [OF wf(3) n] show ?thesis
    by (simp add: remove_key_def deref_def write_node_def list_erase_def removed_def)
qed

lemma entries_removed_list:
  assumes "wf_list s"
  shows "entries (removed a r s) = map (\<lambda>b. node_entry (the (nodes s b))) (remove1 a (lru_list s))"
  using wf_listD(1) [OF assms] by (auto simp: removed_def entries_def)

lemma entries_removed:
  assumes "wf_core s" and n: "nodes s a = Some n"
  shows "entries (removed a r s) = drop_key (node_key n) (entries s)"
proof -
  note wf = wf_coreD [OF assms(1)]
  have "node_key (the (nodes s b)) = node_key n \<longleftrightarrow> b = a" if "b \<in> set (lru_list s)" for b
    using that wf_listD(2) [OF wf(1)] wf_map_lookup(3) [OF wf(2) n] by fastforce
  then have "filter (\<lambda>e. fst e \<noteq> node_key n) (entries s) =
      map (\<lambda>b. node_entry (the (nodes s b))) (filter (\<lambda>b. b \<noteq> a) (lru_list s))"
    by (auto simp: entries_def filter_map comp_def node_entry_def intro!: arg_cong [where f = "map _"] filter_cong)
  also have "filter (\<lambda>b. b \<noteq> a) (lru_list s) = remove1 a (lru_list s)"
    using wf_listD(1) [OF wf(1)]
    by (auto simp: distinct_remove1_removeAll removeAll_filter_not_eq intro: filter_cong)
  finally show ?thesis
    using entries_removed_list [OF wf(1)] by (simp add: drop_key_def)
qed

lemma entries_lookup:
  assumes "wf_core s" and n: "nodes s a = Some n"
  shows "map_of (entries s) (node_key n) = Some (node_value n, expire_at n)"
  using wf_coreD [OF assms(1)] map_of_entries [of s "node_key n"] wf_map_lookup(1) [OF _ n] n by simp

lemma wf_core_removed:
  assumes "wf_core s" and n: "nodes s a = Some n"
  shows "wf_core (removed a r s)"
proof -
  note wf = wf_coreD [OF assms(1)]
  have "wf_list (removed a r s)"
    using wf(1) by (auto simp: wf_list_def removed_def)
  moreover have "wf_map (removed a r s)"
    using wf_map_lookup(3) [OF wf(2) n] wf(2) n
    by (simp add: wf_map_def removed_def lookup_delete_if) metis
  moreover have "wf_expire (removed a r s)"
    using wf(3) other_entries_order [OF wf(3), of a]
    by (simp add: wf_expire_def removed_def other_entries_mem)
  moreover have "wf_fresh (removed a r s)"
    using wf(4) by (auto simp: wf_fresh_def removed_def other_entries_def)
  moreover have "wf_used (removed a r s)"
  proof -
    have "payload (entries s) = entry_size (node_entry n) + payload (drop_key (node_key n) (entries s))"
      using payload_split_key [OF entries_keys_distinct [OF wf(1,2)] entries_lookup [OF assms]]
      by (simp add: node_entry_def)
    then show ?thesis
      using wf(5) entries_removed [OF assms, of r] n
      by (simp add: wf_used_def payload_bytes_size removed_def)
  qed
  ultimately show ?thesis by (simp add: wf_core_def)
qed

subsection \<open>Eviction\<close>

lemma evict_lru_wf:
  assumes "wf_core s" and "lru_list s \<noteq> []"
  shows "\<exists>s'. evict_lru s = Some s' \<and> wf_core s' \<and> entries s' = butlast (entries s) \<and>
    max_memory_bytes s' = max_memory_bytes s \<and> evictions s' = evictions s + 1 \<and>
    expired_count s' = expired_count s"
proof -
  note wf = wf_coreD [OF assms(1)]
  let ?a = "last (lru_list s)"
  obtain n where n: "nodes s ?a = Some n"
    using wf_listD(2) [OF wf(1), of ?a] assms(2) by auto
  have find: "map_find (node_key n) s = Some (node_key n, ?a)"
    using n by (auto simp: map_find_iff [OF wf(2)])
  have ev: "evict_lru s = Some (removed ?a Reason_kEviction s)"
    using assms(2) n find remove_key_wf [OF assms(1) n] by (simp add: evict_lru_def deref_def)
  have "entries s \<noteq> []" and "fst (last (entries s)) = node_key n"
    using assms(2) n by (simp_all add: entries_def last_map node_entry_def)
  then have "entries (removed ?a Reason_kEviction s) = butlast (entries s)"
    using drop_key_last [OF entries_keys_distinct [OF wf(1,2)]] entries_removed [OF assms(1) n]
    by simp
  with ev wf_core_removed [OF assms(1) n, of Reason_kEviction] show ?thesis
    by (simp add: removed_def)
qed

text \<open>A counter that was incremented for one entry and then for all that were removed after it.\<close>

lemma counted_removals:
  assumes "c1 = c + 1" and "c2 = c1 + of_nat (l1 - l2)" and "l = Suc l1" and "l2 \<le> l1"
  shows "(c2 :: uint64) = c + of_nat (l - l2)"
  using assms by (simp add: Suc_diff_le)

lemma enforce_max_memory_wf:
  assumes "wf_core s"
  shows "\<exists>s'. enforce_max_memory s = Some s' \<and> wf_shard s' \<and>
    entries s' = keep_recent (unat (max_memory_bytes s)) (entries s) \<and>
    max_memory_bytes s' = max_memory_bytes s \<and> expired_count s' = expired_count s \<and>
    evictions s' = evictions s + of_nat (length (entries s) - length (entries s'))"
  using assms
proof (induction s rule: enforce_max_memory.induct)
  case (1 s)
  note used = wf_coreD(5) [OF "1.prems", unfolded wf_used_def]
  have over: "used_payload_bytes s > max_memory_bytes s \<longleftrightarrow>
      unat (max_memory_bytes s) < payload (entries s)"
    using used by (simp add: word_less_nat_alt unat64_of_nat)
  show ?case
  proof (cases "unat (max_memory_bytes s) < payload (entries s)")
    case False
    then show ?thesis
      using "1.prems" over
      by (simp add: enforce_max_memory.simps [of s] wf_shard_def keep_recent_all)
  next
    case True
    then have ne: "lru_list s \<noteq> []" by (auto simp: entries_def)
    obtain s1 where s1: "evict_lru s = Some s1" "wf_core s1" "entries s1 = butlast (entries s)"
        "max_memory_bytes s1 = max_memory_bytes s" "evictions s1 = evictions s + 1"
        "expired_count s1 = expired_count s"
      using evict_lru_wf [OF "1.prems" ne] by blast
    obtain s2 where s2: "enforce_max_memory s1 = Some s2" "wf_shard s2"
        "entries s2 = keep_recent (unat (max_memory_bytes s1)) (entries s1)"
        "max_memory_bytes s2 = max_memory_bytes s1" "expired_count s2 = expired_count s1"
        "evictions s2 = evictions s1 + of_nat (length (entries s1) - length (entries s2))"
      using "1.IH" [OF _ s1(1,2)] True over ne by blast
    have kr: "entries s2 = keep_recent (unat (max_memory_bytes s)) (entries s)"
      using s2(3) s1(3,4) keep_recent_butlast [OF True] by simp
    have "length (entries s2) \<le> length (entries s1)"
      using keep_recent_prefix [of "entries s1" "unat (max_memory_bytes s1)"] s2(3) by (metis le_add1 length_append)
    moreover have "length (entries s) = Suc (length (entries s1))" using ne s1(3) by (simp add: entries_def)
    ultimately have "evictions s2 = evictions s + of_nat (length (entries s) - length (entries s2))"
      using counted_removals [OF s1(5) s2(6)] by simp
    moreover have "enforce_max_memory s = Some s2"
      using s1(1) s2(1) True over ne by (simp add: enforce_max_memory.simps [of s])
    ultimately show ?thesis using s1 s2 kr by simp
  qed
qed

subsection \<open>Replacing a deadline\<close>

definition retimed :: "addr \<Rightarrow> time_point option \<Rightarrow> LruShard \<Rightarrow> LruShard" where
  "retimed a d s =
     (let n = the (nodes s a) in
      case d of
        None \<Rightarrow> s\<lparr>expire_map := other_entries a s,
                   nodes := (nodes s)(a \<mapsto> n\<lparr>expire_at := None, expire_it := None\<rparr>)\<rparr>
      | Some t \<Rightarrow> s\<lparr>expire_map := insert_entry (t, fresh s, a) (other_entries a s),
                     fresh := Suc (fresh s),
                     nodes := (nodes s)(a \<mapsto> n\<lparr>expire_at := Some t, expire_it := Some (fresh s)\<rparr>)\<rparr>)"

lemma set_insert_entry [simp]: "set (insert_entry x ys) = insert x (set ys)"
  by (induction x ys rule: insert_entry.induct) auto

lemma sorted_insert_entry: "sorted (map fst ys) \<Longrightarrow> sorted (map fst (insert_entry x ys))"
  by (induction x ys rule: insert_entry.induct) auto

lemma distinct_insert_entry:
  "distinct (map (fst \<circ> snd) ys) \<Longrightarrow> fst (snd x) \<notin> (fst \<circ> snd) ` set ys \<Longrightarrow>
    distinct (map (fst \<circ> snd) (insert_entry x ys))"
  by (induction x ys rule: insert_entry.induct) auto

lemma retimed_fields [simp]:
  "lru_list (retimed a d s) = lru_list s" "kmap (retimed a d s) = kmap s"
  "max_memory_bytes (retimed a d s) = max_memory_bytes s"
  "used_payload_bytes (retimed a d s) = used_payload_bytes s"
  "evictions (retimed a d s) = evictions s" "expired_count (retimed a d s) = expired_count s"
  by (simp_all add: retimed_def Let_def split: option.splits)

lemma retimed_nodes:
  assumes "nodes s a = Some n"
  shows "nodes (retimed a d s) b =
    (if b = a then Some (n\<lparr>expire_at := d, expire_it := map_option (\<lambda>_. fresh s) d\<rparr>) else nodes s b)"
  using assms by (auto simp: retimed_def Let_def split: option.splits)

lemma retimed_dom [simp]: "nodes s a = Some n \<Longrightarrow> dom (nodes (retimed a d s)) = dom (nodes s)"
  by (auto simp: dom_def retimed_nodes)

lemma retimed_expire_map:
  "expire_map (retimed a d s) =
    (case d of None \<Rightarrow> other_entries a s | Some t \<Rightarrow> insert_entry (t, fresh s, a) (other_entries a s))"
  "fresh (retimed a d s) = (if d = None then fresh s else Suc (fresh s))"
  by (auto simp: retimed_def Let_def split: option.splits)

lemma wf_expire_retimed:
  assumes "wf_expire s" and "wf_fresh s" and n: "nodes s a = Some n"
  shows "wf_expire (retimed a d s)"
proof -
  have law: "(t, e, b) \<in> set (expire_map s) \<longleftrightarrow>
      (\<exists>m. nodes s b = Some m \<and> expire_at m = Some t \<and> expire_it m = Some e)" for t e b
    using assms(1) by (simp add: wf_expire_def)
  have mem: "(t, e, b) \<in> set (expire_map (retimed a d s)) \<longleftrightarrow>
      (\<exists>m. nodes (retimed a d s) b = Some m \<and> expire_at m = Some t \<and> expire_it m = Some e)" for t e b
    using law by (auto simp: retimed_expire_map retimed_nodes [OF n] other_entries_mem split: option.splits)
  have "fresh s \<notin> (fst \<circ> snd) ` set (other_entries a s)"
    using assms(2) by (force simp: wf_fresh_def other_entries_def)
  then have "distinct (map (fst \<circ> snd) (insert_entry (t, fresh s, a) (other_entries a s)))" for t
    using other_entries_order(2) [OF assms(1), of a] by (intro distinct_insert_entry) auto
  then have ord: "sorted (map fst (expire_map (retimed a d s)))"
      "distinct (map (fst \<circ> snd) (expire_map (retimed a d s)))"
    using other_entries_order [OF assms(1), of a]
    by (auto simp: retimed_expire_map intro: sorted_insert_entry split: option.splits)
  have "\<forall>b m. nodes s b = Some m \<longrightarrow> (expire_at m = None \<longleftrightarrow> expire_it m = None)"
    using assms(1) by (simp add: wf_expire_def)
  with mem ord show ?thesis
    by (simp add: wf_expire_def retimed_nodes [OF n])
qed

lemma wf_map_retimed:
  assumes "wf_map s" and n: "nodes s a = Some n"
  shows "wf_map (retimed a d s)"
  using assms by (auto simp: wf_map_def retimed_nodes [OF n])

lemma wf_fresh_retimed:
  assumes "wf_fresh s" and n: "nodes s a = Some n"
  shows "wf_fresh (retimed a d s)"
proof -
  have "e < fresh s" if "(t, e, b) \<in> set (expire_map s)" for t e b
    using assms(1) that by (auto simp: wf_fresh_def)
  moreover have "b < fresh s" if "nodes s b = Some m" for b m
    using assms(1) that by (auto simp: wf_fresh_def)
  ultimately show ?thesis
    using n by (auto simp: wf_fresh_def retimed_expire_map other_entries_mem less_SucI
        split: option.splits)
qed

lemma entries_retimed:
  assumes "wf_list s" and "wf_map s" and n: "nodes s a = Some n"
  shows "entries (retimed a d s) = set_deadline (node_key n) d (entries s)"
proof -
  have "node_key (the (nodes s b)) = node_key n \<longleftrightarrow> b = a" if "b \<in> set (lru_list s)" for b
    using that wf_listD(2) [OF assms(1)] wf_map_lookup(3) [OF assms(2) n] by fastforce
  then show ?thesis
    using n by (auto simp: entries_def set_deadline_def retimed_nodes [OF n] node_entry_def)
qed

lemma wf_core_retimed:
  assumes "wf_core s" and n: "nodes s a = Some n"
  shows "wf_core (retimed a d s)"
  using wf_coreD [OF assms(1)] n
  by (simp add: wf_core_def wf_expire_retimed wf_map_retimed wf_fresh_retimed)
    (simp add: wf_list_def wf_used_def entries_retimed)

subsection \<open>Moving a node to the front, adding a node, replacing a value\<close>

definition to_front :: "addr \<Rightarrow> LruShard \<Rightarrow> LruShard" where
  "to_front a s = s\<lparr>lru_list := a # remove1 a (lru_list s)\<rparr>"

lemma to_front_fields [simp]:
  "nodes (to_front a s) = nodes s" "kmap (to_front a s) = kmap s"
  "expire_map (to_front a s) = expire_map s" "fresh (to_front a s) = fresh s"
  "max_memory_bytes (to_front a s) = max_memory_bytes s"
  "used_payload_bytes (to_front a s) = used_payload_bytes s"
  "evictions (to_front a s) = evictions s" "expired_count (to_front a s) = expired_count s"
  by (simp_all add: to_front_def)

lemma entries_to_front:
  assumes "wf_core s" and n: "nodes s a = Some n"
  shows "entries (to_front a s) = node_entry n # drop_key (node_key n) (entries s)"
  using entries_removed_list [OF wf_coreD(1) [OF assms(1)], of a Reason_kDelete]
    entries_removed [OF assms, of Reason_kDelete] n
  by (simp add: entries_def to_front_def)

lemma wf_core_to_front:
  assumes "wf_core s" and n: "nodes s a = Some n"
  shows "wf_core (to_front a s)"
proof -
  note wf = wf_coreD [OF assms(1)]
  have "wf_list (to_front a s)"
    using wf(1) n by (auto simp: wf_list_def to_front_def)
  moreover have "payload (entries (to_front a s)) = payload (entries s)"
    using payload_split_key [OF entries_keys_distinct [OF wf(1,2)] entries_lookup [OF assms]]
      entries_to_front [OF assms] by (simp add: node_entry_def)
  ultimately show ?thesis
    using wf by (simp add: wf_core_def wf_map_def wf_expire_def wf_fresh_def wf_used_def)
qed

lemma splice_front_wf: "wf_core s \<Longrightarrow> nodes s a = Some n \<Longrightarrow> splice_front a s = Some (to_front a s)"
  using wf_listD(2) [OF wf_coreD(1)] by (auto simp: splice_front_def to_front_def)

lemma new_used_exact:
  assumes "old + rest < 2 ^ 64" and "new + rest < 2 ^ 64"
  shows "new_used (of_nat (old + rest)) (of_nat old) (of_nat new) = of_nat (new + rest)"
proof -
  have le: "(of_nat a :: size_t) \<le> of_nat b \<longleftrightarrow> a \<le> b" if "a < 2 ^ 64" "b < 2 ^ 64" for a b
    using that by (simp add: word_le_nat_alt unat64_of_nat)
  show ?thesis
  proof (cases "old \<le> new")
    case True
    with assms le [of old new] show ?thesis by (simp add: new_used_def)
  next
    case False
    then have d: "(of_nat old - of_nat new :: size_t) = of_nat (old - new)"
      by (simp add: of_nat_diff)
    have c: "\<not> (of_nat old :: size_t) \<le> of_nat new" and c': "(of_nat (old - new) :: size_t) \<le> of_nat (old + rest)"
      using False assms by (simp_all only: le) simp_all
    have "new_used (of_nat (old + rest)) (of_nat old) (of_nat new) =
        of_nat (old + rest) - of_nat (old - new)"
      unfolding new_used_def Let_def d by (simp only: c c' if_True if_False)
    also have "\<dots> = of_nat (old + rest - (old - new))"
      by (rule of_nat_diff [symmetric]) simp
    also have "old + rest - (old - new) = new + rest" using False by simp
    finally show ?thesis .
  qed
qed

definition revalued :: "addr \<Rightarrow> bytes \<Rightarrow> LruShard \<Rightarrow> LruShard" where
  "revalued a v s =
     (let n = the (nodes s a); n' = n\<lparr>node_value := v\<rparr> in
      s\<lparr>nodes := (nodes s)(a \<mapsto> n'),
        used_payload_bytes := new_used (used_payload_bytes s) (payload_bytes n) (payload_bytes n')\<rparr>)"

lemma revalued_fields [simp]:
  "lru_list (revalued a v s) = lru_list s" "kmap (revalued a v s) = kmap s"
  "expire_map (revalued a v s) = expire_map s" "fresh (revalued a v s) = fresh s"
  "max_memory_bytes (revalued a v s) = max_memory_bytes s"
  "evictions (revalued a v s) = evictions s" "expired_count (revalued a v s) = expired_count s"
  by (simp_all add: revalued_def Let_def)

lemma revalued_nodes:
  assumes "nodes s a = Some n"
  shows "nodes (revalued a v s) b = (if b = a then Some (n\<lparr>node_value := v\<rparr>) else nodes s b)"
  using assms by (simp add: revalued_def Let_def)

lemma entries_revalued:
  assumes "wf_list s" and "wf_map s" and n: "nodes s a = Some n"
  shows "entries (revalued a v s) = set_value (node_key n) v (entries s)"
proof -
  have "node_key (the (nodes s b)) = node_key n \<longleftrightarrow> b = a" if "b \<in> set (lru_list s)" for b
    using that wf_listD(2) [OF assms(1)] wf_map_lookup(3) [OF assms(2) n] by fastforce
  then show ?thesis
    using n by (auto simp: entries_def set_value_def revalued_nodes [OF n] node_entry_def)
qed

lemma wf_core_revalued:
  assumes "wf_core s" and n: "nodes s a = Some n"
    and fits: "length (node_key n) + length v + payload (drop_key (node_key n) (entries s)) < 2 ^ 64"
  shows "wf_core (revalued a v s)"
proof -
  note wf = wf_coreD [OF assms(1)]
  let ?k = "node_key n" and ?rest = "payload (drop_key (node_key n) (entries s))"
  note dist = entries_keys_distinct [OF wf(1,2)] and look = entries_lookup [OF assms(1) n]
  have old: "payload (entries s) = entry_size (node_entry n) + ?rest"
    using payload_split_key [OF dist look] by (simp add: node_entry_def)
  have new: "payload (entries (revalued a v s)) = length ?k + length v + ?rest"
    using payload_set_value [OF dist look] entries_revalued [OF wf(1,2) n] by simp
  have "used_payload_bytes (revalued a v s) =
      new_used (of_nat (entry_size (node_entry n) + ?rest)) (of_nat (entry_size (node_entry n)))
        (of_nat (length ?k + length v))"
    using wf(5) n old
    by (simp add: revalued_def payload_bytes_size wf_used_def)
      (simp add: entry_size_def node_entry_def)
  also have "\<dots> = of_nat (length ?k + length v + ?rest)"
    using wf(5) old fits by (intro new_used_exact) (simp_all add: wf_used_def)
  finally have "wf_used (revalued a v s)"
    using fits new by (simp add: wf_used_def)
  moreover have "dom (nodes (revalued a v s)) = dom (nodes s)"
    using n by (auto simp: dom_def revalued_nodes [OF n])
  ultimately show ?thesis
    using wf n by (auto simp: wf_core_def wf_list_def wf_map_def wf_expire_def wf_fresh_def
        revalued_nodes [OF n])
qed

definition pushed :: "bytes \<Rightarrow> bytes \<Rightarrow> LruShard \<Rightarrow> LruShard" where
  "pushed k v s =
     (let n = \<lparr>node_key = k, node_value = v, expire_at = None, expire_it = None\<rparr> in
      s\<lparr>lru_list := fresh s # lru_list s, nodes := (nodes s)(fresh s \<mapsto> n), fresh := Suc (fresh s),
        kmap := Mapping.update k (fresh s) (kmap s),
        used_payload_bytes := used_payload_bytes s + payload_bytes n\<rparr>)"

lemma fresh_not_live: "wf_fresh s \<Longrightarrow> nodes s (fresh s) = None"
  by (auto simp: wf_fresh_def dom_def)

lemma entries_pushed:
  assumes "wf_list s" and "wf_fresh s"
  shows "entries (pushed k v s) = (k, v, None) # entries s"
proof -
  have "fresh s \<notin> set (lru_list s)"
    using wf_listD(2) [OF assms(1)] fresh_not_live [OF assms(2)] by auto
  then show ?thesis
    by (auto simp: entries_def pushed_def node_entry_def Let_def)
qed

lemma wf_core_pushed:
  assumes "wf_core s" and k: "k \<notin> fst ` set (entries s)"
    and fits: "length k + length v + payload (entries s) < 2 ^ 64"
  shows "wf_core (pushed k v s)"
proof -
  note wf = wf_coreD [OF assms(1)]
  note new = fresh_not_live [OF wf(4)] and es = entries_pushed [OF wf(1,4)]
  have nk: "node_key m \<noteq> k" if "nodes s b = Some m" for b m
    using that k by (force simp: entries_mem [OF wf(1)] node_entry_def)
  have "wf_list (pushed k v s)"
    using wf(1) new by (auto simp: wf_list_def pushed_def Let_def)
  moreover have "wf_map (pushed k v s)"
    using wf(2) new nk by (auto simp: wf_map_def pushed_def Let_def lookup_update')
  moreover have "wf_expire (pushed k v s)"
    using wf(3) new by (auto simp: wf_expire_def pushed_def Let_def)
  moreover have "wf_fresh (pushed k v s)"
  proof -
    have "e < fresh s" if "(t, e, b) \<in> set (expire_map s)" for t e b
      using wf(4) that by (auto simp: wf_fresh_def)
    moreover have "b < fresh s" if "nodes s b = Some m" for b m
      using wf(4) that by (auto simp: wf_fresh_def)
    ultimately show ?thesis by (auto simp: wf_fresh_def pushed_def Let_def less_SucI)
  qed
  moreover have "wf_used (pushed k v s)"
    using wf(5) fits es by (simp add: wf_used_def entry_size_def pushed_def payload_bytes_def Let_def)
  ultimately show ?thesis by (simp add: wf_core_def)
qed

subsection \<open>The operations\<close>

lemma wf_shardD: "wf_shard s \<Longrightarrow> wf_core s" "wf_shard s \<Longrightarrow> payload (entries s) \<le> unat (max_memory_bytes s)"
  by (simp_all add: wf_shard_def)

lemma new_shard_wf: "wf_shard (new_shard m)" "entries (new_shard m) = []"
  by (simp_all add: wf_shard_def wf_core_def wf_list_def wf_map_def wf_expire_def wf_fresh_def wf_used_def
      new_shard_def entries_def)

text \<open>A key's map entry: absent, or a live node with that key.\<close>

lemma find_cases [consumes 1, case_names absent present]:
  assumes "wf_core s"
  obtains "map_find k s = None" and "map_of (entries s) k = None" and "k \<notin> fst ` set (entries s)"
  | a n where "map_find k s = Some (k, a)" and "nodes s a = Some n" and "node_key n = k"
      and "map_of (entries s) k = Some (node_value n, expire_at n)" and "k \<in> fst ` set (entries s)"
proof (cases "map_find k s")
  case None
  then show thesis
    using that(1) wf_coreD [OF assms] by (simp add: map_find_None map_of_eq_None_iff)
next
  case (Some p)
  obtain k' a where p: "p = (k', a)" by (cases p)
  with Some wf_coreD(2) [OF assms] obtain n where n: "k' = k" "nodes s a = Some n" "node_key n = k"
    by (auto simp: map_find_iff)
  moreover from this have "map_of (entries s) k = Some (node_value n, expire_at n)"
    using entries_lookup [OF assms] by blast
  moreover from this have "k \<in> fst ` set (entries s)"
    by (metis map_of_eq_None_iff option.distinct(1))
  ultimately show thesis using that(2) Some p by blast
qed

lemma wf_shard_removed:
  assumes "wf_shard s" and "nodes s a = Some n"
  shows "wf_shard (removed a r s)"
  using assms wf_core_removed [of s a n r] entries_removed [of s a n r]
    payload_drop_key [of "node_key n" "entries s"]
  by (simp add: wf_shard_def) (simp add: removed_def)

lemma wf_shard_to_front:
  assumes "wf_shard s" and "nodes s a = Some n"
  shows "wf_shard (to_front a s)"
proof -
  have "wf_core s" using assms(1) by (rule wf_shardD)
  then have "wf_used (to_front a s)" and "wf_used s" and "wf_core (to_front a s)"
    using wf_core_to_front [OF _ assms(2)] by (simp_all add: wf_core_def)
  then have "payload (entries (to_front a s)) = payload (entries s)"
    unfolding wf_used_def using unat64_of_nat by (metis to_front_fields(6))
  then show ?thesis
    using assms(1) \<open>wf_core (to_front a s)\<close> by (simp add: wf_shard_def)
qed

lemma removed_counters [simp]:
  "max_memory_bytes (removed a r s) = max_memory_bytes s"
  "evictions (removed a r s) = (if r = Reason_kEviction then evictions s + 1 else evictions s)"
  "expired_count (removed a r s) = (if r = Reason_kExpired then expired_count s + 1 else expired_count s)"
  by (simp_all add: removed_def)

definition same_limits :: "LruShard \<Rightarrow> LruShard \<Rightarrow> bool" where
  "same_limits s s' \<longleftrightarrow> max_memory_bytes s' = max_memory_bytes s"

lemma lru_get_refines:
  assumes "wf_shard s"
  shows "\<exists>s'. lru_get k now s = Some (fst (spec_get k now (entries s)), s') \<and> wf_shard s' \<and>
    entries s' = snd (spec_get k now (entries s)) \<and> same_limits s s' \<and>
    evictions s' = evictions s \<and>
    expired_count s' = expired_count s + of_nat (length (entries s) - length (entries s'))"
  using wf_shardD(1) [OF assms]
proof (cases rule: find_cases [where k = k])
  case absent
  then show ?thesis
    using assms by (simp add: lru_get_def spec_get_def same_limits_def)
next
  case (present a n)
  note core = wf_shardD(1) [OF assms]
  have dist: "distinct (map fst (entries s))"
    using wf_coreD [OF core] by (simp add: entries_keys_distinct)
  have len: "length (entries s) = Suc (length (drop_key k (entries s)))"
    using dist present(4) by (rule length_drop_key)
  show ?thesis
  proof (cases "is_expired (expire_at n) now")
    case True
    then have "lru_get k now s = Some (None, removed a Reason_kExpired s)"
      using present remove_key_wf [OF core present(2), of Reason_kExpired]
      by (simp add: lru_get_def deref_def)
    with True present assms len show ?thesis
      using entries_removed [OF core present(2), of Reason_kExpired]
      by (simp add: spec_get_def wf_shard_removed same_limits_def)
  next
    case False
    then have "lru_get k now s = Some (Some (node_value n), to_front a s)"
      using present splice_front_wf [OF core present(2)] by (simp add: lru_get_def deref_def)
    with False present assms len show ?thesis
      using entries_to_front [OF core present(2)]
      by (simp add: spec_get_def wf_shard_to_front same_limits_def node_entry_def)
  qed
qed

lemma lru_del_refines:
  assumes "wf_shard s"
  shows "\<exists>s'. lru_del k s = Some (fst (spec_del k (entries s)), s') \<and> wf_shard s' \<and>
    entries s' = snd (spec_del k (entries s)) \<and> same_limits s s' \<and>
    evictions s' = evictions s \<and> expired_count s' = expired_count s"
  using wf_shardD(1) [OF assms]
proof (cases rule: find_cases [where k = k])
  case absent
  then show ?thesis
    using assms by (simp add: lru_del_def remove_key_def spec_del_def drop_key_absent same_limits_def)
next
  case (present a n)
  note core = wf_shardD(1) [OF assms]
  have "lru_del k s = Some (True, removed a Reason_kDelete s)"
    using present remove_key_wf [OF core present(2), of Reason_kDelete] by (simp add: lru_del_def)
  with present assms show ?thesis
    using entries_removed [OF core present(2), of Reason_kDelete]
    by (simp add: spec_del_def wf_shard_removed same_limits_def)
qed

lemma lru_ttl_refines:
  assumes "wf_shard s"
  shows "\<exists>s'. lru_ttl k now1 now2 s = Some (fst (spec_ttl k now1 now2 (entries s)), s') \<and> wf_shard s' \<and>
    entries s' = snd (spec_ttl k now1 now2 (entries s)) \<and> same_limits s s' \<and>
    evictions s' = evictions s \<and>
    expired_count s' = expired_count s + of_nat (length (entries s) - length (entries s'))"
  using wf_shardD(1) [OF assms]
proof (cases rule: find_cases [where k = k])
  case absent
  then show ?thesis
    using assms by (simp add: lru_ttl_def spec_ttl_def same_limits_def)
next
  case (present a n)
  note core = wf_shardD(1) [OF assms]
  have len: "length (entries s) = Suc (length (drop_key k (entries s)))"
    using wf_coreD [OF core] present(4) by (intro length_drop_key) (simp_all add: entries_keys_distinct)
  show ?thesis
  proof (cases "is_expired (expire_at n) now1")
    case True
    then have "lru_ttl k now1 now2 s = Some (-2, removed a Reason_kExpired s)"
      using present remove_key_wf [OF core present(2), of Reason_kExpired]
      by (simp add: lru_ttl_def deref_def)
    with True present assms len show ?thesis
      using entries_removed [OF core present(2), of Reason_kExpired]
      by (simp add: spec_ttl_def wf_shard_removed same_limits_def)
  next
    case False
    with present assms show ?thesis
      by (cases "expire_at n") (simp_all add: lru_ttl_def deref_def spec_ttl_def same_limits_def Let_def)
  qed
qed

lemma wf_shard_retimed:
  assumes "wf_shard s" and n: "nodes s a = Some n"
  shows "wf_shard (retimed a d s)"
  using assms wf_core_retimed [OF _ n, of d] wf_coreD
  by (simp add: wf_shard_def entries_retimed)

lemma lru_expire_refines:
  assumes "wf_shard s"
  shows "\<exists>s'. lru_expire k seconds now s = Some (fst (spec_expire k (deadline now seconds) (entries s)), s') \<and>
    wf_shard s' \<and> entries s' = snd (spec_expire k (deadline now seconds) (entries s)) \<and>
    same_limits s s' \<and> evictions s' = evictions s \<and> expired_count s' = expired_count s"
  using wf_shardD(1) [OF assms]
proof (cases rule: find_cases [where k = k])
  case absent
  then have "set_deadline k (Some (deadline now seconds)) (entries s) = entries s"
    by (force simp: set_deadline_def intro!: map_idI)
  with absent show ?thesis
    using assms by (simp add: lru_expire_def spec_expire_def same_limits_def)
next
  case (present a n)
  note core = wf_shardD(1) [OF assms]
  note wf = wf_coreD [OF core]
  have "lru_expire k seconds now s = Some (True, retimed a (Some (deadline now seconds)) s)"
    using present expire_erase_opt_wf [OF wf(3) present(2)]
    by (simp add: lru_expire_def deref_def expire_emplace_def write_node_def retimed_def Let_def)
  with present assms show ?thesis
    using entries_retimed [OF wf(1,2) present(2)]
    by (simp add: spec_expire_def wf_shard_retimed same_limits_def)
qed

subsection \<open>Storing a value\<close>

lemma node_update_order: "n\<lparr>expire_it := i, expire_at := d\<rparr> = n\<lparr>expire_at := d, expire_it := i\<rparr>"
  by simp

lemma set_existing_eq:
  assumes core: "wf_core s" and n: "nodes s a = Some n"
    and fits: "length (node_key n) + length v + payload (drop_key (node_key n) (entries s)) < 2 ^ 64"
  shows "set_existing a v d s = enforce_max_memory (to_front a (retimed a d (revalued a v s)))"
proof -
  note wf = wf_coreD [OF core]
  let ?u = "new_used (used_payload_bytes s) (payload_bytes n) (payload_bytes (n\<lparr>node_value := v\<rparr>))"
  let ?s = "s\<lparr>used_payload_bytes := ?u\<rparr>"
  have "wf_expire ?s" using wf(3) by (simp add: wf_expire_def)
  then have er: "expire_erase_opt (expire_it n) ?s = Some (?s\<lparr>expire_map := other_entries a s\<rparr>)"
    using expire_erase_opt_wf [of ?s a n] n by (simp add: other_entries_def)
  have mem: "a \<in> set (lru_list s)" using wf_listD(2) [OF wf(1)] n by blast
  have rv: "retimed a d (revalued a v s) =
      (case d of
         None \<Rightarrow> ?s\<lparr>expire_map := other_entries a s,
                    nodes := (nodes s)(a \<mapsto> n\<lparr>node_value := v, expire_at := None, expire_it := None\<rparr>)\<rparr>
       | Some t \<Rightarrow> ?s\<lparr>expire_map := insert_entry (t, fresh s, a) (other_entries a s), fresh := Suc (fresh s),
                     nodes := (nodes s)(a \<mapsto> n\<lparr>node_value := v, expire_at := Some t, expire_it := Some (fresh s)\<rparr>)\<rparr>)"
    using n by (simp add: retimed_def revalued_def Let_def other_entries_def split: option.splits)
  show ?thesis
    using n er mem rv
    by (cases d) (simp_all add: set_existing_def deref_def Let_def node_update_order
        expire_emplace_def write_node_def splice_front_def to_front_def)
qed

lemma set_new_eq:
  assumes core: "wf_core s" and k: "k \<notin> fst ` set (entries s)"
  shows "set_new k v d s = enforce_max_memory (retimed (fresh s) d (pushed k v s))"
proof -
  note wf = wf_coreD [OF core]
  have look: "Mapping.lookup (kmap s) k = None"
    using map_find_None [OF wf(1,2), of k] k by (simp add: map_find_def)
  have "b \<noteq> fresh s" if "(t, e, b) \<in> set (expire_map s)" for t e b
    using wf(3) that fresh_not_live [OF wf(4)] by (auto simp: wf_expire_def)
  then have "other_entries (fresh s) (pushed k v s) = expire_map s"
    by (auto simp: other_entries_def pushed_def Let_def filter_id_conv)
  with look show ?thesis
    by (cases d) (auto simp: set_new_def list_push_front_def retimed_def pushed_def Let_def payload_bytes_def
        expire_emplace_def write_node_def intro!: arg_cong [where f = enforce_max_memory] LruShard.equality)
qed

text \<open>What \<open>set\<close> has done when it comes to enforcing the budget.\<close>

definition stores :: "bytes \<Rightarrow> bytes \<Rightarrow> time_point option \<Rightarrow> LruShard \<Rightarrow> LruShard \<Rightarrow> bool" where
  "stores k v d s s1 \<longleftrightarrow>
     wf_core s1 \<and> entries s1 = (k, v, d) # drop_key k (entries s) \<and> max_memory_bytes s1 = max_memory_bytes s \<and>
     evictions s1 = evictions s \<and> expired_count s1 = expired_count s"

lemma lru_set_absent:
  assumes core: "wf_core s" and room: "length k + length v + payload (drop_key k (entries s)) < 2 ^ 64"
    and absent: "map_find k s = None" "k \<notin> fst ` set (entries s)"
  shows "\<exists>s1. lru_set k v secs now s = enforce_max_memory s1 \<and> stores k v (map_option (deadline now) secs) s s1"
proof -
  let ?d = "map_option (deadline now) secs"
  let ?s1 = "retimed (fresh s) ?d (pushed k v s)"
  have dk: "drop_key k (entries s) = entries s" using absent(2) by (rule drop_key_absent)
  have p: "wf_core (pushed k v s)"
    using core absent(2) room dk by (intro wf_core_pushed) simp_all
  have n: "nodes (pushed k v s) (fresh s) =
      Some \<lparr>node_key = k, node_value = v, expire_at = None, expire_it = None\<rparr>"
    by (simp add: pushed_def Let_def)
  have "entries ?s1 = set_deadline k ?d ((k, v, None) # entries s)"
    using entries_retimed [OF wf_coreD(1,2) [OF p] n] entries_pushed [OF wf_coreD(1,4) [OF core]] by simp
  also have "\<dots> = (k, v, ?d) # entries s"
    using absent(2) by (force simp: set_deadline_def intro!: map_idI)
  finally show ?thesis
    using absent set_new_eq [OF core absent(2)] wf_core_retimed [OF p n, of ?d] dk
    by (intro exI [of _ ?s1]) (simp add: lru_set_def stores_def pushed_def Let_def)
qed

lemma lru_set_present:
  assumes core: "wf_core s" and room: "length k + length v + payload (drop_key k (entries s)) < 2 ^ 64"
    and present: "map_find k s = Some (k, a)" "nodes s a = Some n" "node_key n = k"
  shows "\<exists>s1. lru_set k v secs now s = enforce_max_memory s1 \<and> stores k v (map_option (deadline now) secs) s s1"
proof -
  let ?d = "map_option (deadline now) secs"
  let ?s0 = "revalued a v s" and ?s1 = "to_front a (retimed a ?d (revalued a v s))"
  have c0: "wf_core ?s0"
    using room by (intro wf_core_revalued [OF core present(2)]) (simp add: present(3))
  have n0: "nodes ?s0 a = Some (n\<lparr>node_value := v\<rparr>)"
    by (simp add: revalued_nodes [OF present(2)])
  have c1: "wf_core (retimed a ?d ?s0)" by (rule wf_core_retimed [OF c0 n0])
  have n1: "nodes (retimed a ?d ?s0) a =
      Some (n\<lparr>node_value := v, expire_at := ?d, expire_it := map_option (\<lambda>_. fresh s) ?d\<rparr>)"
    by (simp add: retimed_nodes [OF n0])
  have "entries ?s1 = (k, v, ?d) # drop_key k (entries s)"
    using entries_to_front [OF c1 n1] entries_retimed [OF wf_coreD(1,2) [OF c0] n0]
      entries_revalued [OF wf_coreD(1,2) [OF core] present(2)] present(3)
    by (simp add: node_entry_def)
  then show ?thesis
    using present set_existing_eq [OF core present(2), of v ?d] room wf_core_to_front [OF c1 n1]
    by (intro exI [of _ ?s1]) (simp add: lru_set_def stores_def Let_def)
qed

lemma lru_set_refines:
  assumes "wf_shard s" and fits: "unat (max_memory_bytes s) + length k + length v < 2 ^ 64"
  shows "\<exists>s'. lru_set k v secs now s = Some s' \<and> wf_shard s' \<and>
    entries s' = spec_set (unat (max_memory_bytes s)) k v (map_option (deadline now) secs) (entries s) \<and>
    same_limits s s' \<and> expired_count s' = expired_count s \<and>
    evictions s' = evictions s + of_nat (Suc (length (drop_key k (entries s))) - length (entries s'))"
proof -
  note core = wf_shardD(1) [OF assms(1)]
  have room: "length k + length v + payload (drop_key k (entries s)) < 2 ^ 64"
    using fits wf_shardD(2) [OF assms(1)] payload_drop_key [of k "entries s"] by simp
  have "\<exists>s1. lru_set k v secs now s = enforce_max_memory s1 \<and> stores k v (map_option (deadline now) secs) s s1"
    using core
  proof (cases rule: find_cases [where k = k])
    case absent
    then show ?thesis by (intro lru_set_absent [OF core room])
  next
    case (present a n)
    then show ?thesis by (intro lru_set_present [OF core room])
  qed
  then obtain s1 where "lru_set k v secs now s = enforce_max_memory s1" and s1: "stores k v (map_option (deadline now) secs) s s1"
    by blast
  with enforce_max_memory_wf [of s1] show ?thesis by (simp add: stores_def spec_set_def same_limits_def)
qed

subsection \<open>Expiration\<close>

lemma expire_head:
  assumes "wf_core s" and "expire_map s = (t, e, a) # rest"
  obtains n where "nodes s a = Some n" and "expire_at n = Some t" and "expire_it n = Some e"
    and "other_entries a s = rest"
proof -
  note ex = wf_coreD(3) [OF assms(1)]
  have "(t, e, a) \<in> set (expire_map s)" using assms(2) by simp
  then obtain n where n: "nodes s a = Some n" "expire_at n = Some t" "expire_it n = Some e"
    using ex unfolding wf_expire_def by blast
  have "e \<notin> (fst \<circ> snd) ` set rest"
    using ex assms(2) by (simp add: wf_expire_def)
  then have "b \<noteq> a" if "(t', i, b) \<in> set rest" for t' i b
    using that expire_entry_iff [OF ex n(1), of t' i b] assms(2) n(3) by (force simp: image_iff)
  then have "other_entries a s = rest"
    using assms(2) by (auto simp: other_entries_def filter_id_conv)
  with n that show thesis by blast
qed

lemma remove_expired_turn_eq:
  assumes core: "wf_core s" and hd: "expire_map s = (t, e, a) # rest"
  shows "remove_expired_turn a s = Some (removed a Reason_kExpired s)"
proof -
  note wf = wf_coreD [OF core]
  obtain n where n: "nodes s a = Some n" "expire_it n = Some e" and oth: "other_entries a s = rest"
    using expire_head [OF assms] by blast
  have mem: "a \<in> set (lru_list s)" using wf_listD(2) [OF wf(1)] n by blast
  have "map_find (node_key n) s = Some (node_key n, a)"
    using n by (auto simp: map_find_iff [OF wf(2)])
  then have look: "Mapping.lookup (kmap s) (node_key n) = Some a" by (simp add: map_find_def)
  have "payload_bytes n \<le> used_payload_bytes s"
    using wf(5) node_size_le [OF wf(1) n(1)]
    by (simp add: wf_used_def payload_bytes_size word_le_nat_alt unat64_of_nat)
  then have "payload_bytes (n\<lparr>expire_it := None\<rparr>) \<le> used_payload_bytes s"
    and "payload_bytes (n\<lparr>expire_it := None\<rparr>) = payload_bytes n"
    by (simp_all add: payload_bytes_def)
  then show ?thesis
    using n mem look oth hd
    by (simp add: remove_expired_turn_def deref_def write_node_def map_find_def remove_key_def
        expire_erase_opt_def list_erase_def removed_def)
qed

lemma spec_purge_drop:
  assumes "distinct (map fst es)" and "map_of es k = Some (v, d)" and "is_expired d now"
  shows "spec_purge now (drop_key k es) = spec_purge now es"
proof -
  have "fst x = k \<Longrightarrow> x = (k, v, d)" if "x \<in> set es" for x
    using assms(1,2) that by (cases x) (auto simp: map_of_eq_Some_iff dest: eq_key_imp_eq_value)
  then have "\<And>x. x \<in> set es \<Longrightarrow> fst x = k \<Longrightarrow> is_expired (snd (snd x)) now"
    using assms(3) by auto
  then show ?thesis
    unfolding spec_purge_def drop_key_def by (auto simp: split_def intro: filter_cong)
qed

lemma spec_purge_none:
  assumes "wf_core s" and "\<And>t e a rest. expire_map s = (t, e, a) # rest \<Longrightarrow> now < t"
  shows "spec_purge now (entries s) = entries s"
proof -
  note wf = wf_coreD [OF assms(1)]
  have "now < t" if "(t, e, a) \<in> set (expire_map s)" for t e a
  proof (cases "expire_map s")
    case (Cons x xs)
    obtain t0 e0 a0 where x: "x = (t0, e0, a0)" by (cases x)
    have "sorted (map fst (expire_map s))" using wf(3) by (simp add: wf_expire_def)
    then have "t0 \<le> t" using that Cons x by auto
    then show ?thesis using assms(2) Cons x by fastforce
  qed (use that in simp)
  then have "\<not> is_expired (expire_at n) now" if "nodes s a = Some n" for a n
    using wf(3) that unfolding wf_expire_def is_expired_def
    by (auto split: option.splits) (metis not_less option.distinct(1) option.exhaust)
  then show ?thesis
    unfolding spec_purge_def using wf(1)
    by (auto simp: filter_id_conv entries_mem node_entry_def)
qed

lemma remove_expired_keys_refines:
  assumes "wf_shard s"
  shows "\<exists>s'. remove_expired_keys now s = Some s' \<and> wf_shard s' \<and>
    entries s' = spec_purge now (entries s) \<and> same_limits s s' \<and> evictions s' = evictions s \<and>
    expired_count s' = expired_count s + of_nat (length (entries s) - length (entries s'))"
  using assms
proof (induction now s rule: remove_expired_keys.induct)
  case (1 now s)
  note core = wf_shardD(1) [OF "1.prems"]
  show ?case
  proof (cases "\<exists>t e a rest. expire_map s = (t, e, a) # rest \<and> t \<le> now")
    case False
    then have "remove_expired_keys now s = Some s"
      by (auto simp: remove_expired_keys.simps [of now s] split: list.splits)
    moreover have "spec_purge now (entries s) = entries s"
      using False by (intro spec_purge_none [OF core]) force
    ultimately show ?thesis using "1.prems" by (simp add: same_limits_def)
  next
    case True
    then obtain t e a rest where hd: "expire_map s = (t, e, a) # rest" and t: "t \<le> now" by blast
    obtain n where n: "nodes s a = Some n" "expire_at n = Some t" using expire_head [OF core hd] by blast
    let ?s1 = "removed a Reason_kExpired s"
    note turn = remove_expired_turn_eq [OF core hd]
    have dist: "distinct (map fst (entries s))"
      using wf_coreD [OF core] by (simp add: entries_keys_distinct)
    note look = entries_lookup [OF core n(1)]
    have es1: "entries ?s1 = drop_key (node_key n) (entries s)" by (rule entries_removed [OF core n(1)])
    have "wf_shard ?s1" by (rule wf_shard_removed [OF "1.prems" n(1)])
    with "1.IH" [OF hd refl refl t turn] obtain s2 where s2: "remove_expired_keys now ?s1 = Some s2"
        "wf_shard s2" "entries s2 = spec_purge now (entries ?s1)" "same_limits ?s1 s2"
        "evictions s2 = evictions ?s1"
        "expired_count s2 = expired_count ?s1 + of_nat (length (entries ?s1) - length (entries s2))"
      by blast
    have "is_expired (expire_at n) now" using n(2) t by (simp add: is_expired_def)
    then have es2: "entries s2 = spec_purge now (entries s)"
      using s2(3) es1 spec_purge_drop [OF dist look] by simp
    have "expired_count s2 = expired_count s + of_nat (length (entries s) - length (entries s2))"
      using length_drop_key [OF dist look] es1 s2(3) by (intro counted_removals [OF _ s2(6)]) (simp_all add: spec_purge_def)
    moreover have "remove_expired_keys now s = Some s2"
      using hd t turn s2(1) by (simp add: remove_expired_keys.simps [of now s])
    ultimately show ?thesis
      using s2 es2 by (simp add: same_limits_def)
  qed
qed

lemma deadlines_expire_map:
  assumes "wf_core s"
  shows "deadlines (entries s) = fst ` set (expire_map s)"
proof -
  note wf = wf_coreD [OF assms]
  have law: "(t, e, a) \<in> set (expire_map s) \<longleftrightarrow>
      (\<exists>n. nodes s a = Some n \<and> expire_at n = Some t \<and> expire_it n = Some e)" for t e a
    using wf(3) by (simp add: wf_expire_def)
  have it: "nodes s a = Some n \<Longrightarrow> expire_at n = Some t \<Longrightarrow> \<exists>e. expire_it n = Some e" for a n t
    using wf(3) unfolding wf_expire_def by (metis option.distinct(1) option.exhaust)
  have "t \<in> deadlines (entries s) \<longleftrightarrow> (\<exists>e a. (t, e, a) \<in> set (expire_map s))" for t
    unfolding deadlines_def law entries_mem [OF wf(1)] node_entry_def using it by simp metis
  then show ?thesis by (force simp: image_iff)
qed

lemma get_next_expire_time_refines:
  assumes "wf_shard s"
  shows "get_next_expire_time s = spec_next (entries s)"
proof (cases "expire_map s")
  case Nil
  then show ?thesis
    using deadlines_expire_map [OF wf_shardD(1) [OF assms]]
    by (simp add: get_next_expire_time_def spec_next_def)
next
  case (Cons x xs)
  obtain t e a where x: "x = (t, e, a)" by (cases x)
  have "sorted (map fst (expire_map s))"
    using wf_coreD(3) [OF wf_shardD(1) [OF assms]] by (simp add: wf_expire_def)
  then have "Min (fst ` set (expire_map s)) = t"
    using Cons x by (intro Min_eqI) auto
  then show ?thesis
    using Cons x deadlines_expire_map [OF wf_shardD(1) [OF assms]]
    by (simp add: get_next_expire_time_def spec_next_def)
qed

lemma get_stats_exact:
  assumes "wf_shard s"
  shows "unat (stat_used_payload_bytes (get_stats s)) = payload (entries s)"
    and "stat_key_count (get_stats s) = of_nat (length (entries s))"
proof -
  note wf = wf_coreD [OF wf_shardD(1) [OF assms]]
  show "unat (stat_used_payload_bytes (get_stats s)) = payload (entries s)"
    using wf(5) by (simp add: get_stats_def wf_used_def unat64_of_nat)
  have "Mapping.keys (kmap s) = fst ` set (entries s)"
    using map_find_None [OF wf(1,2)] by (auto simp: keys_dom_lookup map_find_def dom_def)
  then have "Mapping.size (kmap s) = card (set (map fst (entries s)))"
    by (simp add: Mapping.size_def)
  also have "\<dots> = length (entries s)"
    using distinct_card [OF entries_keys_distinct [OF wf(1,2)]] by simp
  finally show "stat_key_count (get_stats s) = of_nat (length (entries s))"
    by (simp add: get_stats_def)
qed

subsection \<open>The contract holds\<close>

definition shard_budget :: "LruShard \<Rightarrow> nat" where
  "shard_budget s = unat (max_memory_bytes s)"

lemma same_limits_budget: "same_limits s s' \<Longrightarrow> shard_budget s' = shard_budget s"
  by (simp add: same_limits_def shard_budget_def)

interpretation lru: shard_contract wf_shard entries shard_budget lru_get lru_set lru_del lru_expire lru_ttl
  remove_expired_keys
proof
  fix s k and v :: bytes and secs now now1 now2
  assume wf: "wf_shard s"
  show "distinct (map fst (entries s))"
    using wf_coreD [OF wf_shardD(1) [OF wf]] by (simp add: entries_keys_distinct)
  show "payload (entries s) \<le> shard_budget s"
    using wf by (simp add: wf_shard_def shard_budget_def)
  show "\<exists>s'. lru_get k now s = Some (fst (spec_get k now (entries s)), s') \<and> wf_shard s' \<and>
      entries s' = snd (spec_get k now (entries s)) \<and> shard_budget s' = shard_budget s"
    using lru_get_refines [OF wf, of k now] same_limits_budget by blast
  show "\<exists>s'. lru_del k s = Some (fst (spec_del k (entries s)), s') \<and> wf_shard s' \<and>
      entries s' = snd (spec_del k (entries s)) \<and> shard_budget s' = shard_budget s"
    using lru_del_refines [OF wf, of k] same_limits_budget by blast
  show "\<exists>s'. lru_expire k secs now s = Some (fst (spec_expire k (deadline now secs) (entries s)), s') \<and>
      wf_shard s' \<and> entries s' = snd (spec_expire k (deadline now secs) (entries s)) \<and>
      shard_budget s' = shard_budget s" for secs
    using lru_expire_refines [OF wf, of k secs now] same_limits_budget by blast
  show "\<exists>s'. lru_ttl k now1 now2 s = Some (fst (spec_ttl k now1 now2 (entries s)), s') \<and> wf_shard s' \<and>
      entries s' = snd (spec_ttl k now1 now2 (entries s)) \<and> shard_budget s' = shard_budget s"
    using lru_ttl_refines [OF wf, of k now1 now2] same_limits_budget by blast
  show "\<exists>s'. remove_expired_keys now s = Some s' \<and> wf_shard s' \<and>
      entries s' = spec_purge now (entries s) \<and> shard_budget s' = shard_budget s"
    using remove_expired_keys_refines [OF wf, of now] same_limits_budget by blast
  assume "shard_budget s + length k + length v < 2 ^ 64"
  then show "\<exists>s'. lru_set k v secs now s = Some s' \<and> wf_shard s' \<and>
      entries s' = spec_set (shard_budget s) k v (map_option (deadline now) secs) (entries s) \<and>
      shard_budget s' = shard_budget s"
    using lru_set_refines [OF wf, of k v secs now] by (auto simp: shard_budget_def same_limits_def)
qed

end
