(* ===== verification/Lru_Properties.thy ===== *)
theory Lru_Properties
  imports Lru_Refine
begin

section \<open>What the LRU shard guarantees\<close>

text \<open>
  The guarantees of \<open>src/lruShard.cpp\<close>, stated on the model of \<open>Lru_Shard\<close> and obtained from the
  refinement lemmas of \<open>Lru_Refine\<close> and the client lemmas of the interface \<open>shard_contract\<close>:
  memory safety and the budget over arbitrary runs of calls, the least-recently-used policy, what
  a lookup returns and how it reorders, deadlines (lookup, \<open>ttl\<close>, \<open>expire\<close>, purge) and the
  statistics.
\<close>

subsection \<open>Runs of calls on one shard\<close>

text \<open>The calls of \<open>Lru_Contract\<close> on the model of the shard itself.\<close>

fun lru_call :: "shard_call \<Rightarrow> LruShard \<Rightarrow> LruShard option" where
  "lru_call (CallGet k now) s = map_option snd (lru_get k now s)"
| "lru_call (CallSet k v secs now) s = lru_set k v secs now s"
| "lru_call (CallDel k) s = map_option snd (lru_del k s)"
| "lru_call (CallExpire k secs now) s = map_option snd (lru_expire k secs now s)"
| "lru_call (CallTtl k now1 now2) s = map_option snd (lru_ttl k now1 now2 s)"
| "lru_call (CallPurge now) s = remove_expired_keys now s"

fun lru_calls :: "shard_call list \<Rightarrow> LruShard \<Rightarrow> LruShard option" where
  "lru_calls [] s = Some s"
| "lru_calls (c # cs) s = (case lru_call c s of None \<Rightarrow> None | Some s' \<Rightarrow> lru_calls cs s')"

lemma lru_call_eq: "lru_call c s = lru.call c s"
  by (cases c) (simp_all add: lru.call_def)

lemma lru_calls_eq: "lru_calls cs s = lru.calls cs s"
  by (induction cs s rule: lru_calls.induct) (auto simp: lru_call_eq split: option.splits)

lemma lru_calls_refine:
  assumes "wf_shard s" and "list_all (call_fits (shard_budget s)) cs"
  shows "\<exists>s'. lru_calls cs s = Some s' \<and> wf_shard s' \<and>
    entries s' = fold (spec_call (shard_budget s)) cs (entries s) \<and> shard_budget s' = shard_budget s"
  using lru.calls_law [of s cs] assms by (simp add: lru_calls_eq list_all_iff)

text \<open>The state a new shard reaches by a list of calls.\<close>

definition shard_after :: "size_t \<Rightarrow> shard_call list \<Rightarrow> LruShard" where
  "shard_after m cs = the (lru_calls cs (new_shard m))"

lemma shard_after_wf:
  assumes "list_all (call_fits (unat m)) cs"
  shows "wf_shard (shard_after m cs)" "entries (shard_after m cs) = fold (spec_call (unat m)) cs []"
    "max_memory_bytes (shard_after m cs) = m" "shard_budget (shard_after m cs) = unat m"
proof -
  obtain s' where "lru_calls cs (new_shard m) = Some s'" "wf_shard s'"
      "entries s' = fold (spec_call (unat m)) cs []" "shard_budget s' = unat m"
    using lru_calls_refine [OF new_shard_wf(1), of m cs] new_shard_wf(2) [of m] assms
    by (auto simp: shard_budget_def new_shard_def)
  then show "wf_shard (shard_after m cs)" "entries (shard_after m cs) = fold (spec_call (unat m)) cs []"
      "max_memory_bytes (shard_after m cs) = m" "shard_budget (shard_after m cs) = unat m"
    by (simp_all add: shard_after_def shard_budget_def word_unat_eq_iff)
qed

lemma used_bytes_exact: "wf_shard s \<Longrightarrow> unat (used_payload_bytes s) = payload (entries s)"
  using get_stats_exact(1) [of s] by (simp add: get_stats_def)

subsection \<open>Properties\<close>

text \<open>C5: Over any sequence of calls on a new shard (\<open>get\<close>, \<open>set\<close>, \<open>del\<close>, \<open>expire\<close>, \<open>ttl\<close>,
  \<open>remove_expired_keys\<close>, with any clock readings) whose sizes do not overflow \<open>size_t\<close>, no dead
  iterator is ever dereferenced or erased, the list, the hash map and the multimap stay consistent,
  the entries are exactly those of the abstract LRU cache, and the byte counter equals the payload
  stored and never exceeds \<open>max_memory_bytes\<close>.\<close>

theorem shard_runs_refine_spec:
  assumes "list_all (call_fits (unat m)) cs"
  shows "\<exists>s. lru_calls cs (new_shard m) = Some s \<and> wf_shard s \<and>
    entries s = fold (spec_call (unat m)) cs [] \<and>
    unat (used_payload_bytes s) = payload (entries s) \<and> used_payload_bytes s \<le> m"
proof -
  obtain s where s: "lru_calls cs (new_shard m) = Some s" "wf_shard s"
      "entries s = fold (spec_call (unat m)) cs []" "shard_budget s = unat m"
    using lru_calls_refine [OF new_shard_wf(1), of m cs] new_shard_wf(2) [of m] assms
    by (auto simp: shard_budget_def new_shard_def)
  with used_bytes_exact [OF s(2)] lru.view_fits [OF s(2)] show ?thesis
    by (simp add: word_le_nat_alt)
qed

theorem shard_runs_refine_spec_witness:
  "\<exists>s. lru_calls [CallSet ''a'' ''1'' None 0, CallSet ''b'' ''2'' (Some 3) 0, CallGet ''a'' 1,
         CallSet ''c'' ''34'' None 2, CallPurge 9000000000] (new_shard 5) = Some s \<and> wf_shard s \<and>
    entries s = [(''c'', ''34'', None), (''a'', ''1'', None)] \<and>
    unat (used_payload_bytes s) = payload (entries s) \<and> used_payload_bytes s \<le> 5"
  using shard_runs_refine_spec [of 5 "[CallSet ''a'' ''1'' None 0, CallSet ''b'' ''2'' (Some 3) 0,
      CallGet ''a'' 1, CallSet ''c'' ''34'' None 2, CallPurge 9000000000]"]
  by (simp add: spec_eval)

text \<open>C8: \<open>set\<close> stores the value and the deadline as the most recently used entry, keeps every
  other entry unchanged and in order, and evicts exactly a suffix of the least recently used ones:
  as few as bring the payload under the limit. \<open>evictions\<close> counts them.\<close>

theorem set_evicts_least_recent:
  assumes "wf_shard s" and "unat (max_memory_bytes s) + length k + length v < 2 ^ 64"
  shows "\<exists>s' evicted. lru_set k v secs now s = Some s' \<and> wf_shard s' \<and>
    (k, v, map_option (deadline now) secs) # drop_key k (entries s) = entries s' @ evicted \<and>
    (evicted \<noteq> [] \<longrightarrow> unat (max_memory_bytes s) < payload (entries s' @ [hd evicted])) \<and>
    evictions s' = evictions s + of_nat (length evicted) \<and> expired_count s' = expired_count s"
proof -
  let ?es = "(k, v, map_option (deadline now) secs) # drop_key k (entries s)"
  let ?b = "unat (max_memory_bytes s)"
  obtain s' where s': "lru_set k v secs now s = Some s'" "wf_shard s'" "entries s' = keep_recent ?b ?es"
      "expired_count s' = expired_count s"
      "evictions s' = evictions s + of_nat (length ?es - length (entries s'))"
    using lru_set_refines [OF assms, of secs now] unfolding spec_set_def by auto
  obtain evicted where ev: "?es = entries s' @ evicted"
    using keep_recent_prefix [of ?es ?b] s'(3) by auto
  have "?b < payload (entries s' @ [hd evicted])" if "evicted \<noteq> []"
  proof (rule ccontr)
    assume "\<not> ?thesis"
    moreover have "?es = (entries s' @ [hd evicted]) @ tl evicted" using ev that by simp
    ultimately have "length (entries s' @ [hd evicted]) \<le> length (keep_recent ?b ?es)"
      by (intro keep_recent_longest) simp_all
    with s'(3) show False by simp
  qed
  moreover have "length ?es - length (entries s') = length evicted" unfolding ev by simp
  ultimately show ?thesis using s' ev by metis
qed

theorem set_evicts_least_recent_witness:
  "\<exists>s' evicted. lru_set ''d'' ''4567'' None 0
      (shard_after 8 [CallSet ''a'' ''1'' None 0, CallSet ''b'' ''2'' None 0, CallSet ''c'' ''3'' None 0]) = Some s' \<and>
    [(''d'', ''4567'', None), (''c'', ''3'', None), (''b'', ''2'', None), (''a'', ''1'', None)] =
      entries s' @ evicted \<and> evictions s' = evictions (shard_after 8
        [CallSet ''a'' ''1'' None 0, CallSet ''b'' ''2'' None 0, CallSet ''c'' ''3'' None 0]) + of_nat (length evicted)"
proof -
  let ?cs = "[CallSet ''a'' ''1'' None 0, CallSet ''b'' ''2'' None 0, CallSet ''c'' ''3'' None 0]"
  have "list_all (call_fits (unat (8 :: size_t))) ?cs" by simp
  note after = shard_after_wf [OF this]
  have "entries (shard_after 8 ?cs) = [(''c'', ''3'', None), (''b'', ''2'', None), (''a'', ''1'', None)]"
    unfolding after(2) by (simp add: spec_eval)
  with set_evicts_least_recent [OF after(1), of "''d''" "''4567''" None 0] after(3) show ?thesis
    by (simp add: drop_key_def) metis
qed

text \<open>\<open>get\<close> returns the stored value exactly for a key that is present and not past its deadline,
  and makes it the most recently used entry. A key past its deadline is removed and counted as
  expired; a missing key leaves the shard as it is.\<close>

theorem get_exact:
  assumes "wf_shard s"
  shows "case map_of (entries s) k of
      None \<Rightarrow> lru_get k now s = Some (None, s)
    | Some (v, d) \<Rightarrow>
        if is_expired d now
        then \<exists>s'. lru_get k now s = Some (None, s') \<and> wf_shard s' \<and> entries s' = drop_key k (entries s) \<and>
          expired_count s' = expired_count s + 1 \<and> evictions s' = evictions s
        else \<exists>s'. lru_get k now s = Some (Some v, s') \<and> wf_shard s' \<and>
          entries s' = (k, v, d) # drop_key k (entries s) \<and>
          expired_count s' = expired_count s \<and> evictions s' = evictions s"
proof (cases "map_of (entries s) k")
  case None
  then have "map_find k s = None"
    using map_find_None [of s k] wf_coreD [OF wf_shardD(1) [OF assms]] by (simp add: map_of_eq_None_iff)
  then show ?thesis using None by (simp add: lru_get_def)
next
  case (Some e)
  have "length (entries s) = Suc (length (drop_key k (entries s)))"
    using length_drop_key [OF lru.view_distinct [OF assms] Some] .
  with Some lru_get_refines [OF assms, of k now] show ?thesis
    by (cases e) (auto simp: spec_get_def)
qed

theorem get_exact_witness:
  "\<exists>s'. lru_get ''a'' 2 (shard_after 100 [CallSet ''a'' ''1'' None 0, CallSet ''b'' ''2'' None 0]) = Some (Some ''1'', s') \<and>
    entries s' = [(''a'', ''1'', None), (''b'', ''2'', None)]"
proof -
  let ?cs = "[CallSet ''a'' ''1'' None 0, CallSet ''b'' ''2'' None 0]"
  have "list_all (call_fits (unat (100 :: size_t))) ?cs" by simp
  note after = shard_after_wf [OF this]
  have "entries (shard_after 100 ?cs) = [(''b'', ''2'', None), (''a'', ''1'', None)]"
    unfolding after(2) by (simp add: spec_eval)
  with get_exact [OF after(1), of "''a''" 2] show ?thesis
    by (auto simp: drop_key_def is_expired_def)
qed

text \<open>Read your writes. A value that fits the budget is returned by the next \<open>get\<close> of its key, as
  long as its deadline, if it has one, is not reached.\<close>

theorem get_returns_last_set:
  assumes "wf_shard s" and "length k + length v \<le> unat (max_memory_bytes s)"
    and "unat (max_memory_bytes s) + length k + length v < 2 ^ 64"
    and "\<forall>n. secs = Some n \<longrightarrow> now' < deadline now n"
  shows "\<exists>s1 s2. lru_set k v secs now s = Some s1 \<and> lru_get k now' s1 = Some (Some v, s2)"
  using assms lru.get_after_set [where s = s and k = k and v = v and secs = secs and now = now and now' = now']
  by (cases secs) (auto simp: shard_budget_def is_expired_def)

theorem get_returns_last_set_witness:
  "\<exists>s1 s2. lru_set ''k'' ''v'' (Some 2) 0 (new_shard 2) = Some s1 \<and>
    lru_get ''k'' 1999999999 s1 = Some (Some ''v'', s2)"
  using get_returns_last_set [where s = "new_shard 2" and k = "''k''" and v = "''v''" and secs = "Some 2" and now' = 1999999999 and now = 0] new_shard_wf [of 2]
  by (simp add: new_shard_def spec_eval)

text \<open>A value that does not fit the budget on its own empties the shard: the loop that enforces
  the limit evicts every other entry before it reaches the new one.\<close>

theorem oversized_set_empties_shard:
  assumes "wf_shard s" and "unat (max_memory_bytes s) < length k + length v"
    and "unat (max_memory_bytes s) + length k + length v < 2 ^ 64"
  shows "\<exists>s1. lru_set k v secs now s = Some s1 \<and> entries s1 = [] \<and> used_payload_bytes s1 = 0"
proof -
  obtain s1 where s1: "lru_set k v secs now s = Some s1" "wf_shard s1" "entries s1 = []"
    using lru_set_refines [OF assms(1,3), of secs now] assms(2) by (auto simp: spec_set_def entry_size_def)
  with used_bytes_exact [OF s1(2)] show ?thesis by (simp add: unat_eq_0)
qed

theorem oversized_set_empties_shard_witness:
  "\<exists>s1. lru_set ''big'' ''12345678'' None 0 (shard_after 10 [CallSet ''a'' ''1'' None 0, CallSet ''b'' ''2'' None 0]) = Some s1 \<and>
    entries s1 = [] \<and> used_payload_bytes s1 = 0"
proof -
  have "list_all (call_fits (unat (10 :: size_t))) [CallSet ''a'' ''1'' None 0, CallSet ''b'' ''2'' None 0]" by simp
  from oversized_set_empties_shard [OF shard_after_wf(1) [OF this], of "''big''" "''12345678''" None 0]
    shard_after_wf(3) [OF this] show ?thesis by simp
qed

text \<open>C22: \<open>remove_expired_keys\<close> terminates without touching a dead iterator and removes exactly the
  entries whose deadline has passed; the others keep their order, each removal is counted as
  expired, and the next deadline, if any, lies in the future.\<close>

theorem purge_removes_exactly_expired:
  assumes "wf_shard s"
  shows "\<exists>s'. remove_expired_keys now s = Some s' \<and> wf_shard s' \<and>
    entries s' = filter (\<lambda>(k, v, d). \<not> is_expired d now) (entries s) \<and>
    expired_count s' = expired_count s + of_nat (length (entries s) - length (entries s')) \<and>
    evictions s' = evictions s \<and>
    (\<forall>t. get_next_expire_time s' = Some t \<longrightarrow> now < t)"
proof -
  obtain s' where s': "remove_expired_keys now s = Some s'" "wf_shard s'"
      "entries s' = spec_purge now (entries s)" "evictions s' = evictions s"
      "expired_count s' = expired_count s + of_nat (length (entries s) - length (entries s'))"
    using remove_expired_keys_refines [OF assms, of now] by blast
  have fin: "finite (deadlines (entries s'))"
    using deadlines_expire_map [OF wf_shardD(1) [OF s'(2)]] by simp
  have later: "now < t" if "t \<in> deadlines (entries s')" for t
    using that by (auto simp: s'(3) deadlines_def spec_purge_def is_expired_def)
  have "now < t" if "get_next_expire_time s' = Some t" for t
    using that later Min_in [OF fin]
    by (auto simp: get_next_expire_time_refines [OF s'(2)] spec_next_def split: if_splits)
  with s' show ?thesis by (auto simp: spec_purge_def)
qed

theorem purge_removes_exactly_expired_witness:
  "\<exists>s'. remove_expired_keys 3000000000 (shard_after 100
      [CallSet ''a'' ''1'' (Some 2) 0, CallSet ''b'' ''2'' (Some 9) 0, CallSet ''c'' ''3'' None 0]) = Some s' \<and>
    entries s' = [(''c'', ''3'', None), (''b'', ''2'', Some 9000000000)]"
proof -
  let ?cs = "[CallSet ''a'' ''1'' (Some 2) 0, CallSet ''b'' ''2'' (Some 9) 0, CallSet ''c'' ''3'' None 0]"
  have "list_all (call_fits (unat (100 :: size_t))) ?cs" by simp
  note after = shard_after_wf [OF this]
  have "entries (shard_after 100 ?cs) =
      [(''c'', ''3'', None), (''b'', ''2'', Some 9000000000), (''a'', ''1'', Some 2000000000)]"
    unfolding after(2)
    by (simp add: spec_eval)
  with purge_removes_exactly_expired [OF after(1), of 3000000000] show ?thesis
    by (auto simp: is_expired_def)
qed

text \<open>The timer of the expiration loop is armed with the right deadline:
  \<open>get_next_expire_time\<close> is the earliest deadline of any stored entry, and empty only when no entry
  has one.\<close>

theorem next_expire_time_is_earliest:
  assumes "wf_shard s"
  shows "get_next_expire_time s =
    (if deadlines (entries s) = {} then None else Some (Min (deadlines (entries s))))"
  using get_next_expire_time_refines [OF assms] by (simp add: spec_next_def)

theorem next_expire_time_is_earliest_witness:
  "get_next_expire_time (shard_after 100 [CallSet ''a'' ''1'' (Some 5) 0, CallSet ''b'' ''2'' (Some 2) 0]) = Some 2000000000"
proof -
  let ?cs = "[CallSet ''a'' ''1'' (Some 5) 0, CallSet ''b'' ''2'' (Some 2) 0]"
  have "list_all (call_fits (unat (100 :: size_t))) ?cs" by simp
  note after = shard_after_wf [OF this]
  have "entries (shard_after 100 ?cs) = [(''b'', ''2'', Some 2000000000), (''a'', ''1'', Some 5000000000)]"
    unfolding after(2)
    by (simp add: spec_eval)
  then have "deadlines (entries (shard_after 100 ?cs)) = {2000000000, 5000000000}"
    by (auto simp: deadlines_def)
  with next_expire_time_is_earliest [OF after(1)] show ?thesis by simp
qed

lemma whole_seconds_bounds:
  assumes "0 < d"
  shows "0 \<le> whole_seconds d" "whole_seconds d * nanos_per_second \<le> d" "d < (whole_seconds d + 1) * nanos_per_second"
  using assms by (simp_all add: whole_seconds_def nanos_per_second_def)

text \<open>C27: \<open>ttl\<close> answers \<open>-2\<close> for a missing key, \<open>-1\<close> for a key without deadline, and otherwise the
  remaining time in whole seconds, rounded down (the clock readings and the deadline are
  non-negative \<open>int64_t\<close> values). A key past its deadline is removed and answered \<open>-2\<close>.\<close>

theorem ttl_exact:
  assumes "wf_shard s" and "0 \<le> now1" and "now1 \<le> now2"
    and "\<forall>k v t. (k, v, Some t) \<in> set (entries s) \<longrightarrow> t < 2 ^ 63" and "now2 < 2 ^ 63"
  shows "\<exists>r s'. lru_ttl k now1 now2 s = Some (r, s') \<and> wf_shard s' \<and>
    (case map_of (entries s) k of
       None \<Rightarrow> r = -2 \<and> entries s' = entries s
     | Some (v, None) \<Rightarrow> r = -1 \<and> entries s' = entries s
     | Some (v, Some t) \<Rightarrow>
         if t \<le> now1 then r = -2 \<and> entries s' = drop_key k (entries s)
         else entries s' = entries s \<and> 0 \<le> sint r \<and>
           (if t \<le> now2 then r = 0
            else sint r * nanos_per_second \<le> t - now2 \<and> t - now2 < (sint r + 1) * nanos_per_second))"
proof -
  obtain s' where s': "lru_ttl k now1 now2 s = Some (fst (spec_ttl k now1 now2 (entries s)), s')" "wf_shard s'"
      "entries s' = snd (spec_ttl k now1 now2 (entries s))"
    using lru_ttl_refines [OF assms(1), of k now1 now2] by blast
  show ?thesis
  proof (cases "\<exists>v t. map_of (entries s) k = Some (v, Some t) \<and> now1 < t")
    case False
    with s' show ?thesis
      by (force simp: spec_ttl_def is_expired_def split: option.splits)
  next
    case True
    then obtain v t where t: "map_of (entries s) k = Some (v, Some t)" "now1 < t" by blast
    let ?sec = "whole_seconds (to_int64 (t - now2))"
    have "t < 2 ^ 63" using map_of_SomeD [OF t(1)] assms(4) by blast
    then have id: "to_int64 (t - now2) = t - now2"
      using assms(2,3,5) t(2) by (intro to_int64_id) simp_all
    have r: "spec_ttl k now1 now2 (entries s) = (if 0 < ?sec then word_of_int ?sec else 0, entries s)"
      using t by (simp add: spec_ttl_def is_expired_def Let_def)
    show ?thesis
    proof (cases "t \<le> now2")
      case True
      then have "?sec \<le> 0" by (simp add: id whole_seconds_def nanos_per_second_def pos_imp_zdiv_nonneg_iff)
      with True t r s' show ?thesis by simp
    next
      case False
      note b = whole_seconds_bounds [of "t - now2"]
      have "?sec < 2 ^ 63"
        using b False \<open>t < 2 ^ 63\<close> assms(2,3) unfolding id by (simp add: nanos_per_second_def)
      then have "sint (if 0 < ?sec then word_of_int ?sec else 0 :: int64) = ?sec"
        using b(1) False unfolding id by (auto simp: sint64_of_int)
      with False t r s' b show ?thesis by (simp add: id)
    qed
  qed
qed

theorem ttl_exact_witness:
  "\<exists>r s'. lru_ttl ''a'' 1 2 (shard_after 100 [CallSet ''a'' ''1'' (Some 5) 0]) = Some (r, s') \<and> sint r = 4"
proof -
  let ?cs = "[CallSet ''a'' ''1'' (Some 5) 0]"
  have "list_all (call_fits (unat (100 :: size_t))) ?cs" by simp
  note after = shard_after_wf [OF this]
  have es: "entries (shard_after 100 ?cs) = [(''a'', ''1'', Some 5000000000)]"
    unfolding after(2)
    by (simp add: spec_eval)
  from ttl_exact [OF after(1), of 1 2 "''a''"] obtain r s' where
    "lru_ttl ''a'' 1 2 (shard_after 100 ?cs) = Some (r, s')"
    "sint r * nanos_per_second \<le> 5000000000 - 2" "5000000000 - 2 < (sint r + 1) * nanos_per_second"
    unfolding es by auto
  moreover have "sint r = 4" using calculation(2,3) by (simp add: nanos_per_second_def)
  ultimately show ?thesis by blast
qed

text \<open>C40: \<open>expire\<close> does not look at the old deadline. A key that is past its deadline but has not been
  collected yet, which \<open>get\<close> reports as missing, is answered with success and becomes readable
  again.\<close>

theorem expire_revives_expired_key:
  assumes "wf_shard s" and "map_of (entries s) k = Some (v, Some t)" and "t \<le> now"
    and "now < deadline now n"
  shows "(\<exists>s0. lru_get k now s = Some (None, s0)) \<and>
    (\<exists>s1 s2. lru_expire k n now s = Some (True, s1) \<and> lru_get k now s1 = Some (Some v, s2))"
proof -
  have "\<exists>s0. lru_get k now s = Some (None, s0)"
    using lru_get_refines [OF assms(1), of k now] assms(2,3) by (auto simp: spec_get_def is_expired_def)
  moreover obtain s1 where s1: "lru_expire k n now s = Some (True, s1)" "wf_shard s1"
      "entries s1 = set_deadline k (Some (deadline now n)) (entries s)"
    using lru_expire_refines [OF assms(1), of k n now] map_of_SomeD [OF assms(2)]
    by (force simp: spec_expire_def)
  moreover have "map_of (entries s1) k = Some (v, Some (deadline now n))"
    using assms(2) by (simp add: s1(3) map_of_set_deadline)
  then have "\<exists>s2. lru_get k now s1 = Some (Some v, s2)"
    using lru_get_refines [OF s1(2), of k now] assms(4) by (auto simp: spec_get_def is_expired_def)
  ultimately show ?thesis by blast
qed

theorem expire_revives_expired_key_witness:
  "\<exists>s1 s2. lru_expire ''a'' 10 2000000000 (shard_after 100 [CallSet ''a'' ''1'' (Some 1) 0]) = Some (True, s1) \<and>
    lru_get ''a'' 2000000000 s1 = Some (Some ''1'', s2)"
proof -
  let ?cs = "[CallSet ''a'' ''1'' (Some 1) 0]"
  have "list_all (call_fits (unat (100 :: size_t))) ?cs" by simp
  note after = shard_after_wf [OF this]
  have "entries (shard_after 100 ?cs) = [(''a'', ''1'', Some 1000000000)]"
    unfolding after(2)
    by (simp add: spec_eval)
  then have "map_of (entries (shard_after 100 ?cs)) ''a'' = Some (''1'', Some 1000000000)" by simp
  from expire_revives_expired_key [OF after(1) this, of 2000000000 10] show ?thesis
    by (simp add: spec_eval)
qed

end
