(* ===== verification/Shard_Pool.thy ===== *)
theory Shard_Pool
  imports Lru_Properties
begin

section \<open>Routing and the pool of shards\<close>

text \<open>
  \<open>include/shardRouter.hpp\<close>, \<open>include/shardPool.hpp\<close> and \<open>src/shardPool.cpp\<close>. A pool is a list of
  workers. Each worker owns one shard, and the thread that runs the worker's \<open>io_context\<close> is the
  only one that touches it.

  \<open>XXH3_64bits\<close> is third-party code: a parameter \<open>hash\<close> of the definitions that route by it, about
  which nothing is assumed. \<open>assert\<close> failures and accesses past the end of \<open>workers_\<close> are \<open>None\<close>.

  Starting and stopping: \<open>start\<close> creates the threads; each thread stores its identifier, pins itself
  to a core when affinity is enabled, and runs the event loop until the \<open>io_context\<close> is stopped;
  \<open>stop\<close> stops the event loops and joins the threads. These are separate definitions, because in the
  running server other parties go on between them. \<open>pool_stop\<close> is the whole of \<open>stop\<close>, with the
  threads doing what they still do while it waits for them.
\<close>

subsection \<open>Routing\<close>

definition getShardIndex :: "(bytes \<Rightarrow> uint64) \<Rightarrow> bytes \<Rightarrow> size_t \<Rightarrow> size_t option" where
  "getShardIndex hash key shard_count =
     (if shard_count = 0 then None
      else if shard_count = 1 then Some 0
      else Some (hash key mod shard_count))"

subsection \<open>The pool\<close>

type_synonym thread = nat

text \<open>A \<open>std::thread\<close>: none (never created, or joined), created, running its event loop, or at the end
  of its function. It is joinable in the last three cases.\<close>

datatype std_thread = NoThread | Spawned thread | InLoop thread | Returned thread

record Worker =
  shard :: LruShard
  work_guard :: bool
  io_stopped :: bool
  worker_thread :: std_thread
  thread_id :: "thread option"
  pinned_core :: "uint32 option"

record ShardPool =
  workers :: "Worker list"
  thread_affinity_enabled :: bool
  started :: bool
  stopped :: bool

definition new_worker :: "size_t \<Rightarrow> Worker" where
  "new_worker max_bytes =
     \<lparr>shard = new_shard max_bytes, work_guard = True, io_stopped = False, worker_thread = NoThread,
      thread_id = None, pinned_core = None\<rparr>"

definition new_pool :: "size_t \<Rightarrow> size_t \<Rightarrow> bool \<Rightarrow> ShardPool" where
  "new_pool shard_count max_memory_bytes_per_shard affinity =
     \<lparr>workers = replicate (unat (max 1 shard_count)) (new_worker max_memory_bytes_per_shard),
      thread_affinity_enabled = affinity, started = False, stopped = False\<rparr>"

definition pool_size :: "ShardPool \<Rightarrow> size_t" where
  "pool_size p = of_nat (length (workers p))"

definition worker_at :: "size_t \<Rightarrow> ShardPool \<Rightarrow> Worker option" where
  "worker_at i p = (if unat i < length (workers p) then Some (workers p ! unat i) else None)"

definition is_on_shard_thread :: "thread \<Rightarrow> size_t \<Rightarrow> ShardPool \<Rightarrow> bool option" where
  "is_on_shard_thread this_thread i p = map_option (\<lambda>w. thread_id w = Some this_thread) (worker_at i p)"

definition put_shard :: "size_t \<Rightarrow> LruShard \<Rightarrow> ShardPool \<Rightarrow> ShardPool" where
  "put_shard i s p = p\<lparr>workers := (workers p)[unat i := (workers p ! unat i)\<lparr>shard := s\<rparr>]\<rparr>"

subsection \<open>Starting and stopping\<close>

text \<open>The identifiers of the threads that \<open>start\<close> creates are given as a function of the worker's
  index.\<close>

definition pool_start :: "(nat \<Rightarrow> thread) \<Rightarrow> ShardPool \<Rightarrow> ShardPool" where
  "pool_start new_thread p =
     (if started p then p
      else p\<lparr>started := True,
             workers := map (\<lambda>(i, w). w\<lparr>worker_thread := Spawned (new_thread i)\<rparr>) (enumerate 0 (workers p))\<rparr>)"

text \<open>The thread's function up to \<open>io_context.run()\<close>, and its end: the loop returns once the
  \<open>io_context\<close> is stopped, as the work guard keeps it busy until then. \<open>hw\<close> is
  \<open>std::thread::hardware_concurrency()\<close>.\<close>

definition worker_core :: "uint32 \<Rightarrow> size_t \<Rightarrow> uint32" where
  "worker_core hw worker_i = ucast (worker_i mod ucast (max 1 hw))"

text \<open>Pinning is a request to the system; when it fails the code only logs. The field records the core asked
  for.\<close>

definition pin_thread_to_core :: "uint32 \<Rightarrow> Worker \<Rightarrow> Worker" where
  "pin_thread_to_core core w = w\<lparr>pinned_core := Some core\<rparr>"

definition thread_begin :: "uint32 \<Rightarrow> bool \<Rightarrow> size_t \<Rightarrow> Worker \<Rightarrow> Worker" where
  "thread_begin hw affinity worker_i w =
     (case worker_thread w of
        Spawned t \<Rightarrow>
          (let w = w\<lparr>thread_id := Some t\<rparr>;
               w = (if affinity then pin_thread_to_core (worker_core hw worker_i) w else w)
           in w\<lparr>worker_thread := InLoop t\<rparr>)
      | _ \<Rightarrow> w)"

lemmas thread_begin_defs = thread_begin_def pin_thread_to_core_def Let_def

definition thread_return :: "Worker \<Rightarrow> Worker" where
  "thread_return w =
     (case worker_thread w of
        InLoop t \<Rightarrow> if io_stopped w then w\<lparr>worker_thread := Returned t\<rparr> else w
      | _ \<Rightarrow> w)"

text \<open>The two loops of \<open>stop\<close>. The second one waits for each thread that is joinable.\<close>

definition stop_loops :: "ShardPool \<Rightarrow> ShardPool" where
  "stop_loops p =
     p\<lparr>stopped := True, workers := map (\<lambda>w. w\<lparr>work_guard := False, io_stopped := True\<rparr>) (workers p)\<rparr>"

definition join_thread :: "Worker \<Rightarrow> Worker option" where
  "join_thread w =
     (case worker_thread w of
        NoThread \<Rightarrow> Some w
      | Returned t \<Rightarrow> Some (w\<lparr>worker_thread := NoThread\<rparr>)
      | _ \<Rightarrow> None)"

definition join_threads :: "ShardPool \<Rightarrow> ShardPool option" where
  "join_threads p = map_option (\<lambda>ws. p\<lparr>workers := ws\<rparr>) (those (map join_thread (workers p)))"

text \<open>All threads go on as far as they can.\<close>

definition run_threads :: "uint32 \<Rightarrow> ShardPool \<Rightarrow> ShardPool" where
  "run_threads hw p =
     p\<lparr>workers := map (\<lambda>(i, w). thread_return (thread_begin hw (thread_affinity_enabled p) (of_nat i) w))
                    (enumerate 0 (workers p))\<rparr>"

definition pool_stop :: "uint32 \<Rightarrow> ShardPool \<Rightarrow> ShardPool option" where
  "pool_stop hw p = (if stopped p then Some p else join_threads (run_threads hw (stop_loops p)))"

text \<open>The destructor: \<open>stop\<close>, then the members, and the destructor of a \<open>std::thread\<close> that is still
  joinable ends the program. \<open>None\<close> is that end. Destroying an \<open>io_context\<close> also destroys the coroutines
  that are still suspended in it, with their sockets; this is left to Boost.Asio and not
  modelled.\<close>

definition pool_destroy :: "uint32 \<Rightarrow> ShardPool \<Rightarrow> unit option" where
  "pool_destroy hw p =
     (case pool_stop hw p of
        None \<Rightarrow> None
      | Some p \<Rightarrow> if \<forall>w \<in> set (workers p). worker_thread w = NoThread then Some () else None)"

subsection \<open>Invariant\<close>

text \<open>A shard of the pool: well formed, with its budget, and holding only keys that are routed to it.\<close>

definition shard_ok :: "(bytes \<Rightarrow> uint64) \<Rightarrow> size_t \<Rightarrow> size_t \<Rightarrow> size_t \<Rightarrow> LruShard \<Rightarrow> bool" where
  "shard_ok hash n m i s \<longleftrightarrow>
     wf_shard s \<and> max_memory_bytes s = m \<and> (\<forall>e \<in> set (entries s). getShardIndex hash (fst e) n = Some i)"

definition pool_ok :: "(bytes \<Rightarrow> uint64) \<Rightarrow> size_t \<Rightarrow> ShardPool \<Rightarrow> bool" where
  "pool_ok hash m p \<longleftrightarrow>
     0 < length (workers p) \<and> length (workers p) < 2 ^ 64 \<and>
     (\<forall>i < length (workers p). shard_ok hash (pool_size p) m (of_nat i) (shard (workers p ! i)))"

text \<open>What running closures on shards leaves alone.\<close>

definition same_threads :: "ShardPool \<Rightarrow> ShardPool \<Rightarrow> bool" where
  "same_threads p p' \<longleftrightarrow> map thread_id (workers p') = map thread_id (workers p)"

lemma getShardIndex_less: "getShardIndex hash k n = Some i \<Longrightarrow> i < n"
  by (auto simp: getShardIndex_def word_less_nat_alt unat_mod unat_gt_0 unat_eq_0
      split: if_splits intro!: mod_less_divisor)

lemma getShardIndex_total: "n \<noteq> 0 \<Longrightarrow> \<exists>i. getShardIndex hash k n = Some i"
  by (simp add: getShardIndex_def)

lemma unat_pool_size: "length (workers p) < 2 ^ 64 \<Longrightarrow> unat (pool_size p) = length (workers p)"
  by (simp add: pool_size_def unat64_of_nat)

lemma pool_okD:
  assumes "pool_ok hash m p"
  shows "unat (pool_size p) = length (workers p)" "pool_size p \<noteq> 0"
    "i < pool_size p \<Longrightarrow> worker_at i p = Some (workers p ! unat i)"
    "i < pool_size p \<Longrightarrow> shard_ok hash (pool_size p) m i (shard (workers p ! unat i))"
proof -
  show *: "unat (pool_size p) = length (workers p)" using assms by (simp add: pool_ok_def unat_pool_size)
  show "pool_size p \<noteq> 0" using * assms by (auto simp: pool_ok_def)
  show "i < pool_size p \<Longrightarrow> worker_at i p = Some (workers p ! unat i)"
    using * by (simp add: worker_at_def word_less_nat_alt)
  assume "i < pool_size p"
  then have "unat i < length (workers p)" using * by (simp add: word_less_nat_alt)
  with assms have "shard_ok hash (pool_size p) m (of_nat (unat i)) (shard (workers p ! unat i))"
    unfolding pool_ok_def by blast
  then show "shard_ok hash (pool_size p) m i (shard (workers p ! unat i))" by simp
qed

lemma put_shard_fields [simp]:
  "length (workers (put_shard i s p)) = length (workers p)" "pool_size (put_shard i s p) = pool_size p"
  "started (put_shard i s p) = started p" "stopped (put_shard i s p) = stopped p"
  by (simp_all add: put_shard_def pool_size_def)

lemma shard_put_shard:
  "unat i < length (workers p) \<Longrightarrow> j < length (workers p) \<Longrightarrow>
    shard (workers (put_shard i s p) ! j) = (if j = unat i then s else shard (workers p ! j))"
  by (simp add: put_shard_def nth_list_update)

lemma put_shard_thread [simp]:
  "j < length (workers p) \<Longrightarrow> worker_thread (workers (put_shard i s p) ! j) = worker_thread (workers p ! j)"
  "j < length (workers p) \<Longrightarrow> io_stopped (workers (put_shard i s p) ! j) = io_stopped (workers p ! j)"
  by (cases "unat i < length (workers p)"; simp add: put_shard_def nth_list_update list_update_beyond)+

lemma same_threads_put_shard [simp]: "same_threads p (put_shard i s p)"
  by (cases "unat i < length (workers p)")
    (simp_all add: same_threads_def put_shard_def map_update list_update_same_conv list_update_beyond)

lemma same_threads_trans: "same_threads p q \<Longrightarrow> same_threads q r \<Longrightarrow> same_threads p r"
  by (simp add: same_threads_def)

lemma same_threads_refl [simp]: "same_threads p p"
  by (simp add: same_threads_def)

lemma same_threads_length: "same_threads p q \<Longrightarrow> length (workers q) = length (workers p)"
  unfolding same_threads_def by (metis length_map)

lemma same_threads_size: "same_threads p q \<Longrightarrow> pool_size q = pool_size p"
  by (simp add: pool_size_def same_threads_length)

lemma pool_ok_put_shard:
  assumes "pool_ok hash m p" and "i < pool_size p" and "shard_ok hash (pool_size p) m i s"
  shows "pool_ok hash m (put_shard i s p)"
proof -
  have "unat i < length (workers p)"
    using assms(2) pool_okD(1) [OF assms(1)] by (simp add: word_less_nat_alt)
  with assms show ?thesis by (auto simp: pool_ok_def shard_put_shard)
qed

lemma new_pool_ok: "pool_ok hash m (new_pool n m aff)"
proof -
  have "0 < unat (max 1 n)" using unat_gt_0 [of "max 1 n"] by (auto simp: max_def)
  moreover have "unat (max 1 n) < 2 ^ 64" using unat64_less by blast
  ultimately show ?thesis
    by (simp add: pool_ok_def new_pool_def new_worker_def shard_ok_def new_shard_wf)
      (simp add: new_shard_def)
qed

lemma pool_start_fields [simp]:
  "length (workers (pool_start nt p)) = length (workers p)"
  "i < length (workers p) \<Longrightarrow> shard (workers (pool_start nt p) ! i) = shard (workers p ! i)"
  by (simp_all add: pool_start_def nth_enumerate_eq)

lemma pool_start_ok: "pool_ok hash m p \<Longrightarrow> pool_ok hash m (pool_start nt p)"
  by (simp add: pool_ok_def pool_size_def)


lemma thread_begin_fields [simp]:
  "shard (thread_begin hw aff i w) = shard w" "io_stopped (thread_begin hw aff i w) = io_stopped w"
  by (simp_all add: thread_begin_defs split: std_thread.splits)

lemma thread_return_fields [simp]:
  "shard (thread_return w) = shard w" "io_stopped (thread_return w) = io_stopped w" "thread_id (thread_return w) = thread_id w"
  by (simp_all add: thread_return_def split: std_thread.splits)

lemma run_threads_fields [simp]:
  "length (workers (run_threads hw p)) = length (workers p)"
  "i < length (workers p) \<Longrightarrow> shard (workers (run_threads hw p) ! i) = shard (workers p ! i)"
  by (simp_all add: run_threads_def nth_enumerate_eq)

lemma run_threads_ok: "pool_ok hash m p \<Longrightarrow> pool_ok hash m (run_threads hw p)"
  by (simp add: pool_ok_def pool_size_def)

end
