(* ===== verification/Shard_Task.thy ===== *)
theory Shard_Task
  imports Shard_Pool
begin

section \<open>Coroutines that work on shards\<close>

text \<open>
  \<open>ShardPool::run_on_shard\<close> and \<open>ShardPool::local_shard\<close> of \<open>include/shardPool.hpp\<close> and
  \<open>src/shardPool.cpp\<close>. A coroutine that awaits work on a shard is a \<open>task\<close>: finished with a result,
  or suspended with a closure for the shard of some worker. The closure is given the clock readings
  made while it runs and the shard, and yields the rest of the coroutine and the new shard. This is
  the granularity at which the coroutines interleave: a closure runs to completion on its worker's
  thread. \<open>run_task\<close> runs one coroutine while no other one is active; the interleaving of many is
  the subject of \<open>Concurrent_Server\<close>.

  Tasks are finite trees that branch over the clock readings and the shards found. \<open>task_less\<close>, being
  what remains of a task after a closure, is a well-founded order: a command makes finitely many
  stops.
\<close>

subsection \<open>Work on a shard\<close>

type_synonym clock = "nat \<Rightarrow> time_point"

type_synonym 'a shard_fn = "clock \<Rightarrow> LruShard \<Rightarrow> ('a \<times> LruShard) option"

datatype 'r task =
    Finished 'r
  | OnShard size_t "clock \<Rightarrow> LruShard \<Rightarrow> ('r task \<times> LruShard) option"

text \<open>\<open>co_await run_on_shard(i, fn)\<close>, followed by the rest \<open>k\<close> of the coroutine.\<close>

definition run_on_shard :: "size_t \<Rightarrow> 'a shard_fn \<Rightarrow> ('a \<Rightarrow> 'r task) \<Rightarrow> 'r task" where
  "run_on_shard i fn k = OnShard i (\<lambda>clk s. map_option (\<lambda>(r, s'). (k r, s')) (fn clk s))"

text \<open>\<open>fn(local_shard(i))\<close>, which the code may only use on the worker's own thread. The call is synchronous; in the
  model the coroutine stops before it like before a posted closure. So in the running server other parties may go
  on between the two, which covers the code's schedule, in which none does on this worker.\<close>

definition local_shard ::
  "thread \<Rightarrow> ShardPool \<Rightarrow> size_t \<Rightarrow> 'a shard_fn \<Rightarrow> ('a \<Rightarrow> 'r task) \<Rightarrow> 'r task option" where
  "local_shard this_thread p i fn k =
     (case is_on_shard_thread this_thread i p of
        Some True \<Rightarrow> Some (OnShard i (\<lambda>clk s. map_option (\<lambda>(r, s'). (k r, s')) (fn clk s)))
      | _ \<Rightarrow> None)"

text \<open>A coroutine that runs alone. The readings of the clock are given per closure.\<close>

primrec run_task :: "'r task \<Rightarrow> (nat \<Rightarrow> clock) \<Rightarrow> ShardPool \<Rightarrow> ('r \<times> ShardPool) option" where
  "run_task (Finished r) = (\<lambda>clks p. Some (r, p))"
| "run_task (OnShard i f) = (\<lambda>clks p.
     case worker_at i p of
       None \<Rightarrow> None
     | Some w \<Rightarrow>
         (case map_option (map_prod run_task id) (f (clks 0) (shard w)) of
            None \<Rightarrow> None
          | Some (rest, s') \<Rightarrow> rest (\<lambda>j. clks (Suc j)) (put_shard i s' p)))"

subsection \<open>Coroutines that keep the invariant\<close>

text \<open>\<open>task_ok I n Q t\<close>: every closure of \<open>t\<close> is for one of \<open>n\<close> shards, returns on every shard that
  satisfies \<open>I\<close> and keeps \<open>I\<close>, whatever the shards look like when it gets to run, and the result
  satisfies \<open>Q\<close>. Because each closure is judged on every state that satisfies \<open>I\<close> alone, this is
  stable under whatever other coroutines do between two closures.\<close>

inductive task_ok :: "(size_t \<Rightarrow> LruShard \<Rightarrow> bool) \<Rightarrow> size_t \<Rightarrow> ('r \<Rightarrow> bool) \<Rightarrow> 'r task \<Rightarrow> bool"
  for I n Q where
  Finished: "Q r \<Longrightarrow> task_ok I n Q (Finished r)"
| OnShard: "i < n \<Longrightarrow>
    (\<And>clk s. I i s \<Longrightarrow> \<exists>t s'. f clk s = Some (t, s') \<and> I i s' \<and> task_ok I n Q t) \<Longrightarrow>
    task_ok I n Q (OnShard i f)"

inductive_cases task_ok_OnShard: "task_ok I n Q (OnShard i f)"
inductive_simps task_ok_Finished: "task_ok I n Q (Finished r)"

lemma task_ok_run:
  assumes "task_ok I n Q (OnShard i f)" and "I i s"
  shows "\<exists>t s'. f clk s = Some (t, s')"
    and "f clk s = Some (t, s') \<Longrightarrow> task_ok I n Q t \<and> I i s'"
proof -
  obtain t0 s0 where "f clk s = Some (t0, s0)" "task_ok I n Q t0" "I i s0"
    using assms by (blast elim: task_ok_OnShard)
  then show "\<exists>t s'. f clk s = Some (t, s')" "f clk s = Some (t, s') \<Longrightarrow> task_ok I n Q t \<and> I i s'"
    by auto
qed

lemma task_ok_mono:
  assumes "task_ok I n Q t" and "\<And>r. Q r \<Longrightarrow> Q' r"
  shows "task_ok I n Q' t"
  using assms(1)
proof induction
  case (OnShard i f)
  then show ?case by (intro task_ok.OnShard) blast+
qed (simp add: task_ok_Finished assms(2))

subsection \<open>A coroutine makes finitely many stops\<close>

definition task_less :: "('r task \<times> 'r task) set" where
  "task_less = {(t, u). \<exists>i f clk s s'. u = OnShard i f \<and> f clk s = Some (t, s')}"

lemma task_lessI: "f clk s = Some (t, s') \<Longrightarrow> (t, OnShard i f) \<in> task_less"
  unfolding task_less_def by blast

lemma wf_task_less: "wf task_less"
proof (rule wfUNIVI)
  fix P :: "'r task \<Rightarrow> bool" and t
  assume step: "\<forall>u. (\<forall>t. (t, u) \<in> task_less \<longrightarrow> P t) \<longrightarrow> P u"
  show "P t"
  proof (induction t)
    case (Finished r)
    then show ?case using step by (auto simp: task_less_def)
  next
    case (OnShard i f)
    have "P t" if sub: "(t, OnShard i f) \<in> task_less" for t
    proof -
      obtain clk s s' where f: "f clk s = Some (t, s')" using sub by (auto simp: task_less_def)
      show ?thesis by (rule OnShard [of "f clk" "f clk s" "(t, s')" t]) (use f in \<open>auto intro: rangeI [of "f clk" s, unfolded f]\<close>)
    qed
    then show ?case using step by blast
  qed
qed

subsection \<open>Closures\<close>

text \<open>A closure as the executor submits it.\<close>

definition fn_ok :: "(LruShard \<Rightarrow> bool) \<Rightarrow> ('a \<Rightarrow> bool) \<Rightarrow> 'a shard_fn \<Rightarrow> bool" where
  "fn_ok J R fn \<longleftrightarrow> (\<forall>clk s. J s \<longrightarrow> (\<exists>r s'. fn clk s = Some (r, s') \<and> J s' \<and> R r))"

lemma run_on_shard_ok:
  assumes "i < n" and "fn_ok (I i) R fn" and "\<And>r. R r \<Longrightarrow> task_ok I n Q (k r)"
  shows "task_ok I n Q (run_on_shard i fn k)"
  unfolding run_on_shard_def
proof (rule task_ok.OnShard [OF assms(1)])
  fix clk s
  assume "I i s"
  then obtain r s' where "fn clk s = Some (r, s')" "I i s'" "R r"
    using assms(2) unfolding fn_ok_def by blast
  with assms(3) show "\<exists>t s'. map_option (\<lambda>(r, s'). (k r, s')) (fn clk s) = Some (t, s') \<and> I i s' \<and> task_ok I n Q t"
    by auto
qed

lemma local_shard_eq:
  "is_on_shard_thread th i p = Some True \<Longrightarrow> local_shard th p i fn k = Some (run_on_shard i fn k)"
  by (simp add: local_shard_def run_on_shard_def)

lemma run_task_ok:
  assumes "task_ok (shard_ok hash n m) n Q t" and "pool_ok hash m p" and "pool_size p = n"
  shows "\<exists>r p'. run_task t clks p = Some (r, p') \<and> Q r \<and> pool_ok hash m p' \<and> same_threads p p'"
  using assms
proof (induction arbitrary: clks p rule: task_ok.induct)
  case (Finished r)
  then show ?case by simp
next
  case (OnShard i f)
  have i: "i < pool_size p" using OnShard.hyps OnShard.prems(2) by simp
  note at = pool_okD(3,4) [OF OnShard.prems(1) i]
  obtain t s' where t: "f (clks 0) (shard (workers p ! unat i)) = Some (t, s')"
      "shard_ok hash n m i s'"
      "\<forall>clks p. pool_ok hash m p \<longrightarrow> pool_size p = n \<longrightarrow>
        (\<exists>r p'. run_task t clks p = Some (r, p') \<and> Q r \<and> pool_ok hash m p' \<and> same_threads p p')"
    using OnShard.IH at(2) OnShard.prems(2) by blast
  let ?p = "put_shard i s' p"
  have "pool_ok hash m ?p"
    using pool_ok_put_shard [OF OnShard.prems(1) i] t(2) OnShard.prems(2) by simp
  with t(3) obtain r p' where "run_task t (\<lambda>j. clks (Suc j)) ?p = Some (r, p')" "Q r" "pool_ok hash m p'"
      "same_threads ?p p'"
    using OnShard.prems(2) put_shard_fields(2) [of i s' p] by metis
  with t(1) at(1) show ?case
    using same_threads_trans [OF same_threads_put_shard] by auto
qed

end
