(* ===== verification/Glob.thy ===== *)
theory Glob
  imports Prelude
begin

section \<open>Pattern matching for \<open>CONFIG GET\<close>\<close>

text \<open>
  \<open>glob_match\<close> of \<open>src/commandExecutor.cpp\<close>: a backtracking loop over indices into pattern and
  text. Its first loop goes back in the text whenever a mismatch follows a star, so it is a
  \<open>partial_function\<close> whose value \<open>None\<close> would mean that it runs forever; the inner option is the
  \<open>return false\<close> inside the loop. \<open>glob\<close> is the meaning of a pattern, by recursion over it. The
  main lemma shows that the loop ends and computes \<open>glob\<close> for every text without a star in it,
  which covers every text the program passes.
\<close>

partial_function (option) glob_loop ::
  "bytes \<Rightarrow> bytes \<Rightarrow> nat \<Rightarrow> nat \<Rightarrow> nat option \<Rightarrow> nat \<Rightarrow> nat option option" where
  "glob_loop pattern txt pattern_index text_index star_index star_text_match =
     (if text_index < length txt then
        if pattern_index < length pattern \<and>
           (pattern ! pattern_index = CHR ''?'' \<or> pattern ! pattern_index = txt ! text_index)
        then glob_loop pattern txt (pattern_index + 1) (text_index + 1) star_index star_text_match
        else if pattern_index < length pattern \<and> pattern ! pattern_index = CHR ''*''
        then glob_loop pattern txt (pattern_index + 1) text_index (Some pattern_index) text_index
        else (case star_index of
                Some star \<Rightarrow>
                  glob_loop pattern txt (star + 1) (star_text_match + 1) star_index (star_text_match + 1)
              | None \<Rightarrow> Some None)
      else Some (Some pattern_index))"

function skip_stars :: "bytes \<Rightarrow> nat \<Rightarrow> nat" where
  "skip_stars pattern pattern_index =
     (if pattern_index < length pattern \<and> pattern ! pattern_index = CHR ''*''
      then skip_stars pattern (pattern_index + 1) else pattern_index)"
  by pat_completeness auto
termination
  by (relation "measure (\<lambda>(pattern, pattern_index). length pattern - pattern_index)") auto

declare skip_stars.simps [simp del]

definition glob_match :: "bytes \<Rightarrow> bytes \<Rightarrow> bool option" where
  "glob_match pattern txt =
     map_option (\<lambda>r. case r of
         None \<Rightarrow> False
       | Some pattern_index \<Rightarrow> skip_stars pattern pattern_index = length pattern)
       (glob_loop pattern txt 0 0 None 0)"

subsection \<open>What a pattern means\<close>

fun glob :: "bytes \<Rightarrow> bytes \<Rightarrow> bool" where
  "glob [] t = (t = [])"
| "glob (p # ps) [] = (p = CHR ''*'' \<and> glob ps [])"
| "glob (p # ps) (c # cs) =
     (if p = CHR ''*'' then glob ps (c # cs) \<or> glob (p # ps) cs
      else (p = CHR ''?'' \<or> p = c) \<and> glob ps cs)"

text \<open>One pattern character, not a star, against one text character.\<close>

definition fits :: "char \<Rightarrow> char \<Rightarrow> bool" where
  "fits p c \<longleftrightarrow> p \<noteq> CHR ''*'' \<and> (p = CHR ''?'' \<or> p = c)"

lemma glob_star: "glob (CHR ''*'' # ps) t \<longleftrightarrow> (\<exists>u v. t = u @ v \<and> glob ps v)"
proof (induction t)
  case (Cons c cs)
  have "(\<exists>u v. c # cs = u @ v \<and> glob ps v) \<longleftrightarrow> glob ps (c # cs) \<or> (\<exists>u v. cs = u @ v \<and> glob ps v)"
    by (auto simp: Cons_eq_append_conv)
  with Cons show ?case by simp
qed simp

lemma glob_fits: "list_all2 fits seg tseg \<Longrightarrow> glob (seg @ ps) (tseg @ ts) = glob ps ts"
  by (induction seg tseg rule: list_all2_induct) (auto simp: fits_def)

lemma glob_segment:
  "list_all (\<lambda>p. p \<noteq> CHR ''*'') seg \<Longrightarrow> glob (seg @ ps) t \<Longrightarrow>
    \<exists>v w. t = v @ w \<and> length v = length seg \<and> glob ps w"
proof (induction seg arbitrary: t)
  case (Cons p seg)
  then obtain c cs where "t = c # cs" "glob (seg @ ps) cs" by (cases t) auto
  with Cons.IH [of cs] Cons.prems obtain v w where "cs = v @ w" "length v = length seg" "glob ps w"
    by (fastforce split: if_splits)
  then show ?case
    using \<open>t = c # cs\<close> by (intro exI [of _ "c # v"] exI [of _ w]) simp
qed simp

lemma fits_no_star: "list_all2 fits seg tseg \<Longrightarrow> list_all (\<lambda>p. p \<noteq> CHR ''*'') seg"
  by (induction seg tseg rule: list_all2_induct) (auto simp: fits_def)

text \<open>The three facts that make it enough to remember the last star: a matched segment up to the end
  of the text must match where it is, a new star makes the old one irrelevant, and a mismatch moves
  the text under the old star by one.\<close>

lemma glob_star_end:
  assumes "list_all2 fits seg tseg"
  shows "glob (CHR ''*'' # seg @ ps) tseg = glob ps []"
proof
  assume "glob (CHR ''*'' # seg @ ps) tseg"
  then obtain u v where uv: "tseg = u @ v" "glob (seg @ ps) v" by (auto simp: glob_star)
  with glob_segment [OF fits_no_star [OF assms]] obtain v1 w where
    "v = v1 @ w" "length v1 = length seg" "glob ps w" by blast
  with uv list_all2_lengthD [OF assms] show "glob ps []" by simp
next
  assume "glob ps []"
  with glob_fits [OF assms, of ps "[]"] show "glob (CHR ''*'' # seg @ ps) tseg"
    unfolding glob_star by (intro exI [of _ "[]"] exI [of _ tseg]) simp
qed

lemma glob_star_star:
  assumes "list_all2 fits seg tseg"
  shows "glob (CHR ''*'' # seg @ CHR ''*'' # ps) (tseg @ ts) = glob (CHR ''*'' # ps) ts"
proof
  assume "glob (CHR ''*'' # seg @ CHR ''*'' # ps) (tseg @ ts)"
  then obtain u v where uv: "tseg @ ts = u @ v" "glob (seg @ CHR ''*'' # ps) v" by (auto simp: glob_star)
  with glob_segment [OF fits_no_star [OF assms]] obtain v1 w where
    w: "v = v1 @ w" "length v1 = length tseg" "glob (CHR ''*'' # ps) w"
    using list_all2_lengthD [OF assms] by metis
  then obtain w1 w2 where "w = w1 @ w2" "glob ps w2" by (auto simp: glob_star)
  moreover have "ts = drop (length tseg) (u @ v1) @ w"
    using uv(1) w(1,2) by (metis append_assoc append_eq_conv_conj drop_append drop_eq_Nil le_add2 length_append diff_is_0_eq drop_0)
  ultimately show "glob (CHR ''*'' # ps) ts" unfolding glob_star by (metis append_assoc)
next
  assume "glob (CHR ''*'' # ps) ts"
  with glob_fits [OF assms, of "CHR ''*'' # ps" ts] show "glob (CHR ''*'' # seg @ CHR ''*'' # ps) (tseg @ ts)"
    using glob_star [of "seg @ CHR ''*'' # ps"] by (metis append_Nil)
qed

lemma glob_star_mismatch:
  assumes "list_all2 fits seg tseg" and "\<not> glob ps ts" and "tseg @ ts = c # cs"
  shows "glob (CHR ''*'' # seg @ ps) (tseg @ ts) = glob (CHR ''*'' # seg @ ps) cs"
  using glob_fits [OF assms(1), of ps ts] assms(2,3) by simp

subsection \<open>The loop computes it\<close>

lemma skip_stars_glob: "skip_stars P i = length P \<longleftrightarrow> i \<le> length P \<and> glob (drop i P) []"
proof (induction P i rule: skip_stars.induct)
  case (1 P i)
  show ?case
  proof (cases "i < length P \<and> P ! i = CHR ''*''")
    case True
    with 1 have "skip_stars P (i + 1) = length P \<longleftrightarrow> glob (drop (i + 1) P) []" by simp
    with True Cons_nth_drop_Suc [of i P] show ?thesis
      by (metis glob.simps(2) less_imp_le skip_stars.simps Suc_eq_plus1)
  next
    case False
    then have "skip_stars P i = i" by (auto simp: skip_stars.simps [of P i])
    moreover have "glob (drop i P) [] \<longleftrightarrow> length P \<le> i"
      using False Cons_nth_drop_Suc [of i P] by (cases "i < length P") (metis glob.simps(2) not_le, simp)
    ultimately show ?thesis by auto
  qed
qed

definition verdict :: "bytes \<Rightarrow> nat option \<Rightarrow> bool" where
  "verdict P r = (case r of None \<Rightarrow> False | Some i \<Rightarrow> skip_stars P i = length P)"

lemma glob_head_mismatch:
  assumes "\<not> (i < length P \<and> (P ! i = CHR ''?'' \<or> P ! i = c))" "\<not> (i < length P \<and> P ! i = CHR ''*'')"
  shows "\<not> glob (drop i P) (c # cs)"
  using assms Cons_nth_drop_Suc [of i P] by (cases "i < length P") (metis glob.simps(3), simp)

lemma drop_Cons_nth: "i < length xs \<Longrightarrow> drop i xs = xs ! i # drop (i + 1) xs"
  using Cons_nth_drop_Suc [of i xs] by simp

text \<open>Where the rest of the pattern cannot match, the star takes one more character.\<close>

lemma glob_star_advance:
  assumes "drop s P = CHR ''*'' # seg @ drop i P" and "drop m T = tseg @ drop j T" and "list_all2 fits seg tseg" and "m < length T"
    and "j < length T" and "\<not> (i < length P \<and> (P ! i = CHR ''?'' \<or> P ! i = T ! j))" and "\<not> (i < length P \<and> P ! i = CHR ''*'')"
  shows "glob (drop s P) (drop m T) = glob (drop s P) (drop (m + 1) T)"
proof -
  have "\<not> glob (drop i P) (drop j T)" unfolding drop_Cons_nth [OF assms(5)] by (rule glob_head_mismatch [OF assms(6,7)])
  from glob_star_mismatch [OF assms(3) this] show ?thesis
    unfolding assms(1) assms(2) [symmetric] using drop_Cons_nth [OF assms(4)] by blast
qed

lemma glob_loop_star:
  assumes no_star: "CHR ''*'' \<notin> set T"
  shows "drop s P = CHR ''*'' # seg @ drop i P \<Longrightarrow> drop m T = tseg @ drop j T \<Longrightarrow> list_all2 fits seg tseg \<Longrightarrow>
    i \<le> length P \<Longrightarrow> j \<le> length T \<Longrightarrow> m \<le> j \<Longrightarrow>
    map_option (verdict P) (glob_loop P T i j (Some s) m) = Some (glob (drop s P) (drop m T))"
proof (induction "(s, m, j)" arbitrary: i j s m seg tseg
    rule: wf_induct_rule [OF wf_measures [of "[\<lambda>(s, m, j). length P - s, \<lambda>(s, m, j). length T - m, \<lambda>(s, m, j). length T - j]"]])
  case (1 j s m i seg tseg)
  note IH = "1.hyps" and st = "1.prems"
  have s: "s < length P" "i = s + 1 + length seg"
    using arg_cong [OF st(1), of length] st(4) by simp_all
  show ?case
  proof (cases "j < length T")
    case False
    then have "glob (drop s P) (drop m T) = glob (drop i P) []"
      using st(1-3,5) glob_star_end [of seg tseg "drop i P"] by simp
    with False st(4) show ?thesis
      by (subst glob_loop.simps) (simp add: verdict_def skip_stars_glob)
  next
    case True
    note T = drop_Cons_nth [OF True]
    consider (fit) "i < length P \<and> (P ! i = CHR ''?'' \<or> P ! i = T ! j)"
      | (star) "\<not> (i < length P \<and> (P ! i = CHR ''?'' \<or> P ! i = T ! j))" "i < length P" "P ! i = CHR ''*''"
      | (mismatch) "\<not> (i < length P \<and> (P ! i = CHR ''?'' \<or> P ! i = T ! j))" "\<not> (i < length P \<and> P ! i = CHR ''*'')"
      by blast
    then show ?thesis
    proof cases
      case fit
      have "fits (P ! i) (T ! j)" using fit no_star nth_mem [OF True] by (auto simp: fits_def)
      then have ext: "list_all2 fits (seg @ [P ! i]) (tseg @ [T ! j])"
        using st(3) by (simp add: list_all2_appendI)
      have "map_option (verdict P) (glob_loop P T (i + 1) (j + 1) (Some s) m) = Some (glob (drop s P) (drop m T))"
        by (rule IH [OF _ _ _ ext]) (use True fit st T drop_Cons_nth [of i P] in \<open>auto simp: in_measures\<close>)
      with True fit show ?thesis by (subst glob_loop.simps) simp
    next
      case star
      have P: "drop i P = CHR ''*'' # drop (i + 1) P" using star drop_Cons_nth [of i P] by simp
      have "map_option (verdict P) (glob_loop P T (i + 1) j (Some i) j) = Some (glob (drop i P) (drop j T))"
        by (rule IH [where seg = "[]" and tseg = "[]"]) (use True star P s in \<open>auto simp: in_measures\<close>)
      moreover have "glob (drop s P) (drop m T) = glob (drop i P) (drop j T)"
        unfolding st(1,2) P by (rule glob_star_star [OF st(3)])
      ultimately show ?thesis using True star by (subst glob_loop.simps) simp
    next
      case mismatch
      have m: "m < length T" using True st(6) by simp
      have "map_option (verdict P) (glob_loop P T (s + 1) (m + 1) (Some s) (m + 1)) =
          Some (glob (drop s P) (drop (m + 1) T))"
        by (rule IH [where seg = "[]" and tseg = "[]"])
          (use m s drop_Cons_nth [OF s(1)] st(1) in \<open>auto simp: in_measures\<close>)
      with glob_star_advance [OF st(1-3) m True mismatch] show ?thesis using True mismatch by (subst glob_loop.simps) auto
    qed
  qed
qed

lemma glob_loop_start:
  assumes no_star: "CHR ''*'' \<notin> set T"
  shows "i \<le> length P \<Longrightarrow> j \<le> length T \<Longrightarrow>
    map_option (verdict P) (glob_loop P T i j None m) = Some (glob (drop i P) (drop j T))"
proof (induction "length T - j" arbitrary: i j rule: less_induct)
  case less
  show ?case
  proof (cases "j < length T")
    case False
    with less.prems show ?thesis
      by (subst glob_loop.simps) (simp add: verdict_def skip_stars_glob)
  next
    case True
    note T = drop_Cons_nth [OF True]
    have "T ! j \<noteq> CHR ''*''" using no_star True by (metis nth_mem)
    then consider (fit) "i < length P" "P ! i = CHR ''?'' \<or> P ! i = T ! j" "P ! i \<noteq> CHR ''*''"
      | (star) "\<not> (i < length P \<and> (P ! i = CHR ''?'' \<or> P ! i = T ! j))" "i < length P" "P ! i = CHR ''*''"
      | (mismatch) "\<not> (i < length P \<and> (P ! i = CHR ''?'' \<or> P ! i = T ! j))" "\<not> (i < length P \<and> P ! i = CHR ''*'')"
      by fastforce
    then show ?thesis
    proof cases
      case fit
      then have "glob (drop i P) (drop j T) = glob (drop (i + 1) P) (drop (j + 1) T)"
        unfolding T drop_Cons_nth [OF fit(1)] by auto
      with less.hyps [of "j + 1" "i + 1"] fit True show ?thesis by (subst glob_loop.simps) simp
    next
      case star
      then have "map_option (verdict P) (glob_loop P T (i + 1) j (Some i) j) = Some (glob (drop i P) (drop j T))"
        using True drop_Cons_nth [of i P]
        by (intro glob_loop_star [OF no_star, where seg = "[]" and tseg = "[]"]) auto
      with star True show ?thesis by (subst glob_loop.simps) simp
    next
      case mismatch
      with True glob_head_mismatch [OF mismatch] show ?thesis
        unfolding T by (subst glob_loop.simps) (auto simp: verdict_def)
    qed
  qed
qed

lemma glob_match_glob: "CHR ''*'' \<notin> set T \<Longrightarrow> glob_match P T = Some (glob P T)"
  using glob_loop_start [of T 0 P 0 0] unfolding glob_match_def verdict_def by simp

text \<open>C31: \<open>glob_match\<close> terminates and decides the pattern language (\<open>?\<close> for one character, \<open>*\<close> for any
  number, every other character for itself) on every text that contains no star.\<close>

theorem glob_match_correct:
  assumes "CHR ''*'' \<notin> set txt"
  shows "glob_match pattern txt = Some (glob pattern txt)"
  using assms by (rule glob_match_glob)

theorem glob_match_correct_witness:
  "glob_match ''a*n?*y'' ''appendonly'' = Some True"
  using glob_match_correct [of "''appendonly''" "''a*n?*y''"] by simp

text \<open>The hypothesis is needed: the loop compares characters before it looks for a star, so a star of
  the pattern can be used up by a star of the text.\<close>

lemma glob_match_star_in_text: "glob_match ''*'' ''*a'' = Some False" "glob ''*'' ''*a''"
proof -
  show "glob_match ''*'' ''*a'' = Some False"
    unfolding glob_match_def
    by (subst glob_loop.simps, simp, subst glob_loop.simps, simp)
qed simp

end
