(* ===== verification/Resp_Value.thy ===== *)
theory Resp_Value
  imports Prelude
begin

section \<open>RESP values\<close>

text \<open>
  \<open>include/respValue.hpp\<close>. A \<open>RespValue\<close> is a type tag next to a \<open>std::variant\<close>; nothing in
  the C++ type keeps the two in step. The model therefore has the same shape: a tag and a
  variant, with \<open>std::get\<close> as a partial accessor whose \<open>None\<close> is \<open>std::bad_variant_access\<close>.
  \<open>well_typed\<close> is the agreement between the tag and the alternative that the serializer and
  the command decoder rely on; the parser and the executor are shown to establish it.
\<close>

datatype Type =
    Type_kUnknown
  | Type_kSimpleString
  | Type_kError
  | Type_kInteger
  | Type_kBulkString
  | Type_kNullBulkString
  | Type_kArray
  | Type_kNullArray

datatype 'a variant = VString bytes | VInt int64 | VArray "'a list"

datatype RespValue = RespValue (value_type: Type) (value_data: "RespValue variant")

definition default_value :: RespValue where
  "default_value = RespValue Type_kUnknown (VString [])"

fun get_string :: "RespValue \<Rightarrow> bytes option" where
  "get_string (RespValue t (VString s)) = Some s"
| "get_string _ = None"

fun get_int64 :: "RespValue \<Rightarrow> int64 option" where
  "get_int64 (RespValue t (VInt i)) = Some i"
| "get_int64 _ = None"

fun get_array :: "RespValue \<Rightarrow> RespValue list option" where
  "get_array (RespValue t (VArray xs)) = Some xs"
| "get_array _ = None"

fun well_typed :: "RespValue \<Rightarrow> bool" where
  "well_typed (RespValue t (VString s)) = (t \<noteq> Type_kInteger \<and> t \<noteq> Type_kArray)"
| "well_typed (RespValue t (VInt i)) =
     (t \<notin> {Type_kSimpleString, Type_kError, Type_kBulkString, Type_kArray})"
| "well_typed (RespValue t (VArray xs)) =
     (t \<notin> {Type_kSimpleString, Type_kError, Type_kBulkString, Type_kInteger} \<and>
      (t = Type_kArray \<longrightarrow> (\<forall>x \<in> set xs. well_typed x)))"

text \<open>Values as the protocol has them: one abbreviation per RESP2 kind.\<close>

abbreviation SimpleString :: "bytes \<Rightarrow> RespValue" where
  "SimpleString s \<equiv> RespValue Type_kSimpleString (VString s)"

abbreviation ErrorValue :: "bytes \<Rightarrow> RespValue" where
  "ErrorValue s \<equiv> RespValue Type_kError (VString s)"

abbreviation IntegerValue :: "int64 \<Rightarrow> RespValue" where
  "IntegerValue i \<equiv> RespValue Type_kInteger (VInt i)"

abbreviation BulkString :: "bytes \<Rightarrow> RespValue" where
  "BulkString s \<equiv> RespValue Type_kBulkString (VString s)"

abbreviation NullBulkString :: RespValue where
  "NullBulkString \<equiv> RespValue Type_kNullBulkString (VString [])"

abbreviation ArrayValue :: "RespValue list \<Rightarrow> RespValue" where
  "ArrayValue xs \<equiv> RespValue Type_kArray (VArray xs)"

abbreviation NullArray :: RespValue where
  "NullArray \<equiv> RespValue Type_kNullArray (VString [])"

text \<open>Induction over a value: the elements of an array are smaller values.\<close>

lemma RespValue_induct [case_names String Int Array]:
  assumes "\<And>t s. P (RespValue t (VString s))"
    and "\<And>t i. P (RespValue t (VInt i))"
    and "\<And>t xs. (\<And>x. x \<in> set xs \<Longrightarrow> P x) \<Longrightarrow> P (RespValue t (VArray xs))"
  shows "P v"
proof (induction v)
  case (RespValue t d)
  then show ?case by (cases d) (auto intro: assms)
qed

lemma RespValue_cases [case_names String Int Array]:
  obtains (String) t s where "v = RespValue t (VString s)"
  | (Int) t i where "v = RespValue t (VInt i)"
  | (Array) t xs where "v = RespValue t (VArray xs)"
proof -
  obtain t d where v: "v = RespValue t d" by (cases v)
  then show thesis by (cases d) (auto intro: that)
qed

end
