(* ===== verification/Command_Decode.thy ===== *)
theory Command_Decode
  imports Resp_Value
begin

section \<open>From RESP values to commands\<close>

text \<open>
  \<open>include/command.hpp\<close> and \<open>src/command.cpp\<close>: the table of supported commands, the argument
  counts they take, and \<open>Command::toCommand\<close>. The result of \<open>toCommand\<close> is an option of an option:
  the inner one is the \<open>std::optional\<close> the code returns, and an outer \<open>None\<close> is an exception
  (\<open>std::get\<close> on the wrong alternative) or undefined behaviour (dereferencing \<open>kSpecs.end()\<close>).
  The lemmas show that neither happens for a value whose tags and data agree, which commands are
  accepted, and how many arguments an accepted command has.
\<close>

subsection \<open>The command table\<close>

datatype CommandType =
    Cmd_kUnknown
  | Cmd_kPing
  | Cmd_kCommand
  | Cmd_kGet
  | Cmd_kSet
  | Cmd_kDel
  | Cmd_kExpire
  | Cmd_kTtl
  | Cmd_kInfo
  | Cmd_kConfig

record Command =
  cmd_type :: CommandType
  cmd_args :: "bytes list"

record CommandDefinition =
  def_type :: CommandType
  def_name :: bytes
  def_arity :: int

definition kCommands :: "CommandDefinition list" where
  "kCommands =
     [\<lparr>def_type = Cmd_kPing, def_name = ''PING'', def_arity = 1\<rparr>,
      \<lparr>def_type = Cmd_kCommand, def_name = ''COMMAND'', def_arity = -1\<rparr>,
      \<lparr>def_type = Cmd_kGet, def_name = ''GET'', def_arity = 2\<rparr>,
      \<lparr>def_type = Cmd_kSet, def_name = ''SET'', def_arity = -3\<rparr>,
      \<lparr>def_type = Cmd_kDel, def_name = ''DEL'', def_arity = -2\<rparr>,
      \<lparr>def_type = Cmd_kExpire, def_name = ''EXPIRE'', def_arity = 3\<rparr>,
      \<lparr>def_type = Cmd_kTtl, def_name = ''TTL'', def_arity = 2\<rparr>,
      \<lparr>def_type = Cmd_kInfo, def_name = ''INFO'', def_arity = -1\<rparr>,
      \<lparr>def_type = Cmd_kConfig, def_name = ''CONFIG'', def_arity = -2\<rparr>]"

definition determineCommandType :: "bytes \<Rightarrow> CommandType" where
  "determineCommandType type_sv =
     (if type_sv = ''GET'' then Cmd_kGet
      else if type_sv = ''SET'' then Cmd_kSet
      else if type_sv = ''DEL'' then Cmd_kDel
      else if type_sv = ''EXPIRE'' then Cmd_kExpire
      else if type_sv = ''TTL'' then Cmd_kTtl
      else if type_sv = ''INFO'' then Cmd_kInfo
      else if type_sv = ''PING'' then Cmd_kPing
      else if type_sv = ''COMMAND'' then Cmd_kCommand
      else if type_sv = ''CONFIG'' then Cmd_kConfig
      else Cmd_kUnknown)"

record CommandSpec =
  minArgs :: nat
  maxArgs :: nat

definition kMaxArgs :: nat where "kMaxArgs = 10"

fun kSpecs :: "CommandType \<Rightarrow> CommandSpec option" where
  "kSpecs Cmd_kGet = Some \<lparr>minArgs = 1, maxArgs = 1\<rparr>"
| "kSpecs Cmd_kSet = Some \<lparr>minArgs = 2, maxArgs = 4\<rparr>"
| "kSpecs Cmd_kDel = Some \<lparr>minArgs = 1, maxArgs = kMaxArgs\<rparr>"
| "kSpecs Cmd_kExpire = Some \<lparr>minArgs = 2, maxArgs = 2\<rparr>"
| "kSpecs Cmd_kTtl = Some \<lparr>minArgs = 1, maxArgs = 1\<rparr>"
| "kSpecs Cmd_kInfo = Some \<lparr>minArgs = 0, maxArgs = 1\<rparr>"
| "kSpecs Cmd_kPing = Some \<lparr>minArgs = 0, maxArgs = 1\<rparr>"
| "kSpecs Cmd_kCommand = Some \<lparr>minArgs = 0, maxArgs = kMaxArgs\<rparr>"
| "kSpecs Cmd_kConfig = Some \<lparr>minArgs = 2, maxArgs = 2\<rparr>"
| "kSpecs Cmd_kUnknown = None"

definition validateArgs :: "CommandType \<Rightarrow> nat \<Rightarrow> bool option" where
  "validateArgs type argc =
     (case kSpecs type of
        None \<Rightarrow> None
      | Some command_spec \<Rightarrow> Some (minArgs command_spec \<le> argc \<and> argc \<le> maxArgs command_spec))"

subsection \<open>Decoding a request\<close>

definition is_string_type :: "RespValue \<Rightarrow> bool" where
  "is_string_type v \<longleftrightarrow> value_type v = Type_kBulkString \<or> value_type v = Type_kSimpleString"

fun collect_args :: "bytes list \<Rightarrow> RespValue list \<Rightarrow> bytes list option option" where
  "collect_args args [] = Some (Some args)"
| "collect_args args (v # vs) =
     (if \<not> is_string_type v then Some None
      else do { s \<leftarrow> get_string v; collect_args (args @ [s]) vs })"

definition toCommand :: "RespValue \<Rightarrow> Command option option" where
  "toCommand value =
     (if value_type value \<noteq> Type_kArray then Some None
      else do {
        arr \<leftarrow> get_array value;
        case arr of
          [] \<Rightarrow> Some None
        | first # rest \<Rightarrow>
            if \<not> is_string_type first then Some None
            else do {
              type_str \<leftarrow> get_string first;
              let type = determineCommandType (to_uppercase type_str);
              if type = Cmd_kUnknown then Some None
              else do {
                valid \<leftarrow> validateArgs type (length arr - 1);
                if \<not> valid then Some None
                else do {
                  args \<leftarrow> collect_args [] rest;
                  Some (map_option (\<lambda>args. \<lparr>cmd_type = type, cmd_args = args\<rparr>) args)
                }
              }
            }
      })"

text \<open>The argument counts of the table as a predicate on commands.\<close>

definition valid_command :: "Command \<Rightarrow> bool" where
  "valid_command cmd \<longleftrightarrow>
     (case kSpecs (cmd_type cmd) of
        None \<Rightarrow> False
      | Some sp \<Rightarrow> minArgs sp \<le> length (cmd_args cmd) \<and> length (cmd_args cmd) \<le> maxArgs sp)"

subsection \<open>Lemmas\<close>

lemma kSpecs_None_iff: "kSpecs t = None \<longleftrightarrow> t = Cmd_kUnknown"
  by (cases t) auto

lemma string_type_get: "well_typed v \<Longrightarrow> is_string_type v \<Longrightarrow> \<exists>s. get_string v = Some s"
  by (cases v rule: RespValue_cases) (auto simp: is_string_type_def)

lemma collect_args_eq:
  assumes "\<And>v. v \<in> set vs \<Longrightarrow> well_typed v"
  shows "collect_args args vs =
    Some (if \<forall>v \<in> set vs. is_string_type v then Some (args @ map (the \<circ> get_string) vs) else None)"
  using assms
proof (induction vs arbitrary: args)
  case (Cons v vs)
  show ?case
  proof (cases "is_string_type v")
    case True
    with Cons.prems string_type_get obtain s where "get_string v = Some s" by fastforce
    with True Cons show ?thesis by simp
  qed simp
qed simp

text \<open>What a request means, on values whose tags and data agree.\<close>

definition request :: "RespValue list \<Rightarrow> Command option" where
  "request vs =
     (case vs of
        [] \<Rightarrow> None
      | v # rest \<Rightarrow>
          let cmd = \<lparr>cmd_type = determineCommandType (to_uppercase (the (get_string v))),
                     cmd_args = map (the \<circ> get_string) rest\<rparr>
          in if (\<forall>x \<in> set vs. is_string_type x) \<and> valid_command cmd then Some cmd else None)"

lemma toCommand_array:
  assumes "\<And>v. v \<in> set vs \<Longrightarrow> well_typed v"
  shows "toCommand (ArrayValue vs) = Some (request vs)"
proof (cases vs)
  case Nil
  then show ?thesis by (simp add: toCommand_def request_def)
next
  case (Cons v rest)
  let ?t = "determineCommandType (to_uppercase (the (get_string v)))"
  show ?thesis
  proof (cases "is_string_type v")
    case False
    with Cons show ?thesis by (simp add: toCommand_def request_def)
  next
    case True
    then obtain s where s: "get_string v = Some s"
      using assms [of v] string_type_get [of v] Cons by auto
    have "collect_args [] rest =
        Some (if \<forall>v \<in> set rest. is_string_type v then Some (map (the \<circ> get_string) rest) else None)"
      using assms Cons by (subst collect_args_eq) auto
    with True s Cons show ?thesis
      by (cases "kSpecs ?t")
        (auto simp: toCommand_def request_def validateArgs_def valid_command_def kSpecs_None_iff Let_def)
  qed
qed

lemma toCommand_not_array: "value_type v \<noteq> Type_kArray \<Longrightarrow> toCommand v = Some None"
  by (simp add: toCommand_def)

lemma request_valid: "request vs = Some cmd \<Longrightarrow> valid_command cmd"
  by (auto simp: request_def Let_def split: list.splits if_splits)

lemma toCommand_valid:
  assumes "well_typed v" and "toCommand v = Some (Some cmd)"
  shows "valid_command cmd"
proof (cases "value_type v = Type_kArray")
  case True
  then obtain vs where "v = ArrayValue vs"
    using assms(1) by (cases v rule: RespValue_cases) auto
  with assms show ?thesis by (auto simp: toCommand_array dest: request_valid)
qed (use assms in \<open>simp add: toCommand_not_array\<close>)

lemma valid_command_args:
  "valid_command cmd \<Longrightarrow> cmd_type cmd \<noteq> Cmd_kUnknown"
  "valid_command cmd \<Longrightarrow> cmd_type cmd \<in> {Cmd_kGet, Cmd_kDel, Cmd_kTtl, Cmd_kSet, Cmd_kExpire, Cmd_kConfig} \<Longrightarrow>
     1 \<le> length (cmd_args cmd)"
  "valid_command cmd \<Longrightarrow> cmd_type cmd \<in> {Cmd_kSet, Cmd_kExpire, Cmd_kConfig} \<Longrightarrow> 2 \<le> length (cmd_args cmd)"
  by (auto simp: valid_command_def split: option.splits)

lemma well_typed_arrayD: "well_typed v \<Longrightarrow> value_type v = Type_kArray \<Longrightarrow>
    \<exists>vs. v = ArrayValue vs \<and> (\<forall>x \<in> set vs. well_typed x)"
  by (cases v rule: RespValue_cases) auto

subsection \<open>Properties\<close>

text \<open>C23: On every value the parser can produce, \<open>Command::toCommand\<close> returns (no
  \<open>bad_variant_access\<close>, no lookup past the end of \<open>kSpecs\<close>), and it accepts exactly the non-empty
  arrays of bulk or simple strings whose first string names a known command in any case and whose
  remaining strings, which become the arguments in order, are as many as that command takes.\<close>

theorem toCommand_exact:
  assumes "well_typed v"
  shows "\<exists>r. toCommand v = Some r \<and>
    (\<forall>cmd. r = Some cmd \<longleftrightarrow>
       valid_command cmd \<and>
       (\<exists>x xs. v = ArrayValue (x # xs) \<and> list_all is_string_type (x # xs) \<and>
          (\<exists>name. get_string x = Some name \<and> cmd_type cmd = determineCommandType (to_uppercase name)) \<and>
          map get_string xs = map Some (cmd_args cmd)))"
proof (cases "value_type v = Type_kArray")
  case False
  then show ?thesis by (auto simp: toCommand_not_array)
next
  case True
  then obtain vs where vs: "v = ArrayValue vs" "\<forall>x \<in> set vs. well_typed x"
    using well_typed_arrayD [OF assms] by blast
  have get: "is_string_type x \<Longrightarrow> x \<in> set vs \<Longrightarrow> get_string x = Some (the (get_string x))" for x
    using vs(2) string_type_get by fastforce
  have args: "map get_string xs = map Some as \<longleftrightarrow> as = map (the \<circ> get_string) xs"
    if "list_all is_string_type xs" and "set xs \<subseteq> set vs" for xs as
    using that get by (induction xs arbitrary: as) (auto simp: Cons_eq_map_conv)
  have "request vs = Some cmd \<longleftrightarrow> valid_command cmd \<and> (\<exists>x xs. vs = x # xs \<and> list_all is_string_type (x # xs) \<and>
      (\<exists>name. get_string x = Some name \<and> cmd_type cmd = determineCommandType (to_uppercase name)) \<and>
      map get_string xs = map Some (cmd_args cmd))" for cmd
  proof (cases vs)
    case (Cons x xs)
    show ?thesis
    proof (cases "list_all is_string_type (x # xs)")
      case True
      then have "get_string x = Some (the (get_string x))" using get Cons by simp
      moreover have "map get_string xs = map Some as \<longleftrightarrow> as = map (the \<circ> get_string) xs" for as
        using args [of xs as] True Cons by auto
      ultimately show ?thesis
        using True Cons by (cases cmd) (auto simp: request_def Let_def list_all_iff)
    qed (auto simp: request_def Let_def list_all_iff Cons)
  qed (simp add: request_def)
  with vs show ?thesis by (simp add: toCommand_array)
qed

theorem toCommand_exact_witness:
  "\<exists>r. toCommand (ArrayValue [BulkString ''gEt'', SimpleString ''key'']) = Some r \<and>
    r = Some \<lparr>cmd_type = Cmd_kGet, cmd_args = [''key'']\<rparr>"
proof -
  let ?v = "ArrayValue [BulkString ''gEt'', SimpleString ''key'']"
  have up: "to_uppercase ''gEt'' = ''GET''" by code_simp
  obtain r where r: "toCommand ?v = Some r"
      "r = Some cmd \<longleftrightarrow> valid_command cmd \<and> (\<exists>x xs. ?v = ArrayValue (x # xs) \<and> list_all is_string_type (x # xs) \<and>
          (\<exists>name. get_string x = Some name \<and> cmd_type cmd = determineCommandType (to_uppercase name)) \<and>
          map get_string xs = map Some (cmd_args cmd))" for cmd
    using toCommand_exact [of ?v] by auto
  with r(2) [of "\<lparr>cmd_type = Cmd_kGet, cmd_args = [''key'']\<rparr>"] show ?thesis
    by (simp add: is_string_type_def valid_command_def determineCommandType_def up)
qed

text \<open>A client that sends the name of a supported command, in any case, and as many arguments as the
  command takes, all as bulk strings, gets exactly this command with exactly these arguments.\<close>

theorem toCommand_request:
  assumes "d \<in> set kCommands" and "to_uppercase name = def_name d"
    and "valid_command \<lparr>cmd_type = def_type d, cmd_args = args\<rparr>"
  shows "toCommand (ArrayValue (map BulkString (name # args))) =
    Some (Some \<lparr>cmd_type = def_type d, cmd_args = args\<rparr>)"
proof -
  have "determineCommandType (def_name d) = def_type d"
    using assms(1) by (auto simp: kCommands_def determineCommandType_def)
  moreover have "map ((the \<circ> get_string) \<circ> BulkString) args = args" by (induction args) simp_all
  ultimately show ?thesis
    using assms by (subst toCommand_array)
      (auto simp: request_def is_string_type_def)
qed

theorem toCommand_request_witness:
  "toCommand (ArrayValue (map BulkString [''set'', ''k'', ''v'', ''ex'', ''10''])) =
    Some (Some \<lparr>cmd_type = Cmd_kSet, cmd_args = [''k'', ''v'', ''ex'', ''10'']\<rparr>)"
proof -
  have up: "to_uppercase ''set'' = ''SET''" by code_simp
  from toCommand_request [of "\<lparr>def_type = Cmd_kSet, def_name = ''SET'', def_arity = -3\<rparr>" "''set''"
      "[''k'', ''v'', ''ex'', ''10'']"] show ?thesis
    by (simp add: kCommands_def valid_command_def up)
qed

text \<open>The arity that \<open>COMMAND\<close> advertises counts the command name: for every command with a fixed
  arity except \<open>PING\<close>, exactly the requests with that many strings are accepted. \<open>PING\<close> is advertised
  with arity one, but a request with an argument is accepted too.\<close>

theorem advertised_arity:
  "(\<forall>d n. d \<in> set kCommands \<and> 0 < def_arity d \<and> def_type d \<noteq> Cmd_kPing \<longrightarrow>
      validateArgs (def_type d) n = Some (int n + 1 = def_arity d)) \<and>
   (\<exists>d \<in> set kCommands. def_type d = Cmd_kPing \<and> def_arity d = 1 \<and>
      validateArgs (def_type d) 0 = Some True \<and> validateArgs (def_type d) 1 = Some True)"
  by (auto simp: kCommands_def validateArgs_def)

theorem advertised_arity_witness:
  "validateArgs Cmd_kExpire 2 = Some True \<and> validateArgs Cmd_kExpire 1 = Some False"
proof -
  let ?d = "\<lparr>def_type = Cmd_kExpire, def_name = ''EXPIRE'', def_arity = 3\<rparr>"
  have "?d \<in> set kCommands \<and> 0 < def_arity ?d \<and> def_type ?d \<noteq> Cmd_kPing" by (simp add: kCommands_def)
  then have "validateArgs (def_type ?d) n = Some (int n + 1 = def_arity ?d)" for n
    using advertised_arity by blast
  from this [of 2] this [of 1] show ?thesis by simp
qed

end
