(* ===== verification/Command_Executor.thy ===== *)
theory Command_Executor
  imports Shard_Task Glob Command_Decode
begin

section \<open>Executing commands\<close>

text \<open>
  \<open>include/commandExecutor.hpp\<close> and \<open>src/commandExecutor.cpp\<close>. The functions that work on one shard
  are closures in the sense of \<open>Shard_Pool\<close>: they are given the clock readings made while they run,
  in order. Executing a command gives a task: the coroutine with its suspensions at
  \<open>run_on_shard\<close>. An access past the end of \<open>cmd.args\<close> and a failed \<open>assert\<close> are \<open>None\<close>; the
  exceptions of \<open>std::stoull\<close>, which the code catches, are the value \<open>None\<close> of \<open>stoull\<close>.

  The code upper-cases some arguments of the command in place; the command is not used again
  afterwards, so the model only computes the upper-cased strings.
\<close>

subsection \<open>Reading numbers\<close>

text \<open>\<open>std::stoull\<close> in base ten: leading white space, an optional sign and the longest run of digits
  are read, the rest is ignored; a minus sign negates modulo \<open>2 ^ 64\<close>. \<open>None\<close> is
  \<open>std::invalid_argument\<close> (no digits) or \<open>std::out_of_range\<close>.\<close>

definition is_space :: "char \<Rightarrow> bool" where
  "is_space c \<longleftrightarrow> (let n = of_char c :: nat in n = 32 \<or> 9 \<le> n \<and> n \<le> 13)"

definition split_sign :: "bytes \<Rightarrow> bool \<times> bytes" where
  "split_sign s =
     (case s of
        [] \<Rightarrow> (False, [])
      | c # cs \<Rightarrow> if c = CHR ''-'' then (True, cs) else if c = CHR ''+'' then (False, cs) else (False, s))"

definition stoull :: "bytes \<Rightarrow> uint64 option" where
  "stoull s =
     (let (negative, digits) = split_sign (dropWhile is_space s);
          ds = takeWhile is_digit digits;
          n = dec_value ds
      in if ds = [] \<or> n \<ge> 2 ^ 64 then None
         else Some (if negative then - of_nat n else of_nat n))"

subsection \<open>Commands on one shard\<close>

definition arg :: "Command \<Rightarrow> nat \<Rightarrow> bytes option" where
  "arg cmd i = (if i < length (cmd_args cmd) then Some (cmd_args cmd ! i) else None)"

definition processGetCommand :: "Command \<Rightarrow> RespValue shard_fn" where
  "processGetCommand cmd clk s = do {
     key \<leftarrow> arg cmd 0;
     (result, s) \<leftarrow> lru_get key (clk 0) s;
     Some (case result of Some v \<Rightarrow> BulkString v | None \<Rightarrow> NullBulkString, s)
   }"

text \<open>The common end of \<open>processSetCommand\<close>: store and answer \<open>OK\<close>.\<close>

definition store_value :: "Command \<Rightarrow> bytes \<Rightarrow> size_t option \<Rightarrow> time_point \<Rightarrow> LruShard \<Rightarrow>
    (RespValue \<times> LruShard) option" where
  "store_value cmd key expire_seconds now s = do {
     v \<leftarrow> arg cmd 1;
     s \<leftarrow> lru_set key v expire_seconds now s;
     Some (SimpleString ''OK'', s)
   }"

definition processSetCommand :: "Command \<Rightarrow> RespValue shard_fn" where
  "processSetCommand cmd clk s = do {
     key \<leftarrow> arg cmd 0;
     if length (cmd_args cmd) = 3 then do {
       opt \<leftarrow> map_option to_uppercase (arg cmd 2);
       if opt = ''NX'' then do {
         (found, s) \<leftarrow> lru_get key (clk 0) s;
         if found \<noteq> None then Some (NullBulkString, s)
         else store_value cmd key None (clk 1) s
       } else if opt = ''XX'' then do {
         (found, s) \<leftarrow> lru_get key (clk 0) s;
         if found = None then Some (NullBulkString, s)
         else store_value cmd key None (clk 1) s
       } else Some (ErrorValue ''ERR syntax error'', s)
     } else if length (cmd_args cmd) = 4 then do {
       expire_option \<leftarrow> map_option to_uppercase (arg cmd 2);
       if expire_option = ''EX'' then do {
         text \<leftarrow> arg cmd 3;
         case stoull text of
           None \<Rightarrow> Some (ErrorValue ''ERR value is not an integer or out of range'', s)
         | Some n \<Rightarrow> store_value cmd key (Some n) (clk 0) s
       } else Some (ErrorValue ''ERR syntax error'', s)
     } else store_value cmd key None (clk 0) s
   }"

fun del_keys :: "bytes list \<Rightarrow> int64 \<Rightarrow> LruShard \<Rightarrow> (int64 \<times> LruShard) option" where
  "del_keys [] deleted_count s = Some (deleted_count, s)"
| "del_keys (key # keys) deleted_count s =
     (case lru_del key s of
        None \<Rightarrow> None
      | Some (existed, s') \<Rightarrow> del_keys keys (if existed then deleted_count + 1 else deleted_count) s')"

definition processDelKeys :: "bytes list \<Rightarrow> int64 shard_fn" where
  "processDelKeys keys clk s = del_keys keys 0 s"

definition processExpireCommand :: "Command \<Rightarrow> RespValue shard_fn" where
  "processExpireCommand cmd clk s = do {
     text \<leftarrow> arg cmd 1;
     case stoull text of
       None \<Rightarrow> Some (ErrorValue ''ERR value is not an integer or out of range'', s)
     | Some seconds \<Rightarrow> do {
         key \<leftarrow> arg cmd 0;
         (result, s) \<leftarrow> lru_expire key seconds (clk 0) s;
         Some (IntegerValue (if result then 1 else 0), s)
       }
   }"

definition processTtlCommand :: "Command \<Rightarrow> RespValue shard_fn" where
  "processTtlCommand cmd clk s = do {
     key \<leftarrow> arg cmd 0;
     (ttl_value, s) \<leftarrow> lru_ttl key (clk 0) (clk 1) s;
     Some (IntegerValue ttl_value, s)
   }"

subsection \<open>Commands that need no shard\<close>

definition processPingCommand :: "Command \<Rightarrow> RespValue" where
  "processPingCommand cmd =
     BulkString (case cmd_args cmd of [message] \<Rightarrow> message | _ \<Rightarrow> ''PONG'')"

definition command_info :: "CommandDefinition \<Rightarrow> RespValue" where
  "command_info d = ArrayValue [BulkString (def_name d), IntegerValue (word_of_int (def_arity d))]"

fun command_infos :: "bytes list \<Rightarrow> RespValue list" where
  "command_infos [] = []"
| "command_infos (name # names) =
     (case find (\<lambda>d. def_name d = to_uppercase name) kCommands of
        Some d \<Rightarrow> command_info d # command_infos names
      | None \<Rightarrow> command_infos names)"

definition processCommandCommand :: "Command \<Rightarrow> RespValue" where
  "processCommandCommand cmd =
     (case cmd_args cmd of
        [] \<Rightarrow> ArrayValue (map command_info kCommands)
      | subcommand # names \<Rightarrow>
          if to_uppercase subcommand = ''INFO'' then ArrayValue (command_infos names)
          else if to_uppercase subcommand = ''COUNT'' then IntegerValue (of_nat (length kCommands))
          else ErrorValue ''Unknown subcommand'')"

definition kSupportedConfigValues :: "(bytes \<times> bytes) list" where
  "kSupportedConfigValues = [(''save'', ''''), (''appendonly'', ''no'')]"

fun config_matches :: "bytes \<Rightarrow> (bytes \<times> bytes) list \<Rightarrow> RespValue list option" where
  "config_matches pattern [] = Some []"
| "config_matches pattern ((name, v) # rest) = do {
     matched \<leftarrow> glob_match pattern name;
     result \<leftarrow> config_matches pattern rest;
     Some (if matched then BulkString name # BulkString v # result else result)
   }"

definition processConfigCommand :: "Command \<Rightarrow> RespValue option" where
  "processConfigCommand cmd = do {
     subcommand \<leftarrow> arg cmd 0;
     if to_uppercase subcommand \<noteq> ''GET'' then Some (ErrorValue ''Unknown subcommand'')
     else do {
       pattern \<leftarrow> arg cmd 1;
       result \<leftarrow> config_matches (to_lowercase pattern) kSupportedConfigValues;
       Some (ArrayValue result)
     }
   }"

definition processUnknownCommand :: RespValue where
  "processUnknownCommand = ErrorValue ''ERR unknown command''"

subsection \<open>\<open>INFO\<close>: all shards in turn\<close>

definition add_stats :: "Stats \<Rightarrow> Stats \<Rightarrow> Stats" where
  "add_stats acc st =
     \<lparr>stat_used_payload_bytes = stat_used_payload_bytes acc + stat_used_payload_bytes st,
      stat_key_count = stat_key_count acc + stat_key_count st,
      stat_evictions = stat_evictions acc + stat_evictions st,
      stat_expired = stat_expired acc + stat_expired st,
      stat_max_memory_bytes = stat_max_memory_bytes acc + stat_max_memory_bytes st\<rparr>"

definition zero_stats :: Stats where
  "zero_stats = \<lparr>stat_used_payload_bytes = 0, stat_key_count = 0, stat_evictions = 0, stat_expired = 0,
     stat_max_memory_bytes = 0\<rparr>"

definition info_line :: "bytes \<Rightarrow> 64 word \<Rightarrow> bytes" where
  "info_line name n = name @ '':'' @ nat_digits (unat n) @ crlf"

definition info_text :: "Stats \<Rightarrow> bytes" where
  "info_text st =
     ''# Memory'' @ crlf @
     info_line ''used_bytes'' (stat_used_payload_bytes st) @
     info_line ''keys'' (stat_key_count st) @
     info_line ''evictions'' (stat_evictions st) @
     info_line ''expired'' (stat_expired st) @
     info_line ''max_memory_bytes'' (stat_max_memory_bytes st) @
     ''memory_model:payload_bytes'' @ crlf"

fun info_loop :: "size_t list \<Rightarrow> Stats \<Rightarrow> RespValue task" where
  "info_loop [] acc = Finished (BulkString (info_text acc))"
| "info_loop (i # is) acc =
     run_on_shard i (\<lambda>clk s. Some (get_stats s, s)) (\<lambda>st. info_loop is (add_stats acc st))"

definition processInfoCommand :: "Command \<Rightarrow> ShardPool \<Rightarrow> RespValue task" where
  "processInfoCommand cmd p =
     (let sec = (case cmd_args cmd of [] \<Rightarrow> ''DEFAULT'' | name # _ \<Rightarrow> to_uppercase name) in
      if sec \<noteq> ''DEFAULT'' \<and> sec \<noteq> ''MEMORY'' \<and> sec \<noteq> ''ALL''
      then Finished (ErrorValue ''ERR unsupported INFO section'')
      else info_loop (map of_nat [0..<unat (pool_size p)]) zero_stats)"

subsection \<open>Dispatch\<close>

text \<open>On the thread of the shard the code calls the closure directly, otherwise it posts it.\<close>

definition on_shard ::
  "bool \<Rightarrow> thread \<Rightarrow> ShardPool \<Rightarrow> size_t \<Rightarrow> 'a shard_fn \<Rightarrow> ('a \<Rightarrow> 'r task) \<Rightarrow> 'r task option" where
  "on_shard is_local this_thread p i fn k =
     (if is_local then local_shard this_thread p i fn k else Some (run_on_shard i fn k))"

definition reply_count :: "int64 \<Rightarrow> RespValue task" where
  "reply_count deleted_count = Finished (IntegerValue deleted_count)"

definition execute_single_shard ::
  "thread \<Rightarrow> ShardPool \<Rightarrow> Command \<Rightarrow> size_t option \<Rightarrow> RespValue task option" where
  "execute_single_shard this_thread p cmd home_shard = do {
     can_use_local \<leftarrow> (if home_shard = Some 0 then is_on_shard_thread this_thread 0 p else Some False);
     case cmd_type cmd of
       Cmd_kGet \<Rightarrow> on_shard can_use_local this_thread p 0 (processGetCommand cmd) Finished
     | Cmd_kSet \<Rightarrow> on_shard can_use_local this_thread p 0 (processSetCommand cmd) Finished
     | Cmd_kDel \<Rightarrow> on_shard can_use_local this_thread p 0 (processDelKeys (cmd_args cmd)) reply_count
     | Cmd_kExpire \<Rightarrow> on_shard can_use_local this_thread p 0 (processExpireCommand cmd) Finished
     | Cmd_kTtl \<Rightarrow> on_shard can_use_local this_thread p 0 (processTtlCommand cmd) Finished
     | Cmd_kInfo \<Rightarrow> Some (processInfoCommand cmd p)
     | Cmd_kPing \<Rightarrow> Some (Finished (processPingCommand cmd))
     | Cmd_kCommand \<Rightarrow> Some (Finished (processCommandCommand cmd))
     | Cmd_kConfig \<Rightarrow> map_option Finished (processConfigCommand cmd)
     | Cmd_kUnknown \<Rightarrow> Some (Finished processUnknownCommand)
   }"

text \<open>\<open>DEL\<close> over several shards: the keys grouped by shard, then one closure per group.\<close>

fun group_keys :: "(bytes \<Rightarrow> uint64) \<Rightarrow> size_t \<Rightarrow> bytes list \<Rightarrow> bytes list list \<Rightarrow> bytes list list option" where
  "group_keys hash n [] keys_by_shard = Some keys_by_shard"
| "group_keys hash n (key # keys) keys_by_shard =
     (case getShardIndex hash key n of
        None \<Rightarrow> None
      | Some i \<Rightarrow>
          if unat i < length keys_by_shard
          then group_keys hash n keys (keys_by_shard[unat i := keys_by_shard ! unat i @ [key]])
          else None)"

fun del_remote :: "nat \<Rightarrow> bytes list list \<Rightarrow> int64 \<Rightarrow> RespValue task" where
  "del_remote i [] deleted_count = reply_count deleted_count"
| "del_remote i (keys # rest) deleted_count =
     (if keys = [] then del_remote (Suc i) rest deleted_count
      else run_on_shard (of_nat i) (processDelKeys keys)
             (\<lambda>count. del_remote (Suc i) rest (deleted_count + count)))"

definition del_grouped ::
  "thread \<Rightarrow> ShardPool \<Rightarrow> size_t option \<Rightarrow> bytes list list \<Rightarrow> RespValue task option" where
  "del_grouped this_thread p local_index keys_by_shard =
     (case local_index of
        None \<Rightarrow> Some (del_remote 0 keys_by_shard 0)
      | Some h \<Rightarrow>
          if unat h \<ge> length keys_by_shard then None
          else if keys_by_shard ! unat h = [] then Some (del_remote 0 keys_by_shard 0)
          else local_shard this_thread p h (processDelKeys (keys_by_shard ! unat h))
                 (\<lambda>count. del_remote 0 (keys_by_shard[unat h := []]) count))"

definition execute_multi_shard ::
  "(bytes \<Rightarrow> uint64) \<Rightarrow> thread \<Rightarrow> ShardPool \<Rightarrow> Command \<Rightarrow> size_t option \<Rightarrow> RespValue task option" where
  "execute_multi_shard hash this_thread p cmd home_shard = do {
     let shard_count = pool_size p;
     can_use_local \<leftarrow> (case home_shard of None \<Rightarrow> Some False | Some h \<Rightarrow> is_on_shard_thread this_thread h p);
     let is_local = (\<lambda>i. can_use_local \<and> Some i = home_shard);
     let routed = (\<lambda>fn. do {
       key \<leftarrow> arg cmd 0;
       i \<leftarrow> getShardIndex hash key shard_count;
       on_shard (is_local i) this_thread p i fn Finished
     });
     case cmd_type cmd of
       Cmd_kGet \<Rightarrow> routed (processGetCommand cmd)
     | Cmd_kSet \<Rightarrow> routed (processSetCommand cmd)
     | Cmd_kDel \<Rightarrow> do {
         keys_by_shard \<leftarrow> group_keys hash shard_count (cmd_args cmd) (replicate (unat shard_count) []);
         del_grouped this_thread p (if can_use_local then home_shard else None) keys_by_shard
       }
     | Cmd_kExpire \<Rightarrow> routed (processExpireCommand cmd)
     | Cmd_kTtl \<Rightarrow> routed (processTtlCommand cmd)
     | Cmd_kInfo \<Rightarrow> Some (processInfoCommand cmd p)
     | Cmd_kPing \<Rightarrow> Some (Finished (processPingCommand cmd))
     | Cmd_kCommand \<Rightarrow> Some (Finished (processCommandCommand cmd))
     | Cmd_kConfig \<Rightarrow> map_option Finished (processConfigCommand cmd)
     | Cmd_kUnknown \<Rightarrow> Some (Finished processUnknownCommand)
   }"

text \<open>The executor picks its variant when it is constructed and keeps it. \<open>execute\<close> is a command given to
  an executor that was constructed for the pool.\<close>

datatype ExecuteImpl = Impl_single_shard | Impl_multi_shard

record CommandExecutor =
  execute_impl :: ExecuteImpl

definition new_executor :: "ShardPool \<Rightarrow> CommandExecutor" where
  "new_executor p = \<lparr>execute_impl = (if pool_size p = 1 then Impl_single_shard else Impl_multi_shard)\<rparr>"

definition executor_execute ::
  "(bytes \<Rightarrow> uint64) \<Rightarrow> CommandExecutor \<Rightarrow> thread \<Rightarrow> ShardPool \<Rightarrow> Command \<Rightarrow> size_t option \<Rightarrow> RespValue task option" where
  "executor_execute hash executor this_thread p cmd home_shard =
     (case execute_impl executor of
        Impl_single_shard \<Rightarrow> execute_single_shard this_thread p cmd home_shard
      | Impl_multi_shard \<Rightarrow> execute_multi_shard hash this_thread p cmd home_shard)"

definition execute ::
  "(bytes \<Rightarrow> uint64) \<Rightarrow> thread \<Rightarrow> ShardPool \<Rightarrow> Command \<Rightarrow> size_t option \<Rightarrow> RespValue task option" where
  "execute hash this_thread p cmd home_shard = executor_execute hash (new_executor p) this_thread p cmd home_shard"

lemma execute_eq:
  "execute hash this_thread p cmd home_shard =
     (if pool_size p = 1 then execute_single_shard this_thread p cmd home_shard
      else execute_multi_shard hash this_thread p cmd home_shard)"
  by (simp add: execute_def executor_execute_def new_executor_def)

lemma new_executor_size: "pool_size p = pool_size q \<Longrightarrow> new_executor p = new_executor q"
  by (simp add: new_executor_def)

subsection \<open>Every closure keeps the shard's invariant\<close>

lemma shard_ok_keys:
  "shard_ok hash n m i s \<longleftrightarrow> wf_shard s \<and> max_memory_bytes s = m \<and>
    (\<forall>k \<in> fst ` set (entries s). getShardIndex hash k n = Some i)"
  by (simp add: shard_ok_def)

lemma shard_ok_shrink:
  assumes "shard_ok hash n m i s" "wf_shard s'" "same_limits s s'"
    "fst ` set (entries s') \<subseteq> fst ` set (entries s)"
  shows "shard_ok hash n m i s'"
proof -
  have "\<forall>k \<in> fst ` set (entries s'). getShardIndex hash k n = Some i"
    using assms(1) subsetD [OF assms(4)] unfolding shard_ok_keys by blast
  moreover have "max_memory_bytes s' = m"
    using assms(1,3) by (simp add: shard_ok_def same_limits_def)
  ultimately show ?thesis using assms(2) by (simp add: shard_ok_keys)
qed

lemma spec_keys:
  "fst ` set (snd (spec_get k now es)) \<subseteq> fst ` set es"
  "fst ` set (snd (spec_del k es)) \<subseteq> fst ` set es"
  "fst ` set (snd (spec_expire k t es)) = fst ` set es"
  "fst ` set (snd (spec_ttl k now now2 es)) \<subseteq> fst ` set es"
  "fst ` set (spec_purge now es) \<subseteq> fst ` set es"
  "fst ` set (spec_set b k v d es) \<subseteq> insert k (fst ` set es)"
proof -
  show "fst ` set (snd (spec_get k now es)) \<subseteq> fst ` set es"
    using drop_key_keys [of k es]
    by (auto simp: spec_get_def split: option.splits prod.splits dest!: map_of_SomeD) force
  show "fst ` set (snd (spec_expire k t es)) = fst ` set es"
    unfolding spec_expire_def by (simp flip: set_map)
  show "fst ` set (spec_set b k v d es) \<subseteq> insert k (fst ` set es)"
    using image_mono [OF keep_recent_set, of fst b "(k, v, d) # drop_key k es"] drop_key_keys [of k es]
    by (auto simp: spec_set_def)
qed (auto simp: spec_del_def spec_ttl_def spec_purge_def drop_key_def Let_def split: option.splits prod.splits)

lemma get_ok:
  assumes "shard_ok hash n m i s"
  shows "\<exists>s'. lru_get k now s = Some (fst (spec_get k now (entries s)), s') \<and> shard_ok hash n m i s' \<and>
    entries s' = snd (spec_get k now (entries s))"
  using assms lru_get_refines [of s k now] shard_ok_shrink [OF assms] spec_keys(1) [of k now "entries s"]
  unfolding shard_ok_def by metis

lemma del_ok:
  assumes "shard_ok hash n m i s"
  shows "\<exists>s'. lru_del k s = Some (fst (spec_del k (entries s)), s') \<and> shard_ok hash n m i s' \<and>
    entries s' = snd (spec_del k (entries s))"
  using assms lru_del_refines [of s k] shard_ok_shrink [OF assms] spec_keys(2) [of k "entries s"]
  unfolding shard_ok_def by metis

lemma expire_ok:
  assumes "shard_ok hash n m i s"
  shows "\<exists>s'. lru_expire k secs now s = Some (fst (spec_expire k (deadline now secs) (entries s)), s') \<and>
    shard_ok hash n m i s' \<and> entries s' = snd (spec_expire k (deadline now secs) (entries s))"
  using assms lru_expire_refines [of s k secs now] shard_ok_shrink [OF assms]
    spec_keys(3) [of k "deadline now secs" "entries s"]
  unfolding shard_ok_def by (metis order_refl)

lemma ttl_ok:
  assumes "shard_ok hash n m i s"
  shows "\<exists>s'. lru_ttl k now1 now2 s = Some (fst (spec_ttl k now1 now2 (entries s)), s') \<and>
    shard_ok hash n m i s' \<and> entries s' = snd (spec_ttl k now1 now2 (entries s))"
  using assms lru_ttl_refines [of s k now1 now2] shard_ok_shrink [OF assms]
    spec_keys(4) [of k now1 now2 "entries s"]
  unfolding shard_ok_def by metis

lemma purge_ok:
  assumes "shard_ok hash n m i s"
  shows "\<exists>s'. remove_expired_keys now s = Some s' \<and> shard_ok hash n m i s' \<and>
    entries s' = spec_purge now (entries s)"
  using assms remove_expired_keys_refines [of s now] shard_ok_shrink [OF assms]
    spec_keys(5) [of now "entries s"]
  unfolding shard_ok_def by metis

lemma set_ok:
  assumes "shard_ok hash n m i s" and "unat m + length k + length v < 2 ^ 64"
    and "getShardIndex hash k n = Some i"
  shows "\<exists>s'. lru_set k v secs now s = Some s' \<and> shard_ok hash n m i s' \<and>
    entries s' = spec_set (unat m) k v (map_option (deadline now) secs) (entries s)"
proof -
  have s: "wf_shard s" "max_memory_bytes s = m" using assms(1) by (simp_all add: shard_ok_def)
  then obtain s' where s': "lru_set k v secs now s = Some s'" "wf_shard s'" "same_limits s s'"
      "entries s' = spec_set (unat m) k v (map_option (deadline now) secs) (entries s)"
    using lru_set_refines [OF s(1), of k v secs now] assms(2) by auto
  have "fst ` set (entries s') \<subseteq> insert k (fst ` set (entries s))"
    unfolding s'(4) by (rule spec_keys(6))
  then have "\<forall>k' \<in> fst ` set (entries s'). getShardIndex hash k' n = Some i"
    using assms(1,3) unfolding shard_ok_keys by blast
  with s' s(2) show ?thesis by (simp add: shard_ok_keys same_limits_def)
qed

subsection \<open>What the commands on one key mean\<close>

text \<open>The commands on the abstract view of the shard their key lives in: reply and new view.\<close>

definition spec_set_command :: "nat \<Rightarrow> bytes list \<Rightarrow> clock \<Rightarrow> entry list \<Rightarrow> RespValue \<times> entry list" where
  "spec_set_command b args clk es =
     (case args of
        [k, v] \<Rightarrow> (SimpleString ''OK'', spec_set b k v None es)
      | [k, v, opt] \<Rightarrow>
          (if to_uppercase opt \<noteq> ''NX'' \<and> to_uppercase opt \<noteq> ''XX'' then (ErrorValue ''ERR syntax error'', es)
           else if (fst (spec_get k (clk 0) es) = None) = (to_uppercase opt = ''NX'')
           then (SimpleString ''OK'', spec_set b k v None es)
           else (NullBulkString, snd (spec_get k (clk 0) es)))
      | [k, v, opt, n] \<Rightarrow>
          (if to_uppercase opt \<noteq> ''EX'' then (ErrorValue ''ERR syntax error'', es)
           else case stoull n of
               None \<Rightarrow> (ErrorValue ''ERR value is not an integer or out of range'', es)
             | Some secs \<Rightarrow> (SimpleString ''OK'', spec_set b k v (Some (deadline (clk 0) secs)) es))
      | _ \<Rightarrow> (ErrorValue [], es))"

definition spec_expire_command :: "bytes list \<Rightarrow> clock \<Rightarrow> entry list \<Rightarrow> RespValue \<times> entry list" where
  "spec_expire_command args clk es =
     (case args of
        [k, n] \<Rightarrow>
          (case stoull n of
             None \<Rightarrow> (ErrorValue ''ERR value is not an integer or out of range'', es)
           | Some secs \<Rightarrow> (IntegerValue (if k \<in> fst ` set es then 1 else 0),
                            snd (spec_expire k (deadline (clk 0) secs) es)))
      | _ \<Rightarrow> (ErrorValue [], es))"

definition spec_keyed :: "nat \<Rightarrow> Command \<Rightarrow> clock \<Rightarrow> entry list \<Rightarrow> RespValue \<times> entry list" where
  "spec_keyed b cmd clk es =
     (let k = hd (cmd_args cmd) in
      case cmd_type cmd of
        Cmd_kGet \<Rightarrow> (case fst (spec_get k (clk 0) es) of Some v \<Rightarrow> BulkString v | None \<Rightarrow> NullBulkString,
                      snd (spec_get k (clk 0) es))
      | Cmd_kSet \<Rightarrow> spec_set_command b (cmd_args cmd) clk es
      | Cmd_kExpire \<Rightarrow> spec_expire_command (cmd_args cmd) clk es
      | Cmd_kTtl \<Rightarrow> (IntegerValue (fst (spec_ttl k (clk 0) (clk 1) es)), snd (spec_ttl k (clk 0) (clk 1) es))
      | _ \<Rightarrow> (ErrorValue [], es))"

definition keyed :: "Command \<Rightarrow> bool" where
  "keyed cmd \<longleftrightarrow> cmd_type cmd \<in> {Cmd_kGet, Cmd_kSet, Cmd_kExpire, Cmd_kTtl}"

text \<open>The closure that the executor runs for such a command.\<close>

definition keyed_fn :: "Command \<Rightarrow> RespValue shard_fn" where
  "keyed_fn cmd =
     (case cmd_type cmd of
        Cmd_kGet \<Rightarrow> processGetCommand cmd
      | Cmd_kSet \<Rightarrow> processSetCommand cmd
      | Cmd_kExpire \<Rightarrow> processExpireCommand cmd
      | _ \<Rightarrow> processTtlCommand cmd)"

text \<open>The sizes of key and value do not overflow the byte counter of a shard with budget \<open>m\<close>.\<close>

definition cmd_fits :: "size_t \<Rightarrow> Command \<Rightarrow> bool" where
  "cmd_fits m cmd \<longleftrightarrow>
     (case cmd_args cmd of k # v # _ \<Rightarrow> unat m + length k + length v < 2 ^ 64 | _ \<Rightarrow> True)"

lemma drop_key_twice [simp]: "drop_key k (drop_key k es) = drop_key k es"
  by (simp add: drop_key_def)

lemma drop_key_Cons_same [simp]: "drop_key k ((k, e) # es) = drop_key k es"
  by (simp add: drop_key_def)

lemma spec_set_after_get: "spec_set b k v d (snd (spec_get k now es)) = spec_set b k v d es"
  by (simp add: spec_set_def spec_get_def split: option.splits prod.splits)

text \<open>The argument counts as shapes of the argument list.\<close>

lemma valid_shapes:
  assumes "valid_command cmd"
  shows "cmd_type cmd = Cmd_kGet \<Longrightarrow> \<exists>k. cmd_args cmd = [k]"
    and "cmd_type cmd = Cmd_kTtl \<Longrightarrow> \<exists>k. cmd_args cmd = [k]"
    and "cmd_type cmd = Cmd_kExpire \<Longrightarrow> \<exists>k n. cmd_args cmd = [k, n]"
    and "cmd_type cmd = Cmd_kConfig \<Longrightarrow> \<exists>sub pat. cmd_args cmd = [sub, pat]"
    and "cmd_type cmd = Cmd_kSet \<Longrightarrow> (\<exists>k v. cmd_args cmd = [k, v]) \<or> (\<exists>k v opt. cmd_args cmd = [k, v, opt]) \<or>
      (\<exists>k v opt n. cmd_args cmd = [k, v, opt, n])"
  using assms
  by (auto simp: valid_command_def le_Suc_eq length_Suc_conv numeral_eq_Suc Suc_le_length_iff)

lemma processGet_refines:
  assumes "shard_ok hash n m i s" and "cmd_type cmd = Cmd_kGet" and "cmd_args cmd = [k]"
  shows "\<exists>s'. processGetCommand cmd clk s = Some (fst (spec_keyed b cmd clk (entries s)), s') \<and>
    shard_ok hash n m i s' \<and> entries s' = snd (spec_keyed b cmd clk (entries s))"
  using get_ok [OF assms(1), of k "clk 0"] assms(2,3)
  by (auto simp: processGetCommand_def arg_def spec_keyed_def)

lemma processTtl_refines:
  assumes "shard_ok hash n m i s" and "cmd_type cmd = Cmd_kTtl" and "cmd_args cmd = [k]"
  shows "\<exists>s'. processTtlCommand cmd clk s = Some (fst (spec_keyed b cmd clk (entries s)), s') \<and>
    shard_ok hash n m i s' \<and> entries s' = snd (spec_keyed b cmd clk (entries s))"
  using ttl_ok [OF assms(1), of k "clk 0" "clk 1"] assms(2,3)
  by (auto simp: processTtlCommand_def arg_def spec_keyed_def)

lemma processExpire_refines:
  assumes "shard_ok hash n m i s" and "cmd_type cmd = Cmd_kExpire" and "cmd_args cmd = [k, d]"
  shows "\<exists>s'. processExpireCommand cmd clk s = Some (fst (spec_keyed b cmd clk (entries s)), s') \<and>
    shard_ok hash n m i s' \<and> entries s' = snd (spec_keyed b cmd clk (entries s))"
proof (cases "stoull d")
  case None
  with assms show ?thesis
    by (simp add: processExpireCommand_def arg_def spec_keyed_def spec_expire_command_def)
next
  case (Some secs)
  obtain s' where "lru_expire k secs (clk 0) s = Some (k \<in> fst ` set (entries s), s')" "shard_ok hash n m i s'"
      "entries s' = snd (spec_expire k (deadline (clk 0) secs) (entries s))"
    using expire_ok [OF assms(1), of k secs "clk 0"] by (auto simp only: spec_expire_def fst_conv snd_conv)
  with Some assms(2,3) show ?thesis
    by (simp add: processExpireCommand_def arg_def spec_keyed_def spec_expire_command_def del: image_iff)
qed

lemma store_value_ok:
  assumes "shard_ok hash n m i s" and "cmd_args cmd = k # v # rest" and "cmd_fits m cmd"
    and "getShardIndex hash k n = Some i"
  shows "\<exists>s'. store_value cmd k secs now s = Some (SimpleString ''OK'', s') \<and> shard_ok hash n m i s' \<and>
    entries s' = spec_set (unat m) k v (map_option (deadline now) secs) (entries s)"
  using set_ok [OF assms(1) _ assms(4), of v secs now] assms(2,3)
  by (auto simp: store_value_def arg_def cmd_fits_def)

lemma processSet_refines:
  assumes ok: "shard_ok hash n m i s" and cmd: "cmd_type cmd = Cmd_kSet" "valid_command cmd" "cmd_fits m cmd"
    and route: "getShardIndex hash (hd (cmd_args cmd)) n = Some i"
  shows "\<exists>s'. processSetCommand cmd clk s = Some (fst (spec_keyed (unat m) cmd clk (entries s)), s') \<and>
    shard_ok hash n m i s' \<and> entries s' = snd (spec_keyed (unat m) cmd clk (entries s))"
  using valid_shapes(5) [OF cmd(2,1)]
proof (elim disjE exE)
  fix k v
  assume a: "cmd_args cmd = [k, v]"
  with store_value_ok [OF ok a cmd(3), of None "clk 0"] route cmd(1) show ?thesis
    by (auto simp: processSetCommand_def arg_def spec_keyed_def spec_set_command_def)
next
  fix k v opt
  assume a: "cmd_args cmd = [k, v, opt]"
  obtain s1 where s1: "lru_get k (clk 0) s = Some (fst (spec_get k (clk 0) (entries s)), s1)"
      "shard_ok hash n m i s1" "entries s1 = snd (spec_get k (clk 0) (entries s))"
    using get_ok [OF ok] by blast
  with store_value_ok [OF s1(2) a cmd(3), of None "clk 1"] ok route cmd(1) a show ?thesis
    by (auto simp: processSetCommand_def arg_def spec_keyed_def spec_set_command_def spec_set_after_get)
next
  fix k v opt d
  assume a: "cmd_args cmd = [k, v, opt, d]"
  show ?thesis
  proof (cases "to_uppercase opt = ''EX''")
    case False
    with ok cmd(1) a show ?thesis
      by (simp add: processSetCommand_def arg_def spec_keyed_def spec_set_command_def)
  next
    case True
    with store_value_ok [OF ok a cmd(3), of "Some (the (stoull d))" "clk 0"] ok route cmd(1) a show ?thesis
      by (cases "stoull d") (auto simp: processSetCommand_def arg_def spec_keyed_def spec_set_command_def numeral_eq_Suc)
  qed
qed

lemma keyed_fn_refines:
  assumes "shard_ok hash n m i s" and "keyed cmd" "valid_command cmd" "cmd_fits m cmd"
    and "getShardIndex hash (hd (cmd_args cmd)) n = Some i"
  shows "\<exists>s'. keyed_fn cmd clk s = Some (fst (spec_keyed (unat m) cmd clk (entries s)), s') \<and>
    shard_ok hash n m i s' \<and> entries s' = snd (spec_keyed (unat m) cmd clk (entries s))"
  using assms(2) processSet_refines [OF assms(1) _ assms(3,4,5)] processGet_refines [OF assms(1)]
    processTtl_refines [OF assms(1)] processExpire_refines [OF assms(1)] valid_shapes(1,2,3) [OF assms(3)]
  by (auto simp: keyed_def keyed_fn_def)

subsection \<open>Deleting keys\<close>

definition entry_keys :: "entry list \<Rightarrow> bytes set" where
  "entry_keys es = fst ` set es"

definition drop_keys :: "bytes set \<Rightarrow> entry list \<Rightarrow> entry list" where
  "drop_keys ks es = filter (\<lambda>e. fst e \<notin> ks) es"

lemma drop_keys_simps [simp]:
  "drop_keys {} es = es" "drop_keys ks (drop_key k es) = drop_keys (insert k ks) es"
  "drop_keys ks (drop_keys ks' es) = drop_keys (ks \<union> ks') es"
  by (auto simp: drop_keys_def drop_key_def filter_filter intro: filter_cong)

lemma entry_keys_drop [simp]:
  "entry_keys (drop_key k es) = entry_keys es - {k}" "entry_keys (drop_keys ks es) = entry_keys es - ks"
  by (auto simp: entry_keys_def drop_keys_def)

lemma card_deleted_Cons:
  "card (insert k (set ks) \<inter> A) = (if k \<in> A then 1 else 0) + card (set ks \<inter> (A - {k}))"
proof -
  have "insert k (set ks) \<inter> A = (if k \<in> A then {k} else {}) \<union> (set ks \<inter> (A - {k}))" by auto
  moreover have "card \<dots> = card (if k \<in> A then {k} else {}) + card (set ks \<inter> (A - {k}))"
    by (rule card_Un_disjoint) auto
  ultimately show ?thesis by simp
qed

lemma del_keys_refines:
  assumes "shard_ok hash n m i s"
  shows "\<exists>s'. del_keys ks c s = Some (c + of_nat (card (set ks \<inter> entry_keys (entries s))), s') \<and>
    shard_ok hash n m i s' \<and> entries s' = drop_keys (set ks) (entries s)"
  using assms
proof (induction ks arbitrary: c s)
  case (Cons k ks)
  obtain s1 where s1: "lru_del k s = Some (k \<in> entry_keys (entries s), s1)" "shard_ok hash n m i s1"
      "entries s1 = drop_key k (entries s)"
    using del_ok [OF Cons.prems, of k] by (auto simp: spec_del_def entry_keys_def)
  let ?c = "if k \<in> entry_keys (entries s) then c + 1 else c"
  obtain s2 where "del_keys ks ?c s1 = Some (?c + of_nat (card (set ks \<inter> entry_keys (entries s1))), s2)"
      "shard_ok hash n m i s2" "entries s2 = drop_keys (set ks) (entries s1)"
    using Cons.IH [OF s1(2)] by blast
  moreover have "?c + of_nat (card (set ks \<inter> entry_keys (entries s1))) =
      c + of_nat (card (set (k # ks) \<inter> entry_keys (entries s)))"
    by (simp add: s1(3) card_deleted_Cons)
  ultimately show ?case using s1 by simp
qed simp

text \<open>The keys grouped by shard.\<close>

definition key_group :: "(bytes \<Rightarrow> uint64) \<Rightarrow> size_t \<Rightarrow> bytes list \<Rightarrow> nat \<Rightarrow> bytes list" where
  "key_group hash n keys j = filter (\<lambda>k. getShardIndex hash k n = Some (of_nat j)) keys"

lemma group_keys_acc:
  assumes "n \<noteq> 0" and "length acc = unat n"
  shows "group_keys hash n keys acc =
    Some (map (\<lambda>j. acc ! j @ key_group hash n keys j) [0..<unat n])"
  using assms(2)
proof (induction keys arbitrary: acc)
  case Nil
  then show ?case by (simp add: key_group_def list_eq_iff_nth_eq)
next
  case (Cons k keys)
  obtain i where i: "getShardIndex hash k n = Some i" using getShardIndex_total [OF assms(1)] by blast
  have less: "unat i < unat n" using getShardIndex_less [OF i] by (simp add: word_less_nat_alt)
  let ?acc = "acc[unat i := acc ! unat i @ [k]]"
  have group: "acc ! j @ key_group hash n (k # keys) j = ?acc ! j @ key_group hash n keys j" if "j < unat n" for j
  proof -
    have "j < 2 ^ 64" using that unat64_less [of n] by (rule less_trans)
    then have "i = of_nat j \<longleftrightarrow> j = unat i" by (auto simp: unat64_of_nat)
    then show ?thesis using that Cons.prems i by (simp add: key_group_def nth_list_update)
  qed
  have "group_keys hash n keys ?acc = Some (map (\<lambda>j. ?acc ! j @ key_group hash n keys j) [0..<unat n])"
    using Cons.prems by (intro Cons.IH) simp
  also have "\<dots> = Some (map (\<lambda>j. acc ! j @ key_group hash n (k # keys) j) [0..<unat n])"
    using group by simp
  finally show ?case using i less Cons.prems by simp
qed

lemma group_keys_eq:
  "n \<noteq> 0 \<Longrightarrow> group_keys hash n keys (replicate (unat n) []) = Some (map (key_group hash n keys) [0..<unat n])"
  by (simp add: group_keys_acc)

end
