(* ===== verification/Executor_Contract.thy ===== *)
theory Executor_Contract
  imports Command_Executor
begin

section \<open>Interface: what a command executor promises\<close>

text \<open>
  The executor of \<open>src/commandExecutor.cpp\<close> over the whole pool, in its two variants, for a single shard
  and for several. \<open>pool_view\<close> is the abstract state: the entries of every shard, in LRU order. The
  lemmas show which coroutine each variant builds, and what it answers and changes when it runs;
  \<open>task_ok\<close> is the part of this that also holds while other coroutines run in between.

  \<open>executor_contract\<close> states what both variants promise and what sessions rely on: a command on one key
  becomes one closure on the shard of the key, \<open>DEL\<close> deletes exactly the given keys, and the other
  commands do not depend on where the session lives. The client lemmas (every command returns, with a
  reply of the right shape, and keeps all shards well formed) are proved once in the interface.
  \<open>executor_pair\<close> compares two executors that satisfy it: they cannot be told apart. Both are
  interpreted with \<open>execute_single_shard\<close>, \<open>execute_multi_shard\<close> and \<open>execute\<close>, which chooses between them.
\<close>

definition pool_view :: "ShardPool \<Rightarrow> entry list list" where
  "pool_view p = map (\<lambda>w. entries (shard w)) (workers p)"

definition stored_keys :: "ShardPool \<Rightarrow> bytes set" where
  "stored_keys p = (\<Union>es \<in> set (pool_view p). entry_keys es)"

definition home_ok :: "ShardPool \<Rightarrow> size_t option \<Rightarrow> bool" where
  "home_ok p home \<longleftrightarrow> (case home of None \<Rightarrow> True | Some h \<Rightarrow> h < pool_size p)"

lemma length_pool_view [simp]: "length (pool_view p) = length (workers p)"
  by (simp add: pool_view_def)

lemma pool_view_nth: "j < length (workers p) \<Longrightarrow> pool_view p ! j = entries (shard (workers p ! j))"
  by (simp add: pool_view_def)

lemma pool_view_put_shard:
  "unat i < length (workers p) \<Longrightarrow> pool_view (put_shard i s p) = (pool_view p)[unat i := entries s]"
  by (simp add: pool_view_def put_shard_def map_update)

lemma new_pool_view: "pool_view (new_pool n m aff) = replicate (unat (max 1 n)) []"
  using new_shard_wf(2) [of m] by (simp add: pool_view_def new_pool_def new_worker_def)

lemma new_pool_size: "pool_size (new_pool n m aff) = max 1 n"
  by (simp add: pool_size_def new_pool_def)

text \<open>A pool of one shard that has seen some calls.\<close>

definition one_shard_pool :: "size_t \<Rightarrow> shard_call list \<Rightarrow> ShardPool" where
  "one_shard_pool m cs =
     \<lparr>workers = [(new_worker m)\<lparr>shard := shard_after m cs\<rparr>],
      thread_affinity_enabled = False, started = False, stopped = False\<rparr>"

text \<open>A pool of two shards whose threads run their event loops.\<close>

definition started_pool :: ShardPool where
  "started_pool = run_threads 4 (pool_start (\<lambda>i. 10 + i) (new_pool 2 64 False))"

lemma one_shard_pool_ok:
  assumes "list_all (call_fits (unat m)) cs"
  shows "pool_ok hash m (one_shard_pool m cs)"
  using shard_after_wf [OF assms]
  by (simp add: pool_ok_def one_shard_pool_def shard_ok_def pool_size_def getShardIndex_def)

lemma one_shard_pool_view:
  assumes "list_all (call_fits (unat m)) cs"
  shows "pool_view (one_shard_pool m cs) = [fold (spec_call (unat m)) cs []]"
  using shard_after_wf(2) [OF assms] by (simp add: one_shard_pool_def pool_view_def)

lemma started_pool_ok: "pool_ok hash 64 started_pool"
  unfolding started_pool_def by (intro run_threads_ok pool_start_ok new_pool_ok)

lemma started_pool_size [simp]: "pool_size started_pool = 2"
  using new_pool_size [of 2 64 False] by (simp add: started_pool_def pool_size_def max_def)

lemma run_on_shard_run:
  assumes "worker_at i p = Some w" and "fn (clks 0) (shard w) = Some (r, s')"
  shows "run_task (run_on_shard i fn k) clks p = run_task (k r) (\<lambda>j. clks (Suc j)) (put_shard i s' p)"
  using assms by (simp add: run_on_shard_def)

lemma on_shard_thread_total:
  assumes "pool_ok hash m p" and "i < pool_size p"
  shows "\<exists>b. is_on_shard_thread th i p = Some b"
  using pool_okD(3) [OF assms] by (simp add: is_on_shard_thread_def)

lemma on_shard_eq:
  assumes "b \<Longrightarrow> is_on_shard_thread th i p = Some True"
  shows "on_shard b th p i fn k = Some (run_on_shard i fn k)"
  using assms by (cases b) (simp_all add: on_shard_def local_shard_eq)

text \<open>Whether the code takes the direct path, for a pool of one shard and for several.\<close>

lemma single_local:
  assumes "pool_ok hash m p"
  obtains b where "(if home = Some 0 then is_on_shard_thread th 0 p else Some False) = Some b"
    and "b \<Longrightarrow> is_on_shard_thread th 0 p = Some True"
  using on_shard_thread_total [OF assms, of 0 th] pool_okD(2) [OF assms]
  by (cases "home = Some 0") (auto simp: word_gt_0)

lemma multi_local:
  assumes "pool_ok hash m p" and "home_ok p home"
  obtains b where "(case home of None \<Rightarrow> Some False | Some h \<Rightarrow> is_on_shard_thread th h p) = Some b"
    and "\<And>h. b \<Longrightarrow> home = Some h \<Longrightarrow> h < pool_size p \<and> is_on_shard_thread th h p = Some True"
proof (cases home)
  case None
  then show ?thesis using that [of False] by simp
next
  case (Some h)
  then obtain b where "h < pool_size p" "is_on_shard_thread th h p = Some b"
    using on_shard_thread_total [OF assms(1), of h th] assms(2) by (auto simp: home_ok_def)
  with Some show ?thesis by (intro that [of b]) auto
qed

subsection \<open>The coroutine of a command\<close>

lemma single_keyed:
  assumes pool: "pool_ok hash m p" and cmd: "keyed cmd"
  shows "execute_single_shard th p cmd home = Some (run_on_shard 0 (keyed_fn cmd) Finished)"
proof -
  obtain b where b: "(if home = Some 0 then is_on_shard_thread th 0 p else Some False) = Some b"
      "b \<Longrightarrow> is_on_shard_thread th 0 p = Some True" using single_local [OF pool, of home th] by blast
  show ?thesis
    using cmd by (auto simp: execute_single_shard_def b(1) on_shard_eq [OF b(2)] keyed_def keyed_fn_def)
qed

lemma multi_keyed:
  assumes pool: "pool_ok hash m p" and cmd: "keyed cmd" "valid_command cmd" and home: "home_ok p home"
    and i: "getShardIndex hash (hd (cmd_args cmd)) (pool_size p) = Some i"
  shows "execute_multi_shard hash th p cmd home = Some (run_on_shard i (keyed_fn cmd) Finished)"
proof -
  have arg0: "arg cmd 0 = Some (hd (cmd_args cmd))"
    using cmd valid_shapes [OF cmd(2)] by (auto simp: keyed_def arg_def)
  obtain b where b: "(case home of None \<Rightarrow> Some False | Some h \<Rightarrow> is_on_shard_thread th h p) = Some b"
      "\<And>h. b \<Longrightarrow> home = Some h \<Longrightarrow> h < pool_size p \<and> is_on_shard_thread th h p = Some True"
    using multi_local [OF pool home, of th] by blast
  then have "b \<and> Some i = home \<Longrightarrow> is_on_shard_thread th i p = Some True" by auto
  note on = on_shard_eq [OF this]
  show ?thesis
    using cmd(1) by (auto simp: execute_multi_shard_def b(1) Let_def arg0 i on keyed_def keyed_fn_def)
qed

text \<open>The commands other than \<open>DEL\<close> that name no key take the same way in both variants.\<close>

definition keyless :: "Command \<Rightarrow> bool" where
  "keyless cmd \<longleftrightarrow> cmd_type cmd \<in> {Cmd_kInfo, Cmd_kPing, Cmd_kCommand, Cmd_kConfig}"

definition keyless_task :: "ShardPool \<Rightarrow> Command \<Rightarrow> RespValue task option" where
  "keyless_task p cmd =
     (case cmd_type cmd of
        Cmd_kInfo \<Rightarrow> Some (processInfoCommand cmd p)
      | Cmd_kPing \<Rightarrow> Some (Finished (processPingCommand cmd))
      | Cmd_kCommand \<Rightarrow> Some (Finished (processCommandCommand cmd))
      | _ \<Rightarrow> map_option Finished (processConfigCommand cmd))"

lemma variants_keyless:
  assumes "pool_ok hash m p" and "keyless cmd" and "home_ok p home"
  shows "execute_single_shard th p cmd home = keyless_task p cmd"
    "execute_multi_shard hash th p cmd home = keyless_task p cmd"
proof -
  obtain b1 where b1: "(if home = Some 0 then is_on_shard_thread th 0 p else Some False) = Some b1"
    using single_local [OF assms(1), of home th] by blast
  obtain b2 where b2: "(case home of None \<Rightarrow> Some False | Some h \<Rightarrow> is_on_shard_thread th h p) = Some b2"
    using multi_local [OF assms(1,3), of th] by blast
  show "execute_single_shard th p cmd home = keyless_task p cmd"
      "execute_multi_shard hash th p cmd home = keyless_task p cmd"
    using assms(2)
    by (auto simp: keyless_def keyless_task_def execute_single_shard_def execute_multi_shard_def b1 b2 Let_def)
qed

lemma command_cases [case_names keyed del keyless]:
  assumes "valid_command cmd"
  obtains "keyed cmd" | "cmd_type cmd = Cmd_kDel" | "keyless cmd"
  using valid_command_args(1) [OF assms] by (cases "cmd_type cmd") (auto simp: keyed_def keyless_def)

lemma run_keyed:
  assumes pool: "pool_ok hash m p" and cmd: "keyed cmd" "valid_command cmd" "cmd_fits m cmd"
    and i: "getShardIndex hash (hd (cmd_args cmd)) (pool_size p) = Some i"
  shows "\<exists>p'. run_task (run_on_shard i (keyed_fn cmd) Finished) clks p =
      Some (fst (spec_keyed (unat m) cmd (clks 0) (pool_view p ! unat i)), p') \<and> pool_ok hash m p' \<and>
    same_threads p p' \<and>
    pool_view p' = (pool_view p)[unat i := snd (spec_keyed (unat m) cmd (clks 0) (pool_view p ! unat i))]"
proof -
  have less: "i < pool_size p" by (rule getShardIndex_less [OF i])
  then have less': "unat i < length (workers p)" using pool_okD(1) [OF pool] by (simp add: word_less_nat_alt)
  note at = pool_okD(3,4) [OF pool less]
  obtain s' where s': "keyed_fn cmd (clks 0) (shard (workers p ! unat i)) =
        Some (fst (spec_keyed (unat m) cmd (clks 0) (pool_view p ! unat i)), s')"
      "shard_ok hash (pool_size p) m i s'"
      "entries s' = snd (spec_keyed (unat m) cmd (clks 0) (pool_view p ! unat i))"
    using keyed_fn_refines [OF at(2) cmd i, of "clks 0"] by (auto simp: pool_view_nth [OF less'])
  with run_on_shard_run [OF at(1), of "keyed_fn cmd" clks _ _ Finished] show ?thesis
    using pool_ok_put_shard [OF pool less] by (auto simp: pool_view_put_shard [OF less'])
qed

subsection \<open>The coroutine of \<open>DEL\<close>\<close>

lemma run_del_group:
  assumes pool: "pool_ok hash m p" and j: "j < length (workers p)"
  shows "\<exists>p'. (\<forall>k :: int64 \<Rightarrow> RespValue task. run_task (run_on_shard (of_nat j) (processDelKeys keys) k) clks p =
      run_task (k (of_nat (card (set keys \<inter> entry_keys (pool_view p ! j))))) (\<lambda>j. clks (Suc j)) p') \<and>
    pool_ok hash m p' \<and> same_threads p p' \<and>
    pool_view p' = (pool_view p)[j := drop_keys (set keys) (pool_view p ! j)]"
proof -
  have un: "unat (of_nat j :: size_t) = j"
    using j pool by (simp add: pool_ok_def unat64_of_nat)
  then have less: "of_nat j < pool_size p"
    using j pool_okD(1) [OF pool] by (simp add: word_less_nat_alt)
  note at = pool_okD(3,4) [OF pool less, unfolded un]
  obtain s' where s': "processDelKeys keys (clks 0) (shard (workers p ! j)) =
        Some (of_nat (card (set keys \<inter> entry_keys (pool_view p ! j))), s')"
      "shard_ok hash (pool_size p) m (of_nat j) s'" "entries s' = drop_keys (set keys) (pool_view p ! j)"
    using del_keys_refines [OF at(2), of keys 0] by (auto simp: processDelKeys_def pool_view_nth [OF j])
  have "run_task (run_on_shard (of_nat j) (processDelKeys keys) k) clks p =
      run_task (k (of_nat (card (set keys \<inter> entry_keys (pool_view p ! j))))) (\<lambda>j. clks (Suc j))
        (put_shard (of_nat j) s' p)" for k :: "int64 \<Rightarrow> RespValue task"
    using run_on_shard_run [OF at(1), of "processDelKeys keys" clks] s'(1) by blast
  with pool_ok_put_shard [OF pool less s'(2)] s'(3) j show ?thesis
    by (intro exI [of _ "put_shard (of_nat j) s' p"]) (simp add: pool_view_put_shard un)
qed

lemma run_del_remote:
  assumes "pool_ok hash m p" and "i + length gs \<le> length (workers p)"
  shows "\<exists>p'. run_task (del_remote i gs c) clks p =
      Some (IntegerValue (c + of_nat (\<Sum>j < length gs. card (set (gs ! j) \<inter> entry_keys (pool_view p ! (i + j))))), p') \<and>
    pool_ok hash m p' \<and> same_threads p p' \<and>
    (\<forall>j < length (workers p). pool_view p' ! j =
       (if i \<le> j \<and> j < i + length gs then drop_keys (set (gs ! (j - i))) (pool_view p ! j) else pool_view p ! j))"
  using assms
proof (induction gs arbitrary: i c clks p)
  case Nil
  then show ?case by (auto simp: reply_count_def)
next
  case (Cons keys gs)
  let ?n = "card (set keys \<inter> entry_keys (pool_view p ! i))"
  obtain p1 clks1 where p1: "run_task (del_remote i (keys # gs) c) clks p =
        run_task (del_remote (Suc i) gs (c + of_nat ?n)) clks1 p1"
      "pool_ok hash m p1" "same_threads p p1" "pool_view p1 = (pool_view p)[i := drop_keys (set keys) (pool_view p ! i)]"
  proof (cases "keys = []")
    case True
    then show ?thesis using Cons.prems that [of clks p] by simp
  next
    case False
    then show ?thesis
      using run_del_group [OF Cons.prems(1), of i keys clks] Cons.prems(2) that by auto
  qed
  have len: "length (workers p1) = length (workers p)" using p1(3) by (rule same_threads_length)
  then have "Suc i + length gs \<le> length (workers p1)" using Cons.prems(2) by simp
  from Cons.IH [OF p1(2) this, of "c + of_nat ?n" clks1] obtain p' where
    p': "run_task (del_remote (Suc i) gs (c + of_nat ?n)) clks1 p1 =
        Some (IntegerValue (c + of_nat ?n +
          of_nat (\<Sum>j < length gs. card (set (gs ! j) \<inter> entry_keys (pool_view p1 ! (Suc i + j))))), p')"
      "pool_ok hash m p'" "same_threads p1 p'"
      "\<forall>j < length (workers p). pool_view p' ! j =
         (if Suc i \<le> j \<and> j < Suc i + length gs then drop_keys (set (gs ! (j - Suc i))) (pool_view p1 ! j) else pool_view p1 ! j)"
    using len by auto
  have "(\<Sum>j < length (keys # gs). card (set ((keys # gs) ! j) \<inter> entry_keys (pool_view p ! (i + j)))) =
      ?n + (\<Sum>j < length gs. card (set (gs ! j) \<inter> entry_keys (pool_view p1 ! (Suc i + j))))"
    by (simp add: sum.lessThan_Suc_shift p1(4) del: sum.lessThan_Suc)
  moreover have "pool_view p' ! j = (if i \<le> j \<and> j < i + length (keys # gs)
      then drop_keys (set ((keys # gs) ! (j - i))) (pool_view p ! j) else pool_view p ! j)"
    if "j < length (workers p)" for j
    using p'(4) that by (auto simp: p1(4) nth_list_update nth_Cons' not_less_eq_eq)
  ultimately show ?case
    using p1 p' same_threads_trans [OF p1(3) p'(3)] by (auto simp: add.assoc)
qed

lemma pool_key_route:
  assumes "pool_ok hash m p" and "j < length (workers p)" and "k \<in> entry_keys (pool_view p ! j)"
  shows "getShardIndex hash k (pool_size p) = Some (of_nat j)"
  using assms by (auto simp: pool_ok_def shard_ok_def pool_view_nth entry_keys_def)

lemma group_keys_found:
  assumes "pool_ok hash m p" and "j < length (workers p)"
  shows "set (key_group hash (pool_size p) keys j) \<inter> entry_keys (pool_view p ! j) = set keys \<inter> entry_keys (pool_view p ! j)"
    "drop_keys (set (key_group hash (pool_size p) keys j)) (pool_view p ! j) = drop_keys (set keys) (pool_view p ! j)"
proof -
  note route = pool_key_route [OF assms]
  show "set (key_group hash (pool_size p) keys j) \<inter> entry_keys (pool_view p ! j) = set keys \<inter> entry_keys (pool_view p ! j)"
    using route by (auto simp: key_group_def)
  show "drop_keys (set (key_group hash (pool_size p) keys j)) (pool_view p ! j) = drop_keys (set keys) (pool_view p ! j)"
    using route unfolding drop_keys_def key_group_def entry_keys_def by (intro filter_cong) auto
qed

lemma stored_keys_count:
  assumes "pool_ok hash m p"
  shows "(\<Sum>j < length (workers p). card (set keys \<inter> entry_keys (pool_view p ! j))) = card (set keys \<inter> stored_keys p)"
proof -
  have "stored_keys p = (\<Union>j < length (workers p). entry_keys (pool_view p ! j))"
    by (auto simp: stored_keys_def set_conv_nth)
  then have "set keys \<inter> stored_keys p = (\<Union>j < length (workers p). set keys \<inter> entry_keys (pool_view p ! j))"
    by auto
  moreover have "card \<dots> = (\<Sum>j < length (workers p). card (set keys \<inter> entry_keys (pool_view p ! j)))"
  proof (rule card_UN_disjoint)
    have "a = b" if "a < length (workers p)" "b < length (workers p)"
      "k \<in> entry_keys (pool_view p ! a)" "k \<in> entry_keys (pool_view p ! b)" for a b k
    proof -
      have "(of_nat a :: size_t) = of_nat b"
        using pool_key_route [OF assms that(1,3)] pool_key_route [OF assms that(2,4)] by simp
      then have "unat (of_nat a :: size_t) = unat (of_nat b :: size_t)" by simp
      with that(1,2) assms show "a = b" by (simp add: pool_ok_def unat64_of_nat)
    qed
    then show "\<forall>i \<in> {..<length (workers p)}. \<forall>j \<in> {..<length (workers p)}. i \<noteq> j \<longrightarrow>
        (set keys \<inter> entry_keys (pool_view p ! i)) \<inter> (set keys \<inter> entry_keys (pool_view p ! j)) = {}"
      by blast
  qed simp_all
  ultimately show ?thesis by simp
qed

text \<open>What a \<open>DEL\<close> leaves behind.\<close>

definition deletes :: "(bytes \<Rightarrow> uint64) \<Rightarrow> size_t \<Rightarrow> bytes list \<Rightarrow> RespValue task \<Rightarrow> (nat \<Rightarrow> clock) \<Rightarrow> ShardPool \<Rightarrow> bool" where
  "deletes hash m keys t clks p \<longleftrightarrow>
     (\<exists>p'. run_task t clks p = Some (IntegerValue (of_nat (card (set keys \<inter> stored_keys p))), p') \<and>
        pool_ok hash m p' \<and> same_threads p p' \<and> pool_view p' = map (drop_keys (set keys)) (pool_view p))"

lemma deletes_single:
  assumes pool: "pool_ok hash m p" and "length (workers p) = 1"
  shows "deletes hash m keys (run_on_shard 0 (processDelKeys keys) reply_count) clks p"
proof -
  have "\<exists>es. pool_view p = [es]" using assms(2) by (simp add: length_Suc_conv flip: length_pool_view)
  then obtain es where es: "pool_view p = [es]" by blast
  obtain p' where "run_task (run_on_shard 0 (processDelKeys keys) reply_count) clks p =
      run_task (reply_count (of_nat (card (set keys \<inter> entry_keys es)))) (\<lambda>j. clks (Suc j)) p'"
      "pool_ok hash m p'" "same_threads p p'" "pool_view p' = [drop_keys (set keys) es]"
    using run_del_group [OF pool, of 0 keys clks] assms(2) es by auto
  then show ?thesis
    by (auto simp: deletes_def reply_count_def es stored_keys_def)
qed

lemma deletes_remote:
  assumes pool: "pool_ok hash m p"
  shows "deletes hash m keys (del_remote 0 (map (key_group hash (pool_size p) keys) [0..<length (workers p)]) 0) clks p"
proof -
  let ?gs = "map (key_group hash (pool_size p) keys) [0..<length (workers p)]"
  obtain p' where p': "run_task (del_remote 0 ?gs 0) clks p =
        Some (IntegerValue (of_nat (\<Sum>j < length (workers p). card (set (?gs ! j) \<inter> entry_keys (pool_view p ! j)))), p')"
      "pool_ok hash m p'" "same_threads p p'"
      "\<forall>j < length (workers p). pool_view p' ! j = drop_keys (set (?gs ! j)) (pool_view p ! j)"
    using run_del_remote [OF pool, of 0 ?gs 0 clks] by auto
  have "(\<Sum>j < length (workers p). card (set (?gs ! j) \<inter> entry_keys (pool_view p ! j))) = card (set keys \<inter> stored_keys p)"
    unfolding stored_keys_count [OF pool, symmetric]
    by (intro sum.cong) (simp_all add: group_keys_found [OF pool])
  moreover have "pool_view p' = map (drop_keys (set keys)) (pool_view p)"
    using p'(3,4) by (intro nth_equalityI) (simp_all add: same_threads_length group_keys_found [OF pool])
  ultimately show ?thesis using p' by (auto simp: deletes_def)
qed

lemma deletes_local_first:
  assumes pool: "pool_ok hash m p" and h: "h < pool_size p"
    and gs_def: "gs = map (key_group hash (pool_size p) keys) [0..<length (workers p)]"
  shows "deletes hash m keys (run_on_shard h (processDelKeys (gs ! unat h))
    (\<lambda>count. del_remote 0 (gs[unat h := []]) count)) clks p"
proof -
  let ?h = "unat h" and ?view = "pool_view p"
  let ?found = "\<lambda>j. card (set keys \<inter> entry_keys (?view ! j))"
  have h': "?h < length (workers p)" using h pool_okD(1) [OF pool] by (simp add: word_less_nat_alt)
  have gs: "length gs = length (workers p)"
    "j < length (workers p) \<Longrightarrow> gs ! j = key_group hash (pool_size p) keys j" for j
    by (simp_all add: gs_def)
  obtain p1 where p1: "run_task (run_on_shard h (processDelKeys (gs ! ?h)) (\<lambda>count. del_remote 0 (gs[?h := []]) count)) clks p =
        run_task (del_remote 0 (gs[?h := []]) (of_nat (?found ?h))) (\<lambda>j. clks (Suc j)) p1"
      "pool_ok hash m p1" "same_threads p p1" "pool_view p1 = ?view[?h := drop_keys (set keys) (?view ! ?h)]"
    using run_del_group [OF pool h', of "gs ! ?h" clks] gs(2) [OF h'] group_keys_found [OF pool h']
    by auto
  have len: "length (workers p1) = length (workers p)" using p1(3) by (rule same_threads_length)
  obtain p' where p': "run_task (del_remote 0 (gs[?h := []]) (of_nat (?found ?h))) (\<lambda>j. clks (Suc j)) p1 =
        Some (IntegerValue (of_nat (?found ?h) + of_nat (\<Sum>j < length (workers p).
          card (set (gs[?h := []] ! j) \<inter> entry_keys (pool_view p1 ! j)))), p')"
      "pool_ok hash m p'" "same_threads p1 p'"
      "\<forall>j < length (workers p). pool_view p' ! j = drop_keys (set (gs[?h := []] ! j)) (pool_view p1 ! j)"
    using run_del_remote [OF p1(2), of 0 "gs[?h := []]" "of_nat (?found ?h)" "\<lambda>j. clks (Suc j)"] gs(1) len by auto
  have "card (set (gs[?h := []] ! j) \<inter> entry_keys (pool_view p1 ! j)) = (if j = ?h then 0 else ?found j)"
    if "j < length (workers p)" for j
    using that h' gs by (simp add: nth_list_update p1(4) group_keys_found [OF pool])
  then have "(\<Sum>j < length (workers p). card (set (gs[?h := []] ! j) \<inter> entry_keys (pool_view p1 ! j))) =
      (\<Sum>j \<in> {..<length (workers p)} - {?h}. ?found j)"
    using h' by (simp add: sum.remove [of _ ?h])
  moreover have "?found ?h + (\<Sum>j \<in> {..<length (workers p)} - {?h}. ?found j) = card (set keys \<inter> stored_keys p)"
    unfolding stored_keys_count [OF pool, symmetric] using h' by (simp add: sum.remove [of _ ?h])
  ultimately have total: "(of_nat (?found ?h) :: int64) + of_nat (\<Sum>j < length (workers p).
      card (set (gs[?h := []] ! j) \<inter> entry_keys (pool_view p1 ! j))) = of_nat (card (set keys \<inter> stored_keys p))"
    by (simp only: of_nat_add [symmetric])
  have "pool_view p' = map (drop_keys (set keys)) ?view"
    using p'(3,4) gs len h'
    by (intro nth_equalityI) (auto simp: same_threads_length p1(4) nth_list_update group_keys_found [OF pool])
  with p'(1,2) total same_threads_trans [OF p1(3) p'(3)] show ?thesis
    unfolding deletes_def p1(1) by metis
qed

text \<open>The coroutine of \<open>DEL\<close> in the two variants of the executor.\<close>

lemma single_del:
  assumes pool: "pool_ok hash m p" and cmd: "cmd_type cmd = Cmd_kDel"
  shows "execute_single_shard th p cmd home = Some (run_on_shard 0 (processDelKeys (cmd_args cmd)) reply_count)"
proof -
  obtain b where b: "(if home = Some 0 then is_on_shard_thread th 0 p else Some False) = Some b"
      "b \<Longrightarrow> is_on_shard_thread th 0 p = Some True" using single_local [OF pool, of home th] by blast
  show ?thesis using cmd by (simp add: execute_single_shard_def b(1) on_shard_eq [OF b(2)])
qed

lemma multi_del:
  assumes pool: "pool_ok hash m p" and cmd: "cmd_type cmd = Cmd_kDel" and home: "home_ok p home"
    and gs: "gs = map (key_group hash (pool_size p) (cmd_args cmd)) [0..<length (workers p)]"
  shows "execute_multi_shard hash th p cmd home = Some (del_remote 0 gs 0) \<or>
    (\<exists>h < pool_size p. execute_multi_shard hash th p cmd home =
      Some (run_on_shard h (processDelKeys (gs ! unat h)) (\<lambda>count. del_remote 0 (gs[unat h := []]) count)))"
proof -
  note size = pool_okD(1,2) [OF pool]
  obtain b where b: "(case home of None \<Rightarrow> Some False | Some h \<Rightarrow> is_on_shard_thread th h p) = Some b"
      "\<And>h. b \<Longrightarrow> home = Some h \<Longrightarrow> h < pool_size p \<and> is_on_shard_thread th h p = Some True"
    using multi_local [OF pool home, of th] by blast
  have "execute_multi_shard hash th p cmd home = del_grouped th p (if b then home else None) gs"
    using cmd group_keys_eq [OF size(2), of hash "cmd_args cmd"] size(1)
    by (simp add: execute_multi_shard_def b(1) Let_def gs)
  moreover have "length gs = unat (pool_size p)" by (simp add: gs size(1))
  ultimately show ?thesis
    using b(2) by (cases home) (auto simp: del_grouped_def local_shard_eq word_less_nat_alt)
qed

lemma deletes_multi:
  assumes "pool_ok hash m p" and "cmd_type cmd = Cmd_kDel" and "home_ok p home"
  shows "\<exists>t. execute_multi_shard hash th p cmd home = Some t \<and> (\<forall>clks. deletes hash m (cmd_args cmd) t clks p)"
  using multi_del [OF assms refl, of th] deletes_remote [OF assms(1)] deletes_local_first [OF assms(1) _ refl] by blast

lemma deletes_one_shard:
  assumes "pool_ok hash m p" and "cmd_type cmd = Cmd_kDel" and "pool_size p = 1"
  shows "\<exists>t. execute_single_shard th p cmd home = Some t \<and> (\<forall>clks. deletes hash m (cmd_args cmd) t clks p)"
proof -
  have "length (workers p) = 1" using pool_okD(1) [OF assms(1)] assms(3) by simp
  then show ?thesis using single_del [OF assms(1,2)] deletes_single [OF assms(1)] by blast
qed

subsection \<open>The commands that change nothing\<close>

lemma put_shard_same: "worker_at i p = Some w \<Longrightarrow> put_shard i (shard w) p = p"
  by (auto simp: worker_at_def put_shard_def split: if_splits)

lemma run_info_loop:
  assumes "pool_ok hash m p" and "\<forall>i \<in> set is. i < pool_size p"
  shows "run_task (info_loop is acc) clks p =
    Some (BulkString (info_text (fold (\<lambda>i st. add_stats st (get_stats (shard (workers p ! unat i)))) is acc)), p)"
  using assms(2)
proof (induction "is" arbitrary: acc clks)
  case (Cons i "is")
  then have at: "worker_at i p = Some (workers p ! unat i)" using pool_okD(3) [OF assms(1)] by simp
  then have "run_task (info_loop (i # is) acc) clks p =
      run_task (info_loop is (add_stats acc (get_stats (shard (workers p ! unat i))))) (\<lambda>j. clks (Suc j)) p"
    by (simp add: run_on_shard_run [OF at] put_shard_same)
  with Cons show ?case by simp
qed simp

lemma config_matches_eq:
  assumes "\<forall>(name, v) \<in> set vs. CHR ''*'' \<notin> set name"
  shows "config_matches pattern vs =
    Some (concat (map (\<lambda>(name, v). if glob pattern name then [BulkString name, BulkString v] else []) vs))"
  using assms by (induction pattern vs rule: config_matches.induct) (auto simp: glob_match_glob)

lemma config_eq:
  assumes "cmd_args cmd = [sub, pat]"
  shows "processConfigCommand cmd = Some (
    if to_uppercase sub = ''GET'' then ArrayValue (concat (map (\<lambda>(name, v).
      if glob (to_lowercase pat) name then [BulkString name, BulkString v] else []) kSupportedConfigValues))
    else ErrorValue ''Unknown subcommand'')"
proof -
  have "config_matches (to_lowercase pat) kSupportedConfigValues = Some (concat (map (\<lambda>(name, v).
      if glob (to_lowercase pat) name then [BulkString name, BulkString v] else []) kSupportedConfigValues))"
    by (rule config_matches_eq) (simp add: kSupportedConfigValues_def)
  with assms show ?thesis by (simp add: processConfigCommand_def arg_def)
qed

subsection \<open>The shape of replies\<close>

text \<open>Every reply is of this shape: texts without carriage return in simple strings and errors, bulk
  strings up to a size \<open>B\<close>, and at most twenty elements in arrays nested at most twice. With \<open>B\<close> within
  the parser's limit such a value can be read back, which \<open>Reply_Codec\<close> shows.\<close>

fun reply_within :: "nat \<Rightarrow> nat \<Rightarrow> RespValue \<Rightarrow> bool" where
  "reply_within B d (RespValue t (VString s)) =
     (if t = Type_kSimpleString \<or> t = Type_kError then cr \<notin> set s
      else if t = Type_kBulkString then length s \<le> B
      else t = Type_kNullBulkString \<and> s = [])"
| "reply_within B d (RespValue t (VInt i)) = (t = Type_kInteger)"
| "reply_within B d (RespValue t (VArray xs)) =
     (t = Type_kArray \<and> length xs \<le> 20 \<and> d < 2 \<and> (\<forall>x \<in> set xs. reply_within B (d + 1) x))"

text \<open>The size for a command on a pool: \<open>INFO\<close> needs 300 bytes, stored values fit the budget of a shard, and
  \<open>PING\<close> echoes an argument.\<close>

definition reply_room :: "nat \<Rightarrow> size_t \<Rightarrow> Command \<Rightarrow> bool" where
  "reply_room B m cmd \<longleftrightarrow> 300 \<le> B \<and> unat m \<le> B \<and> (\<forall>a \<in> set (cmd_args cmd). length a \<le> B)"

lemma reply_room_exists: "\<exists>B. reply_room B m cmd"
proof -
  have "length a \<le> sum_list (map length (cmd_args cmd))" if "a \<in> set (cmd_args cmd)" for a
    using that by (simp add: member_le_sum_list)
  then have "reply_room (300 + unat m + sum_list (map length (cmd_args cmd))) m cmd"
    by (fastforce simp: reply_room_def)
  then show ?thesis by blast
qed

lemma reply_within_well_typed: "reply_within B d v \<Longrightarrow> well_typed v"
  by (induction B d v rule: reply_within.induct) (auto split: if_splits)

declare reply_within.simps [simp del]

lemma error_texts_within [simp]:
  "reply_within B d (ErrorValue ''ERR syntax error'')" "reply_within B d (ErrorValue [])"
  "reply_within B d (ErrorValue ''ERR value is not an integer or out of range'')"
  "reply_within B d (ErrorValue ''Unknown subcommand'')" "reply_within B d (ErrorValue ''ERR unsupported INFO section'')"
  "reply_within B d processUnknownCommand" "reply_within B d (SimpleString ''OK'')"
  by (simp_all add: processUnknownCommand_def cr_def reply_within.simps)

lemma reply_within_forms [simp]:
  "reply_within B d (IntegerValue i)" "reply_within B d NullBulkString" "reply_within B d (BulkString s) \<longleftrightarrow> length s \<le> B"
  "reply_within B d (ArrayValue xs) \<longleftrightarrow> length xs \<le> 20 \<and> d < 2 \<and> (\<forall>x \<in> set xs. reply_within B (d + 1) x)"
  by (simp_all add: reply_within.simps)

lemma config_total:
  assumes "valid_command cmd" and "cmd_type cmd = Cmd_kConfig" and "300 \<le> B"
  shows "\<exists>r. processConfigCommand cmd = Some r \<and> reply_within B 0 r"
proof -
  obtain sub pat where "cmd_args cmd = [sub, pat]" using valid_shapes(4) [OF assms(1,2)] by blast
  with assms(3) show ?thesis by (auto simp: config_eq kSupportedConfigValues_def)
qed

lemma command_reply_within:
  assumes "length (cmd_args cmd) \<le> 20" and "300 \<le> B"
  shows "reply_within B 0 (processCommandCommand cmd)"
proof -
  have info: "reply_within B (Suc 0) (command_info d)" if "d \<in> set kCommands" for d
    using that assms(2) by (auto simp: command_info_def kCommands_def)
  have infos: "length (command_infos names) \<le> length names \<and> (\<forall>v \<in> set (command_infos names). reply_within B (Suc 0) v)" for names
  proof (induction names)
    case (Cons name names)
    then show ?case by (auto simp: find_Some_iff intro: info split: option.splits)
  qed simp
  have "length kCommands \<le> 20" by (simp add: kCommands_def)
  then show ?thesis
    using assms(1) info infos [of "tl (cmd_args cmd)"] by (cases "cmd_args cmd") (simp_all add: processCommandCommand_def)
qed

lemma info_line_length: "length (info_line name n) \<le> length name + 23"
proof -
  have "unat n < 10 ^ 20" using unat64_less [of n] by simp
  then have "length (nat_digits (unat n)) \<le> 20" by (rule length_nat_digits) simp
  then show ?thesis by (simp add: info_line_def crlf_def)
qed

lemma info_text_length: "length (info_text st) \<le> 300"
  using info_line_length [of "''used_bytes''" "stat_used_payload_bytes st"] info_line_length [of "''keys''" "stat_key_count st"]
    info_line_length [of "''evictions''" "stat_evictions st"] info_line_length [of "''expired''" "stat_expired st"]
    info_line_length [of "''max_memory_bytes''" "stat_max_memory_bytes st"]
  by (simp add: info_text_def crlf_def)

lemma spec_keyed_within:
  assumes "payload es \<le> B"
  shows "reply_within B 0 (fst (spec_keyed b cmd clk es))"
proof -
  have "length v \<le> B" if get: "fst (spec_get k now es) = Some v" for k now v
  proof -
    obtain d where d: "(k, v, d) \<in> set es"
      using get by (auto simp: spec_get_def dest: map_of_SomeD split: option.splits prod.splits if_splits)
    then have "entry_size (k, v, d) \<le> payload es" unfolding payload_def by (intro member_le_sum_list) auto
    then show ?thesis using assms by (simp add: entry_size_def)
  qed
  then show ?thesis
    by (auto simp: spec_keyed_def spec_set_command_def spec_expire_command_def Let_def
        split: CommandType.splits option.splits list.splits if_splits)
qed

subsection \<open>Every coroutine of the executor is safe at any interleaving\<close>

lemma del_fn_ok: "fn_ok (shard_ok hash n m i) (\<lambda>_. True) (processDelKeys keys)"
  unfolding fn_ok_def processDelKeys_def using del_keys_refines by blast

definition is_count :: "RespValue \<Rightarrow> bool" where
  "is_count v \<longleftrightarrow> (\<exists>c. v = IntegerValue c)"

lemma del_remote_ok:
  "i + length gs \<le> unat n \<Longrightarrow> task_ok (shard_ok hash n m) n is_count (del_remote i gs c)"
proof (induction gs arbitrary: i c)
  case Nil
  then show ?case by (simp add: reply_count_def task_ok_Finished is_count_def)
next
  case (Cons keys gs)
  have "unat (of_nat i :: size_t) = i"
    using Cons.prems unat64_less [of n] by (intro unat64_of_nat) simp
  then have "of_nat i < n" using Cons.prems by (simp add: word_less_nat_alt)
  with Cons show ?case
    by (auto intro!: run_on_shard_ok [OF _ del_fn_ok])
qed

lemma info_loop_ok:
  "300 \<le> B \<Longrightarrow> \<forall>i \<in> set is. i < n \<Longrightarrow> task_ok (shard_ok hash n m) n (reply_within B 0) (info_loop is acc)"
proof (induction "is" arbitrary: acc)
  case (Cons i "is")
  have "fn_ok (shard_ok hash n m i) (\<lambda>_. True) (\<lambda>clk s. Some (get_stats s, s))"
    by (simp add: fn_ok_def)
  with Cons show ?case by (auto intro!: run_on_shard_ok)
next
  case Nil
  then show ?case using info_text_length [of acc] by (simp add: task_ok_Finished)
qed

lemma info_indices: "\<forall>i \<in> set (map of_nat [0..<unat (n :: size_t)]). i < n"
  using unat64_less [of n] by (auto simp: word_less_nat_alt unat64_of_nat)

lemma info_ok: "300 \<le> B \<Longrightarrow> task_ok (shard_ok hash (pool_size p) m) (pool_size p) (reply_within B 0) (processInfoCommand cmd p)"
  using info_loop_ok [OF _ info_indices] by (simp add: processInfoCommand_def Let_def task_ok_Finished)

lemma keyed_ok:
  assumes "keyed cmd" "valid_command cmd" "cmd_fits m cmd" and i: "getShardIndex hash (hd (cmd_args cmd)) n = Some i"
    and "unat m \<le> B"
  shows "task_ok (shard_ok hash n m) n (reply_within B 0) (run_on_shard i (keyed_fn cmd) Finished)"
proof (rule run_on_shard_ok)
  show "i < n" by (rule getShardIndex_less [OF i])
  have "payload (entries s) \<le> B" if "shard_ok hash n m i s" for s
    using that assms(5) by (auto simp: shard_ok_def wf_shard_def)
  then show "fn_ok (shard_ok hash n m i) (reply_within B 0) (keyed_fn cmd)"
    unfolding fn_ok_def using keyed_fn_refines [OF _ assms(1-4)] spec_keyed_within by blast
qed (simp add: task_ok_Finished)

lemma single_del_ok:
  assumes "pool_ok hash m p" and "cmd_type cmd = Cmd_kDel"
  shows "\<exists>t. execute_single_shard th p cmd home = Some t \<and> task_ok (shard_ok hash (pool_size p) m) (pool_size p) is_count t"
  using pool_okD(2) [OF assms(1)] unfolding single_del [OF assms]
  by (auto intro!: run_on_shard_ok [OF _ del_fn_ok] simp: reply_count_def task_ok_Finished is_count_def word_gt_0)

lemma multi_del_ok:
  assumes "pool_ok hash m p" and "cmd_type cmd = Cmd_kDel" and "home_ok p home"
  shows "\<exists>t. execute_multi_shard hash th p cmd home = Some t \<and> task_ok (shard_ok hash (pool_size p) m) (pool_size p) is_count t"
proof -
  let ?ok = "task_ok (shard_ok hash (pool_size p) m) (pool_size p) is_count"
  let ?gs = "map (key_group hash (pool_size p) (cmd_args cmd)) [0..<length (workers p)]"
  have remote: "?ok (del_remote 0 gs c)" if "length gs = length (workers p)" for gs c
    using that pool_okD(1) [OF assms(1)] by (intro del_remote_ok) simp
  have "?ok (run_on_shard h (processDelKeys ks) (\<lambda>count. del_remote 0 (?gs[unat h := []]) count))"
    if "h < pool_size p" for h ks
    using that by (intro run_on_shard_ok [OF _ del_fn_ok] remote) simp_all
  with remote [of ?gs] multi_del [OF assms refl, of th] show ?thesis by auto
qed

lemma keyless_within:
  assumes cmd: "keyless cmd" "valid_command cmd" and room: "reply_room B m cmd"
  shows "\<exists>t. keyless_task p cmd = Some t \<and> task_ok (shard_ok hash (pool_size p) m) (pool_size p) (reply_within B 0) t"
proof -
  have B: "300 \<le> B" "\<And>a. a \<in> set (cmd_args cmd) \<Longrightarrow> length a \<le> B" using room by (auto simp: reply_room_def)
  obtain r where "cmd_type cmd = Cmd_kConfig \<Longrightarrow> processConfigCommand cmd = Some r \<and> reply_within B 0 r"
    using config_total [OF cmd(2) _ B(1)] by blast
  moreover have "cmd_type cmd = Cmd_kCommand \<Longrightarrow> reply_within B 0 (processCommandCommand cmd)"
    using cmd(2) by (intro command_reply_within B(1)) (simp add: valid_command_def kMaxArgs_def)
  moreover have "reply_within B 0 (processPingCommand cmd)" using B by (simp add: processPingCommand_def split: list.splits)
  ultimately show ?thesis
    using cmd(1) info_ok [OF B(1), of hash p m cmd] by (auto simp: keyless_def keyless_task_def task_ok_Finished)
qed

subsection \<open>The interface\<close>

text \<open>\<open>serves_pool\<close> says which pools the executor is made for.\<close>

locale executor_contract =
  fixes hash :: "bytes \<Rightarrow> uint64"
    and serves_pool :: "ShardPool \<Rightarrow> bool"
    and run :: "thread \<Rightarrow> ShardPool \<Rightarrow> Command \<Rightarrow> size_t option \<Rightarrow> RespValue task option"
  assumes keyed_law: "serves_pool p \<Longrightarrow> pool_ok hash m p \<Longrightarrow> keyed cmd \<Longrightarrow> valid_command cmd \<Longrightarrow> home_ok p home \<Longrightarrow>
      \<exists>i. getShardIndex hash (hd (cmd_args cmd)) (pool_size p) = Some i \<and>
        run th p cmd home = Some (run_on_shard i (keyed_fn cmd) Finished)"
    and del_law: "serves_pool p \<Longrightarrow> pool_ok hash m p \<Longrightarrow> cmd_type cmd = Cmd_kDel \<Longrightarrow> home_ok p home \<Longrightarrow>
      \<exists>t. run th p cmd home = Some t \<and> task_ok (shard_ok hash (pool_size p) m) (pool_size p) is_count t \<and>
        (\<forall>clks. deletes hash m (cmd_args cmd) t clks p)"
    and keyless_law: "serves_pool p \<Longrightarrow> pool_ok hash m p \<Longrightarrow> keyless cmd \<Longrightarrow> home_ok p home \<Longrightarrow>
      run th p cmd home = keyless_task p cmd"
begin

lemma replies:
  assumes pool: "serves_pool p" "pool_ok hash m p" and cmd: "valid_command cmd" "cmd_fits m cmd" and home: "home_ok p home"
    and room: "reply_room B m cmd"
  shows "\<exists>t. run th p cmd home = Some t \<and>
    task_ok (shard_ok hash (pool_size p) m) (pool_size p) (reply_within B 0) t"
  using cmd(1)
proof (cases rule: command_cases)
  case keyed
  have "unat m \<le> B" using room by (simp add: reply_room_def)
  with keyed_law [OF pool keyed cmd(1) home, of th] keyed_ok [OF keyed cmd] show ?thesis by blast
next
  case del
  obtain t where "run th p cmd home = Some t" "task_ok (shard_ok hash (pool_size p) m) (pool_size p) is_count t"
    using del_law [OF pool del home] by blast
  moreover have "reply_within B 0 r" if "is_count r" for r using that by (auto simp: is_count_def)
  ultimately show ?thesis using task_ok_mono by blast
next
  case keyless
  then show ?thesis using keyless_within [OF keyless cmd(1) room] keyless_law [OF pool keyless home] by simp
qed

lemma runs:
  assumes "serves_pool p" "pool_ok hash m p" and "valid_command cmd" "cmd_fits m cmd" and "home_ok p home"
  shows "\<exists>t. run th p cmd home = Some t \<and> (\<forall>clks. \<exists>r p'. run_task t clks p = Some (r, p') \<and>
    well_typed r \<and> pool_ok hash m p' \<and> same_threads p p')"
proof -
  obtain B where "reply_room B m cmd" using reply_room_exists by blast
  from replies [OF assms this, of th] obtain t where t: "run th p cmd home = Some t"
      "task_ok (shard_ok hash (pool_size p) m) (pool_size p) well_typed t"
    using task_ok_mono reply_within_well_typed by blast
  with run_task_ok [OF t(2) assms(2) refl] show ?thesis by blast
qed

lemma keyed_runs:
  assumes "serves_pool p" "pool_ok hash m p" and "keyed cmd" "valid_command cmd" "cmd_fits m cmd" and "home_ok p home"
  shows "\<exists>t i. run th p cmd home = Some t \<and>
    getShardIndex hash (hd (cmd_args cmd)) (pool_size p) = Some i \<and> unat i < length (pool_view p) \<and>
    (\<forall>clks. \<exists>p'. run_task t clks p = Some (fst (spec_keyed (unat m) cmd (clks 0) (pool_view p ! unat i)), p') \<and>
      pool_ok hash m p' \<and> same_threads p p' \<and>
      pool_view p' = (pool_view p)[unat i := snd (spec_keyed (unat m) cmd (clks 0) (pool_view p ! unat i))])"
proof -
  obtain i where i: "getShardIndex hash (hd (cmd_args cmd)) (pool_size p) = Some i"
      "run th p cmd home = Some (run_on_shard i (keyed_fn cmd) Finished)"
    using keyed_law [OF assms(1-4,6), of th] by blast
  have "unat i < length (pool_view p)"
    using getShardIndex_less [OF i(1)] pool_okD(1) [OF assms(2)] by (simp add: word_less_nat_alt)
  with i run_keyed [OF assms(2-5) i(1)] show ?thesis by metis
qed

end

text \<open>Two executors that satisfy the contract give the same reply and leave the same entries, on whatever
  threads and with whatever home shards they are used.\<close>

locale executor_pair =
  first: executor_contract hash serves1 run1 + second: executor_contract hash serves2 run2
  for hash serves1 run1 serves2 run2
begin

lemma same_results:
  assumes "serves1 p" "serves2 p" "pool_ok hash m p" and cmd: "valid_command cmd" "cmd_fits m cmd" and "home_ok p home" "home_ok p home'"
  shows "\<exists>t t'. run1 th p cmd home = Some t \<and> run2 th' p cmd home' = Some t' \<and>
    (\<forall>clks. \<exists>r q q'. run_task t clks p = Some (r, q) \<and> run_task t' clks p = Some (r, q') \<and> pool_view q = pool_view q')"
  using cmd(1)
proof (cases rule: command_cases)
  case keyed
  from first.keyed_runs [OF assms(1,3) keyed cmd assms(6), of th] second.keyed_runs [OF assms(2,3) keyed cmd assms(7), of th']
  show ?thesis by (metis option.inject)
next
  case del
  from first.del_law [OF assms(1,3) del assms(6), of th] second.del_law [OF assms(2,3) del assms(7), of th']
  show ?thesis unfolding deletes_def by metis
next
  case keyless
  from first.runs [OF assms(1,3) cmd assms(6), of th] show ?thesis
    unfolding first.keyless_law [OF assms(1,3) keyless assms(6)] second.keyless_law [OF assms(2,3) keyless assms(7)] by metis
qed

end

subsection \<open>The executors of the server\<close>

interpretation single: executor_contract hash "\<lambda>p. pool_size p = 1" execute_single_shard for hash
proof unfold_locales
  fix p m cmd home th
  assume p: "pool_size p = 1" "pool_ok hash m p" and home: "home_ok p home"
  show "\<exists>i. getShardIndex hash (hd (cmd_args cmd)) (pool_size p) = Some i \<and>
      execute_single_shard th p cmd home = Some (run_on_shard i (keyed_fn cmd) Finished)" if "keyed cmd"
    using single_keyed [OF p(2) that] p(1) by (simp add: getShardIndex_def)
  show "\<exists>t. execute_single_shard th p cmd home = Some t \<and> task_ok (shard_ok hash (pool_size p) m) (pool_size p) is_count t \<and>
      (\<forall>clks. deletes hash m (cmd_args cmd) t clks p)" if "cmd_type cmd = Cmd_kDel"
    using single_del_ok [OF p(2) that, of th home] deletes_one_shard [OF p(2) that p(1), of th home] by auto
  show "execute_single_shard th p cmd home = keyless_task p cmd" if "keyless cmd" by (rule variants_keyless(1) [OF p(2) that home])
qed

interpretation multi: executor_contract hash "\<lambda>p. True" "execute_multi_shard hash" for hash
proof unfold_locales
  fix p m cmd home th
  assume p: "pool_ok hash m p" and home: "home_ok p home"
  show "\<exists>i. getShardIndex hash (hd (cmd_args cmd)) (pool_size p) = Some i \<and>
      execute_multi_shard hash th p cmd home = Some (run_on_shard i (keyed_fn cmd) Finished)" if "keyed cmd" "valid_command cmd"
    using multi_keyed [OF p that home] getShardIndex_total [OF pool_okD(2) [OF p], of hash "hd (cmd_args cmd)"] by blast
  show "\<exists>t. execute_multi_shard hash th p cmd home = Some t \<and> task_ok (shard_ok hash (pool_size p) m) (pool_size p) is_count t \<and>
      (\<forall>clks. deletes hash m (cmd_args cmd) t clks p)" if "cmd_type cmd = Cmd_kDel"
    using multi_del_ok [OF p that home, of th] deletes_multi [OF p that home, of th] by auto
  show "execute_multi_shard hash th p cmd home = keyless_task p cmd" if "keyless cmd" by (rule variants_keyless(2) [OF p that home])
qed

interpretation exec: executor_contract hash "\<lambda>p. True" "execute hash" for hash
proof unfold_locales
  fix p m cmd home th
  assume p: "pool_ok hash m p" and home: "home_ok p home"
  show "\<exists>i. getShardIndex hash (hd (cmd_args cmd)) (pool_size p) = Some i \<and>
      execute hash th p cmd home = Some (run_on_shard i (keyed_fn cmd) Finished)" if "keyed cmd" "valid_command cmd"
    using single.keyed_law [OF _ p that home] multi.keyed_law [OF TrueI p that home] by (simp add: execute_eq)
  show "\<exists>t. execute hash th p cmd home = Some t \<and> task_ok (shard_ok hash (pool_size p) m) (pool_size p) is_count t \<and>
      (\<forall>clks. deletes hash m (cmd_args cmd) t clks p)" if "cmd_type cmd = Cmd_kDel"
    using single.del_law [OF _ p that home] multi.del_law [OF TrueI p that home] by (simp add: execute_eq)
  show "execute hash th p cmd home = keyless_task p cmd" if "keyless cmd"
    using single.keyless_law [OF _ p that home] multi.keyless_law [OF TrueI p that home] by (simp add: execute_eq)
qed

interpretation variants: executor_pair hash "\<lambda>p. pool_size p = 1" execute_single_shard "\<lambda>p. True" "execute_multi_shard hash" for hash
  by unfold_locales

interpretation placements: executor_pair hash "\<lambda>p. True" "execute hash" "\<lambda>p. True" "execute hash" for hash
  by unfold_locales

lemmas execute_keyed = exec.keyed_law [OF TrueI]
lemmas execute_del = exec.del_law [OF TrueI]
lemmas execute_keyless = exec.keyless_law [OF TrueI]
lemmas execute_replies = exec.replies [OF TrueI]

end
