(* ===== verification/Executor_Properties.thy ===== *)
theory Executor_Properties
  imports Executor_Contract
begin

section \<open>What executing a command does to the pool\<close>

text \<open>
  The guarantees of the command executor of \<open>src/commandExecutor.cpp\<close>, from the facts of the interface
  in \<open>Executor_Contract\<close>: safety of every command, the reply and effect of each, independence of
  placement and of the variant of the executor, and the limits of reading numbers.
\<close>

subsection \<open>Properties\<close>

text \<open>C18: Executing any command that passed argument checking, from any thread and with any home shard,
  returns a reply whose tag and data agree: no out-of-range argument, failed \<open>assert\<close>, dead iterator
  or runaway loop. Afterwards every shard is still well formed, within its budget, and holds only
  keys that the router maps to it.\<close>

theorem execute_safe:
  assumes "pool_ok hash m p" and "valid_command cmd" "cmd_fits m cmd" and "home_ok p home"
  shows "\<exists>t. execute hash th p cmd home = Some t \<and> (\<forall>clks. \<exists>r p'. run_task t clks p = Some (r, p') \<and>
    well_typed r \<and> pool_ok hash m p' \<and> same_threads p p')"
  by (rule exec.runs [OF TrueI assms])

theorem execute_safe_witness:
  "\<exists>t. execute (\<lambda>k. of_nat (length k)) 7 (new_pool 3 64 False)
      \<lparr>cmd_type = Cmd_kSet, cmd_args = [''k'', ''v'', ''EX'', ''10'']\<rparr> (Some 2) = Some t \<and>
    (\<forall>clks. \<exists>r p'. run_task t clks (new_pool 3 64 False) = Some (r, p') \<and> well_typed r \<and>
      pool_ok (\<lambda>k. of_nat (length k)) 64 p' \<and> same_threads (new_pool 3 64 False) p')"
proof -
  have "home_ok (new_pool 3 64 False) (Some 2)"
    by (simp add: home_ok_def new_pool_size)
  from execute_safe [OF new_pool_ok _ _ this, of "\<lparr>cmd_type = Cmd_kSet, cmd_args = [''k'', ''v'', ''EX'', ''10'']\<rparr>"]
  show ?thesis by (simp add: valid_command_def cmd_fits_def)
qed

text \<open>C11: \<open>GET\<close>, \<open>SET\<close> with its options, \<open>EXPIRE\<close> and \<open>TTL\<close> act on exactly one shard, the one the router
  assigns to the key, with exactly the reply and the effect of the abstract cache, and leave every
  other shard untouched. The path taken (direct or posted) makes no difference.\<close>

theorem keyed_commands_refine_spec:
  assumes "pool_ok hash m p" and "keyed cmd" "valid_command cmd" "cmd_fits m cmd" and "home_ok p home"
  shows "\<exists>t i. execute hash th p cmd home = Some t \<and>
    getShardIndex hash (hd (cmd_args cmd)) (pool_size p) = Some i \<and>
    (\<forall>clks. \<exists>p'. run_task t clks p = Some (fst (spec_keyed (unat m) cmd (clks 0) (pool_view p ! unat i)), p') \<and>
      pool_ok hash m p' \<and>
      pool_view p' = (pool_view p)[unat i := snd (spec_keyed (unat m) cmd (clks 0) (pool_view p ! unat i))])"
  using exec.keyed_runs [OF TrueI assms, of th] by blast

theorem keyed_commands_refine_spec_witness:
  "\<exists>t i. execute (\<lambda>k. of_nat (length k)) 0 (new_pool 2 64 False) \<lparr>cmd_type = Cmd_kSet, cmd_args = [''key'', ''v'']\<rparr> None = Some t \<and>
    (\<forall>clks. \<exists>p'. run_task t clks (new_pool 2 64 False) = Some (SimpleString ''OK'', p') \<and>
      pool_view p' = [[], [(''key'', ''v'', None)]])"
proof -
  let ?cmd = "\<lparr>cmd_type = Cmd_kSet, cmd_args = [''key'', ''v'']\<rparr>" and ?p = "new_pool 2 64 False"
  have two: "replicate 2 x = [x, x]" for x :: "entry list" by (simp add: numeral_2_eq_2)
  have view: "pool_view ?p = [[], []]" "pool_size ?p = 2"
    by (simp_all add: new_pool_view new_pool_size max_def two)
  have "home_ok ?p None" by (simp add: home_ok_def)
  from keyed_commands_refine_spec [OF new_pool_ok _ _ _ this, of ?cmd "\<lambda>k. of_nat (length k)" 0] show ?thesis
    by (simp add: keyed_def valid_command_def cmd_fits_def getShardIndex_def view spec_keyed_def spec_set_command_def
        spec_set_def drop_key_def entry_size_def) blast
qed

text \<open>Where a session lives makes no difference: two executions of the same command from the same
  state, on whatever threads and with whatever home shards (hence with the direct path or without
  it), give the same reply and leave the same entries in every shard.\<close>

theorem execute_placement_independent:
  assumes "pool_ok hash m p" and "valid_command cmd" "cmd_fits m cmd" and "home_ok p home" "home_ok p home'"
  shows "\<exists>t t'. execute hash th p cmd home = Some t \<and> execute hash th' p cmd home' = Some t' \<and>
    (\<forall>clks. \<exists>r q q'. run_task t clks p = Some (r, q) \<and> run_task t' clks p = Some (r, q') \<and> pool_view q = pool_view q')"
  by (rule placements.same_results [OF TrueI TrueI assms])

theorem execute_placement_independent_witness:
  "\<exists>t t'. execute (\<lambda>k. of_nat (length k)) 10 started_pool
        \<lparr>cmd_type = Cmd_kDel, cmd_args = [''a'', ''bb'', ''a'']\<rparr> (Some 0) = Some t \<and>
      execute (\<lambda>k. of_nat (length k)) 10 started_pool
        \<lparr>cmd_type = Cmd_kDel, cmd_args = [''a'', ''bb'', ''a'']\<rparr> None = Some t' \<and>
    (\<forall>clks. \<exists>r q q'. run_task t clks started_pool = Some (r, q) \<and>
      run_task t' clks started_pool = Some (r, q') \<and> pool_view q = pool_view q')"
proof -
  have "home_ok started_pool (Some 0)" "home_ok started_pool None" by (simp_all add: home_ok_def)
  from execute_placement_independent [OF started_pool_ok _ _ this]
  show ?thesis by (simp add: valid_command_def cmd_fits_def kMaxArgs_def)
qed

text \<open>C20: \<open>DEL\<close> answers the number of distinct given keys that were stored, whichever shards they live
  in and however often a key is repeated, and removes exactly these keys from the whole pool.\<close>

theorem del_command_exact:
  assumes "pool_ok hash m p" and "cmd_type cmd = Cmd_kDel" and "home_ok p home"
  shows "\<exists>t. execute hash th p cmd home = Some t \<and> (\<forall>clks. \<exists>p'.
    run_task t clks p = Some (IntegerValue (of_nat (card (set (cmd_args cmd) \<inter> stored_keys p))), p') \<and>
    pool_ok hash m p' \<and> pool_view p' = map (filter (\<lambda>e. fst e \<notin> set (cmd_args cmd))) (pool_view p))"
  using execute_del [OF assms, of th] unfolding deletes_def drop_keys_def by blast

theorem del_command_exact_witness:
  "\<exists>t. execute (\<lambda>k. 0) 0 (one_shard_pool 64 [CallSet ''a'' ''1'' None 0, CallSet ''b'' ''2'' None 0])
      \<lparr>cmd_type = Cmd_kDel, cmd_args = [''a'', ''c'', ''a'']\<rparr> None = Some t \<and>
    (\<forall>clks. \<exists>p'. run_task t clks (one_shard_pool 64 [CallSet ''a'' ''1'' None 0, CallSet ''b'' ''2'' None 0]) =
      Some (IntegerValue 1, p') \<and> pool_view p' = [[(''b'', ''2'', None)]])"
proof -
  let ?cs = "[CallSet ''a'' ''1'' None 0, CallSet ''b'' ''2'' None 0]" and ?p = "one_shard_pool 64"
  have fits: "list_all (call_fits (unat (64 :: size_t))) ?cs" by simp
  have view: "pool_view (?p ?cs) = [[(''b'', ''2'', None), (''a'', ''1'', None)]]"
    by (simp add: one_shard_pool_view [OF fits] spec_eval)
  let ?cmd = "\<lparr>cmd_type = Cmd_kDel, cmd_args = [''a'', ''c'', ''a'']\<rparr>"
  have "set (cmd_args ?cmd) \<inter> stored_keys (?p ?cs) = {''a''}"
    by (auto simp: stored_keys_def view entry_keys_def)
  then have one: "of_nat (card (set (cmd_args ?cmd) \<inter> stored_keys (?p ?cs))) = (1 :: int64)" by simp
  have rest: "map (filter (\<lambda>e. fst e \<notin> set (cmd_args ?cmd))) (pool_view (?p ?cs)) = [[(''b'', ''2'', None)]]"
    by (simp add: view)
  have "cmd_type ?cmd = Cmd_kDel" "home_ok (?p ?cs) None" by (simp_all add: home_ok_def)
  from del_command_exact [OF one_shard_pool_ok [OF fits] this, of "\<lambda>k. 0" 0]
  show ?thesis unfolding one rest by blast
qed

text \<open>C21: With one shard, the specialised executor \<open>execute_single_shard\<close> agrees with the general
  \<open>execute_multi_shard\<close> on every command: same reply, same entries afterwards.\<close>

theorem single_shard_equals_multi_shard:
  assumes "pool_ok hash m p" and "pool_size p = 1" and "valid_command cmd" "cmd_fits m cmd" and "home_ok p home"
  shows "\<exists>t t'. execute_single_shard th p cmd home = Some t \<and> execute_multi_shard hash th p cmd home = Some t' \<and>
    (\<forall>clks. \<exists>r q q'. run_task t clks p = Some (r, q) \<and> run_task t' clks p = Some (r, q') \<and> pool_view q = pool_view q')"
  by (rule variants.same_results [OF assms(2) TrueI assms(1,3,4,5,5)])

theorem single_shard_equals_multi_shard_witness:
  "\<exists>t t'. execute_single_shard 0 (new_pool 1 64 False) \<lparr>cmd_type = Cmd_kDel, cmd_args = [''a'', ''b'']\<rparr> (Some 0) = Some t \<and>
    execute_multi_shard (\<lambda>k. of_nat (length k)) 0 (new_pool 1 64 False)
      \<lparr>cmd_type = Cmd_kDel, cmd_args = [''a'', ''b'']\<rparr> (Some 0) = Some t' \<and>
    (\<forall>clks. \<exists>r q q'. run_task t clks (new_pool 1 64 False) = Some (r, q) \<and>
      run_task t' clks (new_pool 1 64 False) = Some (r, q') \<and> pool_view q = pool_view q')"
proof -
  have "pool_size (new_pool 1 64 False) = 1" by (simp add: new_pool_size)
  moreover from this have "home_ok (new_pool 1 64 False) (Some 0)" by (simp add: home_ok_def)
  ultimately show ?thesis
    using single_shard_equals_multi_shard [OF new_pool_ok, of 1 64 False "\<lparr>cmd_type = Cmd_kDel, cmd_args = [''a'', ''b'']\<rparr>"
        "Some 0" 0 "\<lambda>k. of_nat (length k)"]
    by (simp add: valid_command_def cmd_fits_def kMaxArgs_def)
qed

text \<open>A value stored with \<open>SET\<close> by one session is what a later \<open>GET\<close> of any other session, on any
  thread, answers, provided key and value fit the budget of a shard.\<close>

theorem set_then_get:
  assumes "pool_ok hash m p" and "length k + length v \<le> unat m" and "unat m + length k + length v < 2 ^ 64"
    and "home_ok p home" "home_ok p home'"
  shows "\<exists>t p1 t' p2.
    execute hash th p \<lparr>cmd_type = Cmd_kSet, cmd_args = [k, v]\<rparr> home = Some t \<and>
    run_task t clks p = Some (SimpleString ''OK'', p1) \<and>
    execute hash th' p1 \<lparr>cmd_type = Cmd_kGet, cmd_args = [k]\<rparr> home' = Some t' \<and>
    run_task t' clks' p1 = Some (BulkString v, p2)"
proof -
  let ?set = "\<lparr>cmd_type = Cmd_kSet, cmd_args = [k, v]\<rparr>" and ?get = "\<lparr>cmd_type = Cmd_kGet, cmd_args = [k]\<rparr>"
  have cmds: "keyed ?set" "valid_command ?set" "cmd_fits m ?set" "keyed ?get" "valid_command ?get" "cmd_fits m ?get"
    using assms(3) by (simp_all add: keyed_def valid_command_def cmd_fits_def)
  obtain t i p1 where t: "execute hash th p ?set home = Some t" "getShardIndex hash k (pool_size p) = Some i"
      "unat i < length (pool_view p)" "run_task t clks p = Some (SimpleString ''OK'', p1)" "pool_ok hash m p1"
      "same_threads p p1" "pool_view p1 = (pool_view p)[unat i := spec_set (unat m) k v None (pool_view p ! unat i)]"
    using exec.keyed_runs [OF TrueI assms(1) cmds(1-3) assms(4), of th] by (fastforce simp: spec_keyed_def spec_set_command_def)
  have p1: "pool_size p1 = pool_size p" "home_ok p1 home'"
    using same_threads_size [OF t(6)] assms(5) by (cases home'; simp add: home_ok_def)+
  have "fst (spec_get k (clks' 0 0) (pool_view p1 ! unat i)) = Some v"
    using t(3,7) assms(2) by (simp add: spec_set_def spec_get_def entry_size_def is_expired_def)
  moreover obtain t' p2 where "execute hash th' p1 ?get home' = Some t'"
      "run_task t' clks' p1 = Some (fst (spec_keyed (unat m) ?get (clks' 0) (pool_view p1 ! unat i)), p2)"
    using exec.keyed_runs [OF TrueI t(5) cmds(4-6) p1(2), of th'] t(2) by (fastforce simp: p1(1))
  ultimately show ?thesis using t(1,4) by (simp add: spec_keyed_def)
qed

theorem set_then_get_witness:
  "\<exists>t p1 t' p2.
    execute (\<lambda>k. of_nat (length k)) 0 (new_pool 4 64 False) \<lparr>cmd_type = Cmd_kSet, cmd_args = [''key'', ''v'']\<rparr> (Some 1) = Some t \<and>
    run_task t (\<lambda>i j. 0) (new_pool 4 64 False) = Some (SimpleString ''OK'', p1) \<and>
    execute (\<lambda>k. of_nat (length k)) 9 p1 \<lparr>cmd_type = Cmd_kGet, cmd_args = [''key'']\<rparr> None = Some t' \<and>
    run_task t' (\<lambda>i j. 5) p1 = Some (BulkString ''v'', p2)"
proof -
  have "home_ok (new_pool 4 64 False) (Some 1)" "home_ok (new_pool 4 64 False) None"
    by (simp_all add: home_ok_def new_pool_size max_def)
  from set_then_get [OF new_pool_ok _ _ this, of "''key''" "''v''" "\<lambda>k. of_nat (length k)" 0 "\<lambda>i j. 0" 9 "\<lambda>i j. 5"]
  show ?thesis by simp
qed

lemma fold_stats:
  "fold (\<lambda>w st. add_stats st (get_stats (shard w))) ws acc =
    \<lparr>stat_used_payload_bytes = stat_used_payload_bytes acc + (\<Sum>w\<leftarrow>ws. used_payload_bytes (shard w)),
     stat_key_count = stat_key_count acc + (\<Sum>w\<leftarrow>ws. stat_key_count (get_stats (shard w))),
     stat_evictions = stat_evictions acc + (\<Sum>w\<leftarrow>ws. evictions (shard w)),
     stat_expired = stat_expired acc + (\<Sum>w\<leftarrow>ws. expired_count (shard w)),
     stat_max_memory_bytes = stat_max_memory_bytes acc + (\<Sum>w\<leftarrow>ws. max_memory_bytes (shard w))\<rparr>"
  by (induction ws arbitrary: acc) (simp_all add: add_stats_def get_stats_def add.assoc)

lemma fold_workers:
  "n \<le> length ws \<Longrightarrow> n < 2 ^ 64 \<Longrightarrow>
    fold (\<lambda>i. f (ws ! unat i)) (map (of_nat :: nat \<Rightarrow> size_t) [0..<n]) acc = fold f (take n ws) acc"
  by (induction n) (simp_all add: take_Suc_conv_app_nth unat64_of_nat)

lemma sum_list_of_nat: "(\<Sum>x\<leftarrow>xs. of_nat (f x) :: 64 word) = of_nat (\<Sum>x\<leftarrow>xs. f x)"
  by (induction xs) simp_all

text \<open>C29: \<open>INFO\<close> (with section \<open>default\<close>, \<open>memory\<close> or \<open>all\<close> in any case, or none) changes nothing and reports
  the payload bytes and the number of keys stored in the whole pool, the sums of the shards'
  counters, and the number of shards times the budget, all modulo \<open>2 ^ 64\<close>.\<close>

theorem info_exact:
  assumes "pool_ok hash m p" and "home_ok p home" and "cmd_type cmd = Cmd_kInfo"
    and "cmd_args cmd = [] \<or> (\<exists>sec. cmd_args cmd = [sec] \<and> to_uppercase sec \<in> {''DEFAULT'', ''MEMORY'', ''ALL''})"
  shows "\<exists>t. execute hash th p cmd home = Some t \<and> (\<forall>clks. run_task t clks p = Some (BulkString (info_text
    \<lparr>stat_used_payload_bytes = of_nat (\<Sum>es\<leftarrow>pool_view p. payload es),
     stat_key_count = of_nat (\<Sum>es\<leftarrow>pool_view p. length es),
     stat_evictions = (\<Sum>w\<leftarrow>workers p. evictions (shard w)),
     stat_expired = (\<Sum>w\<leftarrow>workers p. expired_count (shard w)),
     stat_max_memory_bytes = of_nat (length (workers p)) * m\<rparr>), p))"
proof -
  let ?is = "map (of_nat :: nat \<Rightarrow> size_t) [0..<unat (pool_size p)]" and ?ws = "workers p"
  have ok: "wf_shard (shard w)" "max_memory_bytes (shard w) = m" if "w \<in> set ?ws" for w
    using that assms(1) by (auto simp: pool_ok_def shard_ok_def in_set_conv_nth)
  have words: "used_payload_bytes (shard w) = of_nat (payload (entries (shard w)))"
      "stat_key_count (get_stats (shard w)) = of_nat (length (entries (shard w)))" if "w \<in> set ?ws" for w
    using wf_coreD(5) [OF wf_shardD(1) [OF ok(1) [OF that]]] get_stats_exact(2) [OF ok(1) [OF that]]
    by (simp_all add: wf_used_def)
  have "(\<Sum>w\<leftarrow>?ws. used_payload_bytes (shard w)) = of_nat (\<Sum>es\<leftarrow>pool_view p. payload es)"
    by (simp add: pool_view_def comp_def words(1) cong: map_cong flip: sum_list_of_nat)
  moreover have "(\<Sum>w\<leftarrow>?ws. stat_key_count (get_stats (shard w))) = of_nat (\<Sum>es\<leftarrow>pool_view p. length es)"
    by (simp add: pool_view_def comp_def words(2) cong: map_cong flip: sum_list_of_nat)
  moreover have "(\<Sum>w\<leftarrow>?ws. max_memory_bytes (shard w)) = of_nat (length ?ws) * m"
    by (simp add: ok(2) sum_list_triv cong: map_cong)
  moreover have "fold (\<lambda>i st. add_stats st (get_stats (shard (?ws ! unat i)))) ?is zero_stats =
      fold (\<lambda>w st. add_stats st (get_stats (shard w))) ?ws zero_stats"
    using fold_workers [of "length ?ws" ?ws "\<lambda>w st. add_stats st (get_stats (shard w))" zero_stats]
      pool_okD(1) [OF assms(1)] unat64_less [of "pool_size p"] by simp
  ultimately have "run_task (info_loop ?is zero_stats) clks p = Some (BulkString (info_text
    \<lparr>stat_used_payload_bytes = of_nat (\<Sum>es\<leftarrow>pool_view p. payload es),
     stat_key_count = of_nat (\<Sum>es\<leftarrow>pool_view p. length es),
     stat_evictions = (\<Sum>w\<leftarrow>?ws. evictions (shard w)), stat_expired = (\<Sum>w\<leftarrow>?ws. expired_count (shard w)),
     stat_max_memory_bytes = of_nat (length ?ws) * m\<rparr>), p)" for clks
    unfolding run_info_loop [OF assms(1) info_indices] by (simp only: fold_stats) (simp add: zero_stats_def)
  moreover have "processInfoCommand cmd p = info_loop ?is zero_stats"
    using assms(4) by (auto simp: processInfoCommand_def)
  moreover have "execute hash th p cmd home = Some (processInfoCommand cmd p)"
    using execute_keyless [OF assms(1) _ assms(2)] assms(3) by (simp add: keyless_def keyless_task_def)
  ultimately show ?thesis by simp
qed

theorem info_exact_witness:
  "\<exists>t. execute (\<lambda>k. 0) 0 (new_pool 1 64 False) \<lparr>cmd_type = Cmd_kInfo, cmd_args = []\<rparr> None = Some t \<and>
    (\<forall>clks. run_task t clks (new_pool 1 64 False) = Some (BulkString (info_text
      \<lparr>stat_used_payload_bytes = 0, stat_key_count = 0, stat_evictions = 0, stat_expired = 0,
       stat_max_memory_bytes = 64\<rparr>), new_pool 1 64 False))"
proof -
  have "home_ok (new_pool 1 64 False) None" by (simp add: home_ok_def)
  from info_exact [OF new_pool_ok this, of "\<lparr>cmd_type = Cmd_kInfo, cmd_args = []\<rparr>" "\<lambda>k. 0" 0] show ?thesis
    by (simp add: new_pool_view) (simp add: new_pool_def new_worker_def new_shard_def)
qed

text \<open>C30: \<open>CONFIG GET\<close> answers exactly the supported settings whose name matches the pattern in lower case,
  as a flat array of names and values in table order; any other subcommand is an error. The
  pattern loop always ends.\<close>

theorem config_get_exact:
  "processConfigCommand \<lparr>cmd_type = Cmd_kConfig, cmd_args = [sub, pat]\<rparr> = Some (
     if to_uppercase sub = ''GET'' then ArrayValue (concat (map (\<lambda>(name, v).
       if glob (to_lowercase pat) name then [BulkString name, BulkString v] else []) kSupportedConfigValues))
     else ErrorValue ''Unknown subcommand'')"
  by (simp add: config_eq)

lemma digit_not_space: "is_digit c \<Longrightarrow> \<not> is_space c"
  by (auto simp: is_digit_def is_space_def Let_def)

lemma takeWhile_digits:
  "junk = [] \<or> \<not> is_digit (hd junk) \<Longrightarrow> takeWhile is_digit (nat_digits n @ junk) = nat_digits n"
  using nat_digits_is_digit by (cases junk) (auto simp: takeWhile_append2)

lemma nat_digits_Cons: "\<exists>c cs. nat_digits n = c # cs \<and> is_digit c"
  using nat_digits_not_Nil [of n] nat_digits_is_digit [of _ n] by (cases "nat_digits n") auto

lemma split_sign_digits: "split_sign (dropWhile is_space (nat_digits n @ junk)) = (False, nat_digits n @ junk)"
proof -
  obtain c cs where c: "nat_digits n = c # cs" "is_digit c" using nat_digits_Cons by blast
  moreover have "c \<noteq> CHR ''-''" "c \<noteq> CHR ''+''" using c(2) by auto
  ultimately show ?thesis by (simp add: split_sign_def digit_not_space)
qed

lemma stoull_decimal:
  assumes "junk = [] \<or> \<not> is_digit (hd junk)"
  shows "stoull (decimal i @ junk) = (if \<bar>i\<bar> < 2 ^ 64 then Some (word_of_int i) else None)"
proof (cases "i < 0")
  case True
  have "\<not> is_space (CHR ''-'')" by (simp add: is_space_def)
  with True takeWhile_digits [OF assms, of "nat (- i)"] show ?thesis
    by (simp add: stoull_def decimal_def split_sign_def Let_def le_nat_iff of_nat_nat)
next
  case False
  with takeWhile_digits [OF assms, of "nat i"] show ?thesis
    by (simp add: stoull_def decimal_def split_sign_digits Let_def le_nat_iff of_nat_nat)
qed

text \<open>\<open>std::stoull\<close> as \<open>SET ... EX\<close> and \<open>EXPIRE\<close> use it reads a decimal number off the front of the
  argument and ignores what follows. A number that does not fit 64 bits is rejected, but a
  negative number is accepted and wraps around.\<close>

theorem stoull_reads_prefix:
  assumes "junk = [] \<or> \<not> is_digit (hd junk)"
  shows "stoull (decimal i @ junk) = (if \<bar>i\<bar> < 2 ^ 64 then Some (word_of_int i) else None)"
  by (rule stoull_decimal [OF assms])

theorem stoull_reads_prefix_witness:
  "stoull (decimal (- 5) @ ''abc'') = Some (- 5)"
  using stoull_reads_prefix [of "''abc''" "- 5"] by (simp add: is_digit_def)

text \<open>\<open>SET k v EX -1\<close> is answered with \<open>OK\<close>, but the deadline lies in the past, so the value can
  never be read.\<close>

theorem set_negative_expiry_stores_dead_key:
  assumes "shard_ok hash n m i s" and "getShardIndex hash k n = Some i"
    and "length k + length v \<le> unat m" and "unat m + length k + length v < 2 ^ 64"
    and "0 \<le> clk 0" and "clk 0 < 2 ^ 63" and "clk 0 \<le> clk' 0"
  shows "\<exists>s1 s2. processSetCommand \<lparr>cmd_type = Cmd_kSet, cmd_args = [k, v, ''EX'', ''-1'']\<rparr> clk s = Some (SimpleString ''OK'', s1) \<and>
    map_of (entries s1) k = Some (v, Some (clk 0 - nanos_per_second)) \<and>
    processGetCommand \<lparr>cmd_type = Cmd_kGet, cmd_args = [k]\<rparr> clk' s1 = Some (NullBulkString, s2)"
proof -
  let ?set = "\<lparr>cmd_type = Cmd_kSet, cmd_args = [k, v, ''EX'', ''-1'']\<rparr>"
  let ?get = "\<lparr>cmd_type = Cmd_kGet, cmd_args = [k]\<rparr>"
  have "decimal (- 1) = ''-1''" and ex: "to_uppercase ''EX'' = ''EX''" by code_simp+
  then have minus: "stoull ''-1'' = Some (- 1)" using stoull_decimal [of "[]" "- 1"] by simp
  have "to_int64 (uint (- 1 :: size_t)) = - 1" by (simp add: to_int64_def)
  then have dl: "deadline (clk 0) (- 1) = clk 0 - nanos_per_second"
    using assms(5,6) by (simp add: deadline_def to_int64_id nanos_per_second_def)
  obtain s1 where s1: "processSetCommand ?set clk s = Some (fst (spec_keyed (unat m) ?set clk (entries s)), s1)"
      "shard_ok hash n m i s1" "entries s1 = snd (spec_keyed (unat m) ?set clk (entries s))"
    using processSet_refines [OF assms(1), of ?set clk] assms(2,4) by (auto simp: valid_command_def cmd_fits_def)
  have es: "entries s1 = spec_set (unat m) k v (Some (clk 0 - nanos_per_second)) (entries s)"
    using s1(3) by (simp add: spec_keyed_def spec_set_command_def minus ex dl)
  then have look: "map_of (entries s1) k = Some (v, Some (clk 0 - nanos_per_second))"
    using assms(3) by (simp add: spec_set_def entry_size_def)
  have "fst (spec_get k (clk' 0) (entries s1)) = None"
    using assms(7) by (simp add: spec_get_def look is_expired_def nanos_per_second_def)
  then have "\<exists>s2. processGetCommand ?get clk' s1 = Some (NullBulkString, s2)"
    using processGet_refines [OF s1(2), of ?get k clk' 0] by (auto simp: spec_keyed_def)
  with s1(1) look show ?thesis
    by (simp add: spec_keyed_def spec_set_command_def minus ex)
qed

theorem set_negative_expiry_stores_dead_key_witness:
  "\<exists>s1 s2. processSetCommand \<lparr>cmd_type = Cmd_kSet, cmd_args = [''k'', ''v'', ''EX'', ''-1'']\<rparr> (\<lambda>j. 5) (new_shard 64) =
      Some (SimpleString ''OK'', s1) \<and>
    map_of (entries s1) ''k'' = Some (''v'', Some (5 - nanos_per_second)) \<and>
    processGetCommand \<lparr>cmd_type = Cmd_kGet, cmd_args = [''k'']\<rparr> (\<lambda>j. 6) s1 = Some (NullBulkString, s2)"
proof -
  have "shard_ok (\<lambda>k. 0) 1 64 0 (new_shard 64)"
    using new_shard_wf [of 64] by (simp add: shard_ok_def) (simp add: new_shard_def)
  from set_negative_expiry_stores_dead_key [OF this, of "''k''" "''v''" "\<lambda>j. 5" "\<lambda>j. 6"] show ?thesis
    by (simp add: getShardIndex_def)
qed

end
