(* ===== verification/Resp_Parser.thy ===== *)
theory Resp_Parser
  imports Resp_Value
begin

section \<open>The streaming RESP parser\<close>

text \<open>
  \<open>src/respParser.cpp\<close>. The parser walks the buffer by index with an explicit stack of
  partially filled arrays. \<open>findCrlf\<close> is the scan for the end of a line (the sentinel
  \<open>numeric_limits<size_t>::max()\<close> is \<open>None\<close>), \<open>parseInt64Token\<close> the overflow-checked decimal
  reader on 64-bit words, \<open>attachValue\<close> the loop that closes finished arrays, and
  \<open>parse_loop\<close> the main loop, one \<open>parse_one\<close> per type byte. \<open>parse\<close> is the public entry
  point with its buffer and out parameter.

  What the parser accepts is stated and proved in \<open>Resp_Grammar\<close>.
\<close>

subsection \<open>Limits and results\<close>

definition kMaxBulkSize :: nat where "kMaxBulkSize = 16 * 1024 * 1024"
definition kMaxArrayLength :: nat where "kMaxArrayLength = 1 * 1024 * 1024"
definition kMaxNestingDepth :: nat where "kMaxNestingDepth = 4096"

declare kMaxBulkSize_def [resp_limits] kMaxArrayLength_def [resp_limits] kMaxNestingDepth_def [resp_limits]

datatype ParsingResult = Parse_kReady | Parse_kNeedMoreData | Parse_kError

record ArrayFrame =
  remaining :: nat
  elements :: "RespValue list"

text \<open>What \<open>parseImpl\<close> hands back: a value with the bytes consumed, or one of the two other
  results, for which \<open>consumed\<close> stays 0 and \<open>outValue\<close> is not written.\<close>

datatype outcome = Ready nat RespValue | NeedMoreData | Malformed

text \<open>One turn of the main loop: go on from a position with a stack, finish with a root value,
  or return early.\<close>

datatype turn = Advance nat "ArrayFrame list" | Root nat RespValue | Return outcome

subsection \<open>Lines and integers\<close>

function findCrlf_from :: "bytes \<Rightarrow> nat \<Rightarrow> nat option" where
  "findCrlf_from buf i =
     (if i + 1 < length buf then
        (if buf ! i = cr \<and> buf ! (i + 1) = lf then Some i else findCrlf_from buf (i + 1))
      else None)"
  by pat_completeness auto
termination
  by (relation "measure (\<lambda>(buf, i). length buf - i)") auto

declare findCrlf_from.simps [simp del]

definition findCrlf :: "bytes \<Rightarrow> nat \<Rightarrow> nat option" where
  "findCrlf buf start = (if length buf \<le> start then None else findCrlf_from buf start)"

definition kInt64Max :: uint64 where "kInt64Max = 2 ^ 63 - 1"
definition kInt64MinAbs :: uint64 where "kInt64MinAbs = kInt64Max + 1"

function int64_digits :: "bytes \<Rightarrow> nat \<Rightarrow> nat \<Rightarrow> uint64 \<Rightarrow> uint64 \<Rightarrow> uint64 option" where
  "int64_digits buf pos token_end limit acc =
     (if pos < token_end then
        (let c = buf ! pos in
         if \<not> is_digit c then None
         else let digit = of_nat (digit_val c) in
           if acc > (limit - digit) div 10 then None
           else int64_digits buf (pos + 1) token_end limit (acc * 10 + digit))
      else Some acc)"
  by pat_completeness auto
termination
  by (relation "measure (\<lambda>(buf, pos, token_end, limit, acc). token_end - pos)") auto

declare int64_digits.simps [simp del]

definition parseInt64Token :: "bytes \<Rightarrow> nat \<Rightarrow> nat \<Rightarrow> int64 option" where
  "parseInt64Token buf token_start token_end =
     (if token_end \<le> token_start then None
      else
        let sign = buf ! token_start;
            signed = (sign = CHR ''+'' \<or> sign = CHR ''-'');
            negative = (sign = CHR ''-'');
            pos = (if signed then token_start + 1 else token_start)
        in
          if signed \<and> token_end \<le> pos then None
          else
            let limit = (if negative then kInt64MinAbs else kInt64Max) in
            case int64_digits buf pos token_end limit 0 of
              None \<Rightarrow> None
            | Some acc \<Rightarrow>
                if \<not> negative then Some acc
                else if acc = kInt64MinAbs then Some (2 ^ 63)
                else Some (- acc))"

subsection \<open>Closing finished arrays\<close>

text \<open>\<open>--frame.remaining\<close> on \<open>size_t\<close>: it wraps at 0.\<close>

definition size_dec :: "nat \<Rightarrow> nat" where
  "size_dec n = (if n = 0 then 2 ^ 64 - 1 else n - 1)"

text \<open>The stack's top (\<open>stack.back()\<close>) is the head of the list. The result is the stack left
  and the root value, if the value completed it.\<close>

fun attachValue :: "RespValue \<Rightarrow> ArrayFrame list \<Rightarrow> ArrayFrame list \<times> RespValue option" where
  "attachValue current [] = ([], Some current)"
| "attachValue current (frame # stack) =
     (let frame' = frame\<lparr>elements := elements frame @ [current],
                         remaining := size_dec (remaining frame)\<rparr> in
      if 0 < remaining frame' then (frame' # stack, None)
      else attachValue (RespValue Type_kArray (VArray (elements frame'))) stack)"

definition attach_at :: "nat \<Rightarrow> RespValue \<Rightarrow> ArrayFrame list \<Rightarrow> turn" where
  "attach_at pos value stack =
     (case attachValue value stack of
        (stack', None) \<Rightarrow> Advance pos stack'
      | (stack', Some root) \<Rightarrow> Root pos root)"

subsection \<open>The switch on the type byte\<close>

definition case_line :: "char \<Rightarrow> bytes \<Rightarrow> nat \<Rightarrow> ArrayFrame list \<Rightarrow> turn" where
  "case_line type_byte buf pos stack =
     (case findCrlf buf pos of
        None \<Rightarrow> Return NeedMoreData
      | Some line_end \<Rightarrow>
          attach_at (line_end + 2)
            (RespValue (if type_byte = CHR ''+'' then Type_kSimpleString else Type_kError)
               (VString (take (line_end - pos) (drop pos buf)))) stack)"

definition case_integer :: "bytes \<Rightarrow> nat \<Rightarrow> ArrayFrame list \<Rightarrow> turn" where
  "case_integer buf pos stack =
     (case findCrlf buf pos of
        None \<Rightarrow> Return NeedMoreData
      | Some line_end \<Rightarrow>
          (case parseInt64Token buf pos line_end of
             None \<Rightarrow> Return Malformed
           | Some number \<Rightarrow>
               attach_at (line_end + 2) (RespValue Type_kInteger (VInt number)) stack))"

definition bulk_body :: "bytes \<Rightarrow> nat \<Rightarrow> nat \<Rightarrow> ArrayFrame list \<Rightarrow> turn" where
  "bulk_body buf pos data_len stack =
     (if length buf - pos < data_len + 2 then Return NeedMoreData
      else if buf ! (pos + data_len) \<noteq> cr \<or> buf ! (pos + data_len + 1) \<noteq> lf
      then Return Malformed
      else attach_at (pos + data_len + 2)
             (RespValue Type_kBulkString (VString (take data_len (drop pos buf)))) stack)"

definition case_bulk :: "bytes \<Rightarrow> nat \<Rightarrow> ArrayFrame list \<Rightarrow> turn" where
  "case_bulk buf pos stack =
     (case findCrlf buf pos of
        None \<Rightarrow> Return NeedMoreData
      | Some line_end \<Rightarrow>
          (case parseInt64Token buf pos line_end of
             None \<Rightarrow> Return Malformed
           | Some bulk_length \<Rightarrow>
               if bulk_length = -1
               then attach_at (line_end + 2) (RespValue Type_kNullBulkString (VString [])) stack
               else if sint bulk_length < 0 \<or> unat bulk_length > kMaxBulkSize
               then Return Malformed
               else bulk_body buf (line_end + 2) (unat bulk_length) stack))"

definition case_array :: "bytes \<Rightarrow> nat \<Rightarrow> ArrayFrame list \<Rightarrow> turn" where
  "case_array buf pos stack =
     (case findCrlf buf pos of
        None \<Rightarrow> Return NeedMoreData
      | Some line_end \<Rightarrow>
          (case parseInt64Token buf pos line_end of
             None \<Rightarrow> Return Malformed
           | Some array_len \<Rightarrow>
               if array_len = -1
               then attach_at (line_end + 2) (RespValue Type_kNullArray (VString [])) stack
               else if sint array_len < 0 \<or> unat array_len > kMaxArrayLength
               then Return Malformed
               else if array_len = 0
               then attach_at (line_end + 2) (RespValue Type_kArray (VArray [])) stack
               else if length stack + 1 > kMaxNestingDepth
               then Return Malformed
               else Advance (line_end + 2)
                      (\<lparr>remaining = unat array_len, elements = []\<rparr> # stack)))"

definition parse_one :: "bytes \<Rightarrow> nat \<Rightarrow> ArrayFrame list \<Rightarrow> turn" where
  "parse_one buf pos stack =
     (let type_byte = buf ! pos; pos = pos + 1 in
      if type_byte = CHR ''+'' \<or> type_byte = CHR ''-'' then case_line type_byte buf pos stack
      else if type_byte = CHR '':'' then case_integer buf pos stack
      else if type_byte = CHR ''$'' then case_bulk buf pos stack
      else if type_byte = CHR ''*'' then case_array buf pos stack
      else Return Malformed)"

subsection \<open>The main loop terminates: every turn moves the position forward\<close>

lemma findCrlf_from_bounds:
  "findCrlf_from buf i = Some j \<Longrightarrow> i \<le> j \<and> j + 1 < length buf"
proof (induction buf i rule: findCrlf_from.induct)
  case (1 buf i)
  then show ?case
    by (subst (asm) (2) findCrlf_from.simps) (auto split: if_splits)
qed

lemma findCrlf_bounds: "findCrlf buf i = Some j \<Longrightarrow> i \<le> j \<and> j + 2 \<le> length buf"
  by (auto simp: findCrlf_def dest: findCrlf_from_bounds split: if_splits)

lemma attach_at_pos:
  "attach_at p v stk = Advance p' stk' \<Longrightarrow> p' = p"
  "attach_at p v stk = Root p' r \<Longrightarrow> p' = p"
  by (auto simp: attach_at_def split: prod.splits option.splits)

lemma attach_at_not_Return [simp]: "attach_at p v stk \<noteq> Return out" "Return out \<noteq> attach_at p v stk"
  by (auto simp: attach_at_def split: prod.splits option.splits)

lemma parse_one_progress:
  assumes "parse_one buf pos stk = Advance pos' stk' \<or> parse_one buf pos stk = Root pos' r"
  shows "pos < pos' \<and> pos' \<le> length buf"
  using assms
  by (auto simp: parse_one_def case_line_def case_integer_def case_bulk_def case_array_def
      bulk_body_def Let_def
      dest!: findCrlf_bounds attach_at_pos split: if_splits option.splits)

function parse_loop :: "bytes \<Rightarrow> nat \<Rightarrow> ArrayFrame list \<Rightarrow> outcome" where
  "parse_loop buf pos stack =
     (if length buf \<le> pos then NeedMoreData
      else case parse_one buf pos stack of
        Return res \<Rightarrow> res
      | Root pos' root_value \<Rightarrow> Ready pos' root_value
      | Advance pos' stack' \<Rightarrow> parse_loop buf pos' stack')"
  by pat_completeness auto
termination
  by (relation "measure (\<lambda>(buf, pos, stack). length buf - pos)")
    (auto dest: parse_one_progress [OF disjI1])

declare parse_loop.simps [simp del]

definition parseImpl :: "bytes \<Rightarrow> outcome" where
  "parseImpl buf = (if length buf = 0 then NeedMoreData else parse_loop buf 0 [])"

text \<open>The public entry point: the result, the buffer afterwards and the out parameter
  afterwards.\<close>

definition parse :: "bytes \<Rightarrow> RespValue \<Rightarrow> ParsingResult \<times> bytes \<times> RespValue" where
  "parse buffer outValue =
     (case parseImpl buffer of
        Ready consumed tmp \<Rightarrow> (Parse_kReady, drop consumed buffer, tmp)
      | NeedMoreData \<Rightarrow> (Parse_kNeedMoreData, buffer, outValue)
      | Malformed \<Rightarrow> (Parse_kError, buffer, outValue))"

end
