(* ===== verification/Resp_Grammar.thy ===== *)
theory Resp_Grammar
  imports Resp_Parser
begin

section \<open>What the parser accepts: the RESP2 grammar\<close>

text \<open>
  The specification of \<open>src/respParser.cpp\<close>, stated on byte strings and not on buffer positions:

  \<^item> \<open>split_line\<close> cuts a text at its first CR LF, \<open>token_value\<close> is the meaning of an integer
    token (an optional sign and a non-empty run of digits, in the range of \<open>int64_t\<close>);
  \<^item> \<open>resp_enc d v bs\<close> says that \<open>bs\<close> is one complete encoding of \<open>v\<close> inside \<open>d\<close> open arrays.

  The lemmas show that the index-based scanner and integer reader compute these functions, that
  the parser does not depend on where in a buffer a value stands nor on bytes after it, and that
  it is sound and complete for the grammar.
\<close>

subsection \<open>The grammar\<close>

fun split_line :: "bytes \<Rightarrow> (bytes \<times> bytes) option" where
  "split_line (a # b # rest) =
     (if a = cr \<and> b = lf then Some ([], rest)
      else map_option (\<lambda>(l, r). (a # l, r)) (split_line (b # rest)))"
| "split_line _ = None"

fun crlf_free :: "bytes \<Rightarrow> bool" where
  "crlf_free (a # b # rest) = (\<not> (a = cr \<and> b = lf) \<and> crlf_free (b # rest))"
| "crlf_free _ = True"

definition token_value :: "bytes \<Rightarrow> int64 option" where
  "token_value t =
     (let signed = (t \<noteq> [] \<and> (hd t = CHR ''+'' \<or> hd t = CHR ''-''));
          negative = (t \<noteq> [] \<and> hd t = CHR ''-'');
          ds = (if signed then tl t else t)
      in if ds \<noteq> [] \<and> (\<forall>c \<in> set ds. is_digit c) \<and>
            dec_value ds \<le> (if negative then 2 ^ 63 else 2 ^ 63 - 1)
         then Some (if negative then - of_nat (dec_value ds) else of_nat (dec_value ds))
         else None)"

inductive resp_enc :: "nat \<Rightarrow> RespValue \<Rightarrow> bytes \<Rightarrow> bool" where
  enc_simple: "crlf_free s \<Longrightarrow> resp_enc d (SimpleString s) (CHR ''+'' # s @ crlf)"
| enc_error: "crlf_free s \<Longrightarrow> resp_enc d (ErrorValue s) (CHR ''-'' # s @ crlf)"
| enc_integer: "token_value t = Some i \<Longrightarrow> resp_enc d (IntegerValue i) (CHR '':'' # t @ crlf)"
| enc_bulk: "token_value t = Some (of_nat (length s)) \<Longrightarrow> length s \<le> kMaxBulkSize \<Longrightarrow>
     resp_enc d (BulkString s) (CHR ''$'' # t @ crlf @ s @ crlf)"
| enc_null_bulk: "token_value t = Some (-1) \<Longrightarrow> resp_enc d NullBulkString (CHR ''$'' # t @ crlf)"
| enc_null_array: "token_value t = Some (-1) \<Longrightarrow> resp_enc d NullArray (CHR ''*'' # t @ crlf)"
| enc_empty_array: "token_value t = Some 0 \<Longrightarrow> resp_enc d (ArrayValue []) (CHR ''*'' # t @ crlf)"
| enc_array: "token_value t = Some (of_nat (length xs)) \<Longrightarrow> xs \<noteq> [] \<Longrightarrow>
     length xs \<le> kMaxArrayLength \<Longrightarrow> d + 1 \<le> kMaxNestingDepth \<Longrightarrow>
     list_all2 (resp_enc (d + 1)) xs bss \<Longrightarrow>
     resp_enc d (ArrayValue xs) (CHR ''*'' # t @ crlf @ concat bss)"
monos list.rel_mono_strong

subsection \<open>Lines\<close>

lemma split_line_Some_iff:
  "split_line bs = Some (l, r) \<longleftrightarrow> bs = l @ crlf @ r \<and> crlf_free l"
proof (induction bs arbitrary: l rule: split_line.induct)
  case (1 a b rest)
  show ?case
  proof (cases "a = cr \<and> b = lf")
    case True
    then show ?thesis
      by (cases l; cases "tl l") (auto simp: crlf_def)
  next
    case False
    then have "split_line (a # b # rest) = Some (l, r) \<longleftrightarrow>
        (\<exists>l'. l = a # l' \<and> split_line (b # rest) = Some (l', r))"
      by auto
    also have "\<dots> \<longleftrightarrow> (\<exists>l'. l = a # l' \<and> b # rest = l' @ crlf @ r \<and> crlf_free l')"
      using 1 False by auto
    also have "\<dots> \<longleftrightarrow> a # b # rest = l @ crlf @ r \<and> crlf_free l"
      using False by (cases l; cases "tl l") (auto simp: crlf_def)
    finally show ?thesis .
  qed
qed (auto simp: crlf_def append_eq_Cons_conv Cons_eq_append_conv)

lemma split_line_append [simp]: "crlf_free l \<Longrightarrow> split_line (l @ crlf @ r) = Some (l, r)"
  by (simp add: split_line_Some_iff)

lemma crlf_free_no_cr: "cr \<notin> set l \<Longrightarrow> crlf_free l"
  by (induction l rule: crlf_free.induct) auto

lemma findCrlf_from_split:
  "findCrlf_from buf i = map_option (\<lambda>(l, r). i + length l) (split_line (drop i buf))"
proof (induction buf i rule: findCrlf_from.induct)
  case (1 buf i)
  show ?case
  proof (cases "i + 1 < length buf")
    case True
    then have d: "drop i buf = buf ! i # drop (Suc i) buf"
      and d1: "drop (Suc i) buf = buf ! Suc i # drop (Suc (Suc i)) buf"
      by (simp_all add: Cons_nth_drop_Suc)
    have "split_line (drop i buf) =
      (if buf ! i = cr \<and> buf ! Suc i = lf then Some ([], drop (Suc (Suc i)) buf)
       else map_option (\<lambda>(l, r). (buf ! i # l, r)) (split_line (drop (Suc i) buf)))"
      by (simp only: d d1 split_line.simps)
    with 1 True show ?thesis
      by (simp add: findCrlf_from.simps [of buf i] option.map_comp comp_def split_def)
  next
    case False
    then have "split_line (drop i buf) = None"
      by (cases "drop i buf" rule: split_line.cases) (auto dest: arg_cong [where f = length])
    with False show ?thesis by (simp add: findCrlf_from.simps [of buf i])
  qed
qed

lemma findCrlf_split:
  "findCrlf buf i = map_option (\<lambda>(l, r). i + length l) (split_line (drop i buf))"
  by (simp add: findCrlf_def findCrlf_from_split)

subsection \<open>Integer tokens\<close>

lemma digit_step_word:
  fixes acc limit :: uint64
  assumes d: "d < 10" and lim: "9 \<le> unat limit"
  shows "acc > (limit - of_nat d) div 10 \<longleftrightarrow> unat limit < unat acc * 10 + d"
    and "unat acc * 10 + d \<le> unat limit \<Longrightarrow> unat (acc * 10 + of_nat d) = unat acc * 10 + d"
proof -
  have ud: "unat (of_nat d :: uint64) = d"
    using d by (simp add: unat64_of_nat)
  have "(of_nat d :: uint64) \<le> limit"
    using d lim by (simp add: word_le_nat_alt ud)
  then have "unat (limit - of_nat d) = unat limit - d"
    by (simp add: unat_sub ud)
  then have "unat ((limit - of_nat d) div 10) = (unat limit - d) div 10"
    by (simp add: unat_div)
  then show "acc > (limit - of_nat d) div 10 \<longleftrightarrow> unat limit < unat acc * 10 + d"
    using d lim by (simp add: word_less_nat_alt) linarith
  assume le: "unat acc * 10 + d \<le> unat limit"
  then have "unat acc * 10 + d < 2 ^ 64"
    using unat64_less [of limit] by simp
  then show "unat (acc * 10 + of_nat d) = unat acc * 10 + d"
    by (simp add: unat_word_ariths ud unat_of_nat)
qed

lemma int64_digits_text:
  assumes "token_end \<le> length buf" and "unat acc \<le> unat limit" and "9 \<le> unat limit"
  shows "int64_digits buf pos token_end limit acc =
    (let ds = take (token_end - pos) (drop pos buf) in
     if (\<forall>c \<in> set ds. is_digit c) \<and> dec_value_from (unat acc) ds \<le> unat limit
     then Some (of_nat (dec_value_from (unat acc) ds)) else None)"
  using assms
proof (induction buf pos token_end limit acc rule: int64_digits.induct)
  case (1 buf pos token_end limit acc)
  show ?case
  proof (cases "pos < token_end")
    case False
    with 1 show ?thesis by (simp add: int64_digits.simps [of buf pos])
  next
    case True
    let ?c = "buf ! pos" and ?rest = "take (token_end - (pos + 1)) (drop (pos + 1) buf)"
    from True "1.prems" have ds: "take (token_end - pos) (drop pos buf) = ?c # ?rest"
      using segment_Cons [of pos token_end buf] by simp
    show ?thesis
    proof (cases "is_digit ?c")
      case False
      with True show ?thesis by (simp add: int64_digits.simps [of buf pos] ds)
    next
      case dig: True
      let ?d = "digit_val ?c"
      note step = digit_step_word [OF digit_val_less [OF dig], of limit acc, OF "1.prems"(3)]
      show ?thesis
      proof (cases "unat limit < unat acc * 10 + ?d")
        case big: True
        have "unat limit < dec_value_from (unat acc * 10 + ?d) ?rest"
          using big dec_value_from_ge [of "unat acc * 10 + ?d"] by (rule less_le_trans)
        with big True dig step(1) show ?thesis
          by (simp add: int64_digits.simps [of buf pos] ds)
      next
        case small: False
        then have u: "unat (acc * 10 + of_nat ?d) = unat acc * 10 + ?d" and nov: "\<not> acc > (limit - of_nat ?d) div 10"
          using step by simp_all
        have "int64_digits buf (pos + 1) token_end limit (acc * 10 + of_nat ?d) =
          (if (\<forall>c \<in> set ?rest. is_digit c) \<and> dec_value_from (unat acc * 10 + ?d) ?rest \<le> unat limit
           then Some (of_nat (dec_value_from (unat acc * 10 + ?d) ?rest)) else None)"
          using "1.IH" [OF True refl _ refl] dig nov u small "1.prems" by (simp add: Let_def)
        with True dig nov show ?thesis
          by (simp add: int64_digits.simps [of buf pos] ds Let_def)
      qed
    qed
  qed
qed

lemma int64_limits: "unat kInt64Max = 2 ^ 63 - 1" "unat kInt64MinAbs = 2 ^ 63"
  by (simp_all add: kInt64Max_def kInt64MinAbs_def)

lemma parseInt64Token_text:
  assumes "token_end \<le> length buf"
  shows "parseInt64Token buf token_start token_end =
    token_value (take (token_end - token_start) (drop token_start buf))"
proof (cases "token_end \<le> token_start")
  case True
  then show ?thesis by (simp add: parseInt64Token_def token_value_def)
next
  case False
  let ?t = "take (token_end - token_start) (drop token_start buf)"
  let ?r = "take (token_end - (token_start + 1)) (drop (token_start + 1) buf)"
  from False assms have t: "?t = buf ! token_start # ?r"
    using segment_Cons [of token_start token_end buf] by simp
  have r: "?r = [] \<longleftrightarrow> token_end \<le> token_start + 1"
    using False assms by auto
  have min: "(2 ^ 63 :: int64) = - of_nat (2 ^ 63)" by simp
  show ?thesis
    using False assms r
    by (auto simp: parseInt64Token_def token_value_def Let_def t int64_digits_text int64_limits
        dec_value_def kInt64MinAbs_def kInt64Max_def min split: option.splits if_splits)
qed

subsection \<open>A value does not depend on where it stands in the buffer\<close>

fun shift_turn :: "nat \<Rightarrow> turn \<Rightarrow> turn" where
  "shift_turn k (Advance p stk) = Advance (k + p) stk"
| "shift_turn k (Root p v) = Root (k + p) v"
| "shift_turn k (Return res) = Return res"

fun shift_outcome :: "nat \<Rightarrow> outcome \<Rightarrow> outcome" where
  "shift_outcome k (Ready n v) = Ready (k + n) v"
| "shift_outcome k res = res"

lemma shift_outcome_add [simp]: "shift_outcome j (shift_outcome k res) = shift_outcome (j + k) res"
  by (cases res) auto

lemma shift_outcome_0 [simp]: "shift_outcome 0 res = res"
  by (cases res) auto

lemma shift_outcome_iff [simp]:
  "shift_outcome k res = NeedMoreData \<longleftrightarrow> res = NeedMoreData"
  "shift_outcome k res = Malformed \<longleftrightarrow> res = Malformed"
  by (cases res; simp)+

lemma shift_attach_at: "attach_at (k + p) v stk = shift_turn k (attach_at p v stk)"
  by (auto simp: attach_at_def split: prod.splits option.splits)

lemma findCrlf_shift: "findCrlf buf (k + p) = map_option ((+) k) (findCrlf (drop k buf) p)"
  by (simp add: findCrlf_split add.commute option.map_comp comp_def split_def add.left_commute)

lemma parseInt64Token_shift:
  assumes "e \<le> length (drop k buf)"
  shows "parseInt64Token buf (k + s) (k + e) = parseInt64Token (drop k buf) s e"
proof (cases "k \<le> length buf")
  case True
  with assms show ?thesis by (simp add: parseInt64Token_text add.commute)
next
  case False
  with assms show ?thesis by (simp add: parseInt64Token_def)
qed

lemma bulk_body_shift:
  assumes "k \<le> length buf"
  shows "bulk_body buf (k + p) n stk = shift_turn k (bulk_body (drop k buf) p n stk)"
proof -
  have "length buf - (k + p) = length (drop k buf) - p" by simp
  then show ?thesis
    using shift_attach_at [of k "p + n + 2" _ stk]
    by (auto simp: bulk_body_def add.assoc add.commute [of _ k])
qed

lemma parse_one_shift:
  assumes "k + p < length buf"
  shows "parse_one buf (k + p) stk = shift_turn k (parse_one (drop k buf) p stk)"
proof -
  have tok: "parseInt64Token buf (k + Suc p) (k + e) = parseInt64Token (drop k buf) (Suc p) e"
    if "findCrlf (drop k buf) (Suc p) = Some e" for e
    using findCrlf_bounds [OF that] by (intro parseInt64Token_shift) simp
  have bb: "bulk_body buf (k + Suc (Suc e)) n stk =
      shift_turn k (bulk_body (drop k buf) (Suc (Suc e)) n stk)" for e n
    using assms by (intro bulk_body_shift) simp
  have nth: "buf ! (k + p) = drop k buf ! p"
    using assms by simp
  have ln: "case_line c buf (k + Suc p) stk = shift_turn k (case_line c (drop k buf) (Suc p) stk)" for c
    using shift_attach_at
    by (auto simp: case_line_def findCrlf_shift add.commute [of _ k] split: option.splits
        simp flip: add_Suc_right)
  have it: "case_integer buf (k + Suc p) stk = shift_turn k (case_integer (drop k buf) (Suc p) stk)"
    using shift_attach_at
    by (auto simp: case_integer_def findCrlf_shift tok split: option.splits simp flip: add_Suc_right)
  have bk: "case_bulk buf (k + Suc p) stk = shift_turn k (case_bulk (drop k buf) (Suc p) stk)"
    using shift_attach_at
    by (auto simp: case_bulk_def findCrlf_shift tok bb split: option.splits simp flip: add_Suc_right)
  have ar: "case_array buf (k + Suc p) stk = shift_turn k (case_array (drop k buf) (Suc p) stk)"
    using shift_attach_at
    by (auto simp: case_array_def findCrlf_shift tok split: option.splits simp flip: add_Suc_right)
  show ?thesis
    using ln it bk ar by (simp add: parse_one_def nth Let_def)
qed

lemma parse_one_Return:
  "parse_one buf pos stk = Return res \<Longrightarrow> res = NeedMoreData \<or> res = Malformed"
  by (auto simp: parse_one_def case_line_def case_integer_def case_bulk_def case_array_def
      bulk_body_def Let_def split: if_splits option.splits)

lemma parse_loop_shift:
  "parse_loop buf (k + p) stk = shift_outcome k (parse_loop (drop k buf) p stk)"
proof (cases "k \<le> length buf")
  case True
  have "k + p = pos \<Longrightarrow> parse_loop buf pos stk = shift_outcome k (parse_loop (drop k buf) p stk)" for pos
  proof (induction buf pos stk arbitrary: p rule: parse_loop.induct)
    case (1 buf pos stk)
    show ?case
    proof (cases "length buf \<le> pos")
      case True
      then have "length (drop k buf) \<le> p" using "1.prems" by simp
      with True show ?thesis
        by (simp add: parse_loop.simps [of buf] parse_loop.simps [of "drop k buf"])
    next
      case False
      then have lt: "k + p < length buf" and ltk: "\<not> length buf - k \<le> p"
        using "1.prems" by simp_all
      show ?thesis
      proof (cases "parse_one (drop k buf) p stk")
        case (Advance p' stk')
        have one: "parse_one buf pos stk = Advance (k + p') stk'"
          using parse_one_shift [OF lt, of stk] Advance "1.prems" by simp
        have "parse_loop buf (k + p') stk' = shift_outcome k (parse_loop (drop k buf) p' stk')"
          using "1.IH" [OF False one refl] by simp
        with one Advance False ltk show ?thesis
          by (simp add: parse_loop.simps [of buf pos] parse_loop.simps [of "drop k buf" p])
      qed (use parse_one_shift [OF lt, of stk] False ltk "1.prems" in
            \<open>auto simp: parse_loop.simps [of buf pos] parse_loop.simps [of "drop k buf" p]
              dest: parse_one_Return\<close>)
    qed
  qed
  then show ?thesis by simp
next
  case False
  then show ?thesis by (simp add: parse_loop.simps [of buf] parse_loop.simps [of "[]"])
qed

lemma parse_loop_drop: "parse_loop buf pos stk = shift_outcome pos (parse_loop (drop pos buf) 0 stk)"
  using parse_loop_shift [of buf pos 0 stk] by simp

subsection \<open>Bytes after a decision do not change it\<close>

lemma split_line_extend: "split_line bs = Some (l, r) \<Longrightarrow> split_line (bs @ rest) = Some (l, r @ rest)"
  by (auto simp: split_line_Some_iff)

lemma findCrlf_extend: "findCrlf buf pos = Some e \<Longrightarrow> findCrlf (buf @ rest) pos = Some e"
  using findCrlf_bounds [of buf pos e]
  by (auto simp: findCrlf_split dest: split_line_extend [where rest = rest])

lemma parseInt64Token_extend:
  "e \<le> length buf \<Longrightarrow> parseInt64Token (buf @ rest) s e = parseInt64Token buf s e"
  by (cases "s \<le> e") (simp_all add: parseInt64Token_text)

lemma bulk_body_extend:
  assumes "bulk_body buf p n stk \<noteq> Return NeedMoreData" and "p \<le> length buf"
  shows "bulk_body (buf @ rest) p n stk = bulk_body buf p n stk"
proof -
  from assms have "p + n + 2 \<le> length buf"
    by (auto simp: bulk_body_def split: if_splits)
  then show ?thesis by (auto simp: bulk_body_def nth_append)
qed

lemma parse_one_extend:
  assumes "parse_one buf pos stk \<noteq> Return NeedMoreData" and "pos < length buf"
  shows "parse_one (buf @ rest) pos stk = parse_one buf pos stk"
proof -
  have tok: "findCrlf buf (Suc pos) = Some e \<Longrightarrow>
      parseInt64Token (buf @ rest) (Suc pos) e = parseInt64Token buf (Suc pos) e" for e
    by (rule parseInt64Token_extend) (auto dest: findCrlf_bounds)
  have bb: "findCrlf buf (Suc pos) = Some e \<Longrightarrow>
      bulk_body buf (Suc (Suc e)) n stk \<noteq> Return NeedMoreData \<Longrightarrow>
      bulk_body (buf @ rest) (Suc (Suc e)) n stk = bulk_body buf (Suc (Suc e)) n stk" for e n
    by (rule bulk_body_extend) (auto dest: findCrlf_bounds)
  have seg: "findCrlf buf (Suc pos) = Some e \<Longrightarrow>
      e - length buf = 0" for e
    by (auto dest: findCrlf_bounds)
  show ?thesis
    using assms
    by (cases "findCrlf buf (Suc pos)")
      (auto simp: parse_one_def nth_append case_line_def case_integer_def case_bulk_def
        case_array_def Let_def seg tok bb findCrlf_extend [where rest = rest]
        split: option.splits if_splits)
qed

lemma parse_loop_extend:
  assumes "parse_loop buf pos stk \<noteq> NeedMoreData"
  shows "parse_loop (buf @ rest) pos stk = parse_loop buf pos stk"
  using assms
proof (induction buf pos stk rule: parse_loop.induct)
  case (1 buf pos stk)
  then have lt: "pos < length buf"
    by (auto simp: parse_loop.simps [of buf pos] split: if_splits)
  with "1.prems" have "parse_one buf pos stk \<noteq> Return NeedMoreData"
    by (auto simp: parse_loop.simps [of buf pos])
  then have "parse_one (buf @ rest) pos stk = parse_one buf pos stk"
    using lt by (rule parse_one_extend)
  with 1 lt show ?case
    by (auto simp: parse_loop.simps [of buf pos] parse_loop.simps [of "buf @ rest" pos]
        split: turn.splits)
qed

subsection \<open>Completeness: every encoding is parsed\<close>

text \<open>What the loop does once a value has been read: close arrays, then finish or go on.\<close>

definition resume :: "RespValue \<Rightarrow> ArrayFrame list \<Rightarrow> nat \<Rightarrow> bytes \<Rightarrow> outcome" where
  "resume v stk n rest =
     (case attachValue v stk of
        (stk', Some root) \<Rightarrow> Ready n root
      | (stk', None) \<Rightarrow> shift_outcome n (parse_loop rest 0 stk'))"

lemma parse_loop_attach:
  assumes "parse_one buf 0 stk = attach_at n v stk" and "buf \<noteq> []" and "drop n buf = rest"
  shows "parse_loop buf 0 stk = resume v stk n rest"
  using assms parse_loop_drop [of buf n]
  by (auto simp: parse_loop.simps [of buf 0] resume_def attach_at_def
      split: prod.splits option.splits)

lemma token_value_not_crlf: "token_value t = Some i \<Longrightarrow> crlf_free t"
proof (rule crlf_free_no_cr)
  assume t: "token_value t = Some i"
  then have "set (tl t) \<subseteq> Collect is_digit \<and> t \<noteq> []
      \<and> (hd t = CHR ''+'' \<or> hd t = CHR ''-'' \<or> is_digit (hd t))"
    by (cases t) (auto simp: token_value_def Let_def split: if_splits)
  then show "cr \<notin> set t"
    by (cases t) (auto simp: cr_def is_digit_def)
qed

lemma findCrlf_line:
  assumes "crlf_free l"
  shows "findCrlf (c # l @ crlf @ rest) (Suc 0) = Some (Suc (length l))"
  using assms by (simp add: findCrlf_split)

lemma parse_one_line:
  assumes "crlf_free s"
  shows "parse_one (CHR ''+'' # s @ crlf @ rest) 0 stk = attach_at (length s + 3) (SimpleString s) stk"
    and "parse_one (CHR ''-'' # s @ crlf @ rest) 0 stk = attach_at (length s + 3) (ErrorValue s) stk"
  using findCrlf_line [OF assms, of _ rest]
  by (simp_all add: parse_one_def case_line_def numeral_3_eq_3)

lemma header_token:
  assumes "token_value t = Some i"
  shows "findCrlf (c # t @ crlf @ rest) (Suc 0) = Some (Suc (length t))"
    and "parseInt64Token (c # t @ crlf @ rest) (Suc 0) (Suc (length t)) = Some i"
  using assms findCrlf_line [OF token_value_not_crlf [OF assms], of c rest]
  by (simp_all add: parseInt64Token_text)

lemma parse_one_integer:
  assumes "token_value t = Some i"
  shows "parse_one (CHR '':'' # t @ crlf @ rest) 0 stk = attach_at (length t + 3) (IntegerValue i) stk"
  using header_token [OF assms, of _ rest] by (simp add: parse_one_def case_integer_def numeral_3_eq_3)

lemma length_word64:
  assumes "n \<le> kMaxBulkSize"
  shows "unat (of_nat n :: int64) = n" and "\<not> sint (of_nat n :: int64) < 0" and "(of_nat n :: int64) \<noteq> -1"
proof -
  have n: "n < 2 ^ 63" using assms by (simp add: kMaxBulkSize_def)
  then show u: "unat (of_nat n :: int64) = n" by (simp add: unat64_of_nat)
  show s: "\<not> sint (of_nat n :: int64) < 0"
    using n by (simp add: sint64_of_nat)
  show "(of_nat n :: int64) \<noteq> -1"
    using s by auto
qed

lemma parse_one_bulk:
  assumes t: "token_value t = Some (of_nat (length s))" and len: "length s \<le> kMaxBulkSize"
  shows "parse_one (CHR ''$'' # t @ crlf @ s @ crlf @ rest) 0 stk =
    attach_at (length t + length s + 5) (BulkString s) stk"
proof -
  let ?buf = "CHR ''$'' # t @ crlf @ s @ crlf @ rest"
  have d: "drop (length t + 3) ?buf = s @ crlf @ rest"
    by (simp add: crlf_def numeral_3_eq_3)
  have n0: "?buf ! (length t + 3 + length s) = cr"
    and n1: "?buf ! (length t + 3 + length s + 1) = lf"
    using nth_drop [of "length t + 3" ?buf "length s"] nth_drop [of "length t + 3" ?buf "length s + 1"]
    by (simp_all add: d nth_append crlf_def add.assoc)
  have "bulk_body ?buf (length t + 3) (length s) stk =
      attach_at (length t + length s + 5) (BulkString s) stk"
    using d n0 n1 by (simp add: bulk_body_def add_ac)
  then show ?thesis
    using header_token [OF t, of "CHR ''$''" "s @ crlf @ rest"] length_word64 [OF len] len
    by (simp add: parse_one_def case_bulk_def numeral_3_eq_3)
qed

lemma parse_one_null:
  assumes "token_value t = Some (-1)"
  shows "parse_one (CHR ''$'' # t @ crlf @ rest) 0 stk = attach_at (length t + 3) NullBulkString stk"
    and "parse_one (CHR ''*'' # t @ crlf @ rest) 0 stk = attach_at (length t + 3) NullArray stk"
  using header_token [OF assms, of _ rest]
  by (simp_all add: parse_one_def case_bulk_def case_array_def numeral_3_eq_3)

lemma parse_one_array:
  assumes t: "token_value t = Some (of_nat n)" and n: "n \<le> kMaxArrayLength"
  shows "n = 0 \<Longrightarrow> parse_one (CHR ''*'' # t @ crlf @ rest) 0 stk = attach_at (length t + 3) (ArrayValue []) stk"
    and "0 < n \<Longrightarrow> length stk + 1 \<le> kMaxNestingDepth \<Longrightarrow>
      parse_one (CHR ''*'' # t @ crlf @ rest) 0 stk =
        Advance (length t + 3) (\<lparr>remaining = n, elements = []\<rparr> # stk)"
proof -
  have "n \<le> kMaxBulkSize" using n by (simp add: kMaxArrayLength_def kMaxBulkSize_def)
  note w = length_word64 [OF this]
  have nz: "(of_nat n :: int64) = 0 \<longleftrightarrow> n = 0" using w(1) by auto
  show "n = 0 \<Longrightarrow> parse_one (CHR ''*'' # t @ crlf @ rest) 0 stk = attach_at (length t + 3) (ArrayValue []) stk"
    using header_token [OF t, of "CHR ''*''" rest] n
    by (simp add: parse_one_def case_array_def numeral_3_eq_3)
  show "0 < n \<Longrightarrow> length stk + 1 \<le> kMaxNestingDepth \<Longrightarrow>
      parse_one (CHR ''*'' # t @ crlf @ rest) 0 stk =
        Advance (length t + 3) (\<lparr>remaining = n, elements = []\<rparr> # stk)"
    using header_token [OF t, of "CHR ''*''" rest] n w nz
    by (simp add: parse_one_def case_array_def numeral_3_eq_3)
qed

lemma resume_push:
  assumes "1 < remaining f"
  shows "resume v (f # stk) n rest =
    shift_outcome n (parse_loop rest 0
      (f\<lparr>elements := elements f @ [v], remaining := remaining f - 1\<rparr> # stk))"
  using assms by (simp add: resume_def size_dec_def Let_def)

lemma resume_close:
  assumes "remaining f = 1"
  shows "resume v (f # stk) n rest = resume (ArrayValue (elements f @ [v])) stk n rest"
  using assms by (simp add: resume_def size_dec_def)

lemma shift_resume: "shift_outcome k (resume v stk n rest) = resume v stk (k + n) rest"
  by (simp add: resume_def split: prod.splits option.splits)

lemma parse_loop_elements:
  assumes "list_all2 (\<lambda>x b. \<forall>stk rest. length stk = d \<longrightarrow>
      parse_loop (b @ rest) 0 stk = resume x stk (length b) rest) xs bss"
    and "xs \<noteq> []" and "Suc (length stk) = d"
    and "remaining f = length xs"
  shows "parse_loop (concat bss @ rest) 0 (f # stk) =
    resume (ArrayValue (elements f @ xs)) stk (length (concat bss)) rest"
  using assms
proof (induction xs bss arbitrary: f rule: list_all2_induct)
  case Nil
  then show ?case by simp
next
  case (Cons x xs b bss)
  let ?f = "f\<lparr>elements := elements f @ [x], remaining := remaining f - 1\<rparr>"
  have x: "parse_loop (b @ (concat bss @ rest)) 0 (f # stk) =
      resume x (f # stk) (length b) (concat bss @ rest)"
    using Cons.hyps Cons.prems by simp
  show ?case
  proof (cases "xs = []")
    case True
    with Cons.hyps have "bss = []" by simp
    with True Cons.prems x show ?thesis by (simp add: resume_close)
  next
    case False
    then have "parse_loop (concat bss @ rest) 0 (?f # stk) =
        resume (ArrayValue (elements ?f @ xs)) stk (length (concat bss)) rest"
      using Cons.IH [of ?f] Cons.prems by simp
    with False Cons.prems x show ?thesis
      by (simp add: resume_push shift_resume)
  qed
qed

lemma parse_loop_complete:
  assumes "resp_enc d v bs" and "length stk = d"
  shows "parse_loop (bs @ rest) 0 stk = resume v stk (length bs) rest"
  using assms
proof (induction arbitrary: stk rest rule: resp_enc.induct)
  case (enc_empty_array t d)
  then show ?case
    using parse_one_array(1) [of t 0]
    by (intro parse_loop_attach) (simp_all add: eval_nat_numeral)
next
  case (enc_array t xs d bss)
  let ?buf = "CHR ''*'' # t @ crlf @ concat bss @ rest"
  let ?f = "\<lparr>remaining = length xs, elements = []\<rparr>"
  have one: "parse_one ?buf 0 stk = Advance (length t + 3) (?f # stk)"
    using enc_array by (intro parse_one_array(2)) auto
  have dr: "drop (length t + 3) ?buf = concat bss @ rest"
    by (simp add: crlf_def numeral_3_eq_3)
  have "list_all2 (\<lambda>x b. \<forall>stk rest. length stk = d + 1 \<longrightarrow>
      parse_loop (b @ rest) 0 stk = resume x stk (length b) rest) xs bss"
    using enc_array(5) by (rule list_all2_mono) auto
  then have "parse_loop (concat bss @ rest) 0 (?f # stk) =
      resume (ArrayValue xs) stk (length (concat bss)) rest"
    using parse_loop_elements [of "d + 1" xs bss stk ?f rest] enc_array.hyps enc_array.prems by simp
  then have "parse_loop ?buf 0 stk = shift_outcome (length t + 3)
      (resume (ArrayValue xs) stk (length (concat bss)) rest)"
    using one parse_loop_drop [of ?buf "length t + 3"] dr
    by (simp add: parse_loop.simps [of ?buf 0])
  then show ?case by (simp add: shift_resume eval_nat_numeral)
qed (intro parse_loop_attach; simp add: parse_one_line parse_one_integer parse_one_bulk parse_one_null eval_nat_numeral)+

subsection \<open>Soundness: what was parsed is an encoding\<close>

text \<open>The bytes read so far are the encodings of the elements in the open arrays, innermost last.\<close>

fun frames_enc :: "ArrayFrame list \<Rightarrow> bytes \<Rightarrow> bool" where
  "frames_enc [] bs = (bs = [])"
| "frames_enc (f # stk) bs =
     (\<exists>bs0 t bss. frames_enc stk bs0 \<and> bs = bs0 @ CHR ''*'' # t @ crlf @ concat bss \<and>
        token_value t = Some (of_nat (length (elements f) + remaining f)) \<and>
        length (elements f) + remaining f \<le> kMaxArrayLength \<and> 0 < remaining f \<and>
        length stk + 1 \<le> kMaxNestingDepth \<and>
        list_all2 (resp_enc (length stk + 1)) (elements f) bss)"

lemma frames_enc_attach:
  assumes "frames_enc stk bs" and "resp_enc (length stk) v b"
  shows "case attachValue v stk of
      (stk', None) \<Rightarrow> frames_enc stk' (bs @ b)
    | (stk', Some root) \<Rightarrow> resp_enc 0 root (bs @ b)"
  using assms
proof (induction stk arbitrary: v bs b)
  case Nil
  then show ?case by simp
next
  case (Cons f stk)
  from Cons.prems(1) obtain bs0 t bss where
    fr: "frames_enc stk bs0" and bs: "bs = bs0 @ CHR ''*'' # t @ crlf @ concat bss" and
    t: "token_value t = Some (of_nat (length (elements f) + remaining f))" and
    n: "length (elements f) + remaining f \<le> kMaxArrayLength" "0 < remaining f"
      "length stk + 1 \<le> kMaxNestingDepth" and
    el: "list_all2 (resp_enc (length stk + 1)) (elements f) bss"
    by auto
  have el': "list_all2 (resp_enc (length stk + 1)) (elements f @ [v]) (bss @ [b])"
    using el Cons.prems(2) by (auto intro: list_all2_appendI)
  show ?case
  proof (cases "remaining f = 1")
    case True
    have "resp_enc (length stk) (ArrayValue (elements f @ [v]))
        (CHR ''*'' # t @ crlf @ concat (bss @ [b]))"
      using t n True el' by (intro enc_array) simp_all
    note closed = Cons.IH [OF fr this]
    have "bs @ b = bs0 @ CHR ''*'' # t @ crlf @ concat (bss @ [b])" by (simp add: bs)
    with closed True show ?thesis by (auto simp: size_dec_def split: prod.splits option.splits)
  next
    case False
    then have "frames_enc (f\<lparr>elements := elements f @ [v], remaining := remaining f - 1\<rparr> # stk) (bs @ b)"
      using fr t n el' unfolding frames_enc.simps bs
      by (intro exI [of _ bs0] exI [of _ t] exI [of _ "bss @ [b]"]) auto
    with False n show ?thesis by (simp add: size_dec_def)
  qed
qed

text \<open>One turn of the loop reads one more value or opens one more array.\<close>

definition reads :: "bytes \<Rightarrow> nat \<Rightarrow> ArrayFrame list \<Rightarrow> turn \<Rightarrow> bool" where
  "reads s d stk tn \<longleftrightarrow>
     (\<forall>res. tn \<noteq> Return res) \<longrightarrow>
     (\<exists>n v. tn = attach_at n v stk \<and> resp_enc d v (take n s) \<and> n \<le> length s) \<or>
     (\<exists>t n. tn = Advance (length t + 3) (\<lparr>remaining = n, elements = []\<rparr> # stk) \<and>
        take (length t + 3) s = CHR ''*'' # t @ crlf \<and> length t + 3 \<le> length s \<and>
        token_value t = Some (of_nat n) \<and> 0 < n \<and> n \<le> kMaxArrayLength \<and>
        length stk + 1 \<le> kMaxNestingDepth)"

lemma findCrlf_line_ex:
  assumes "findCrlf (c # s) (Suc 0) = Some e"
  obtains l r where "s = l @ crlf @ r" and "crlf_free l" and "e = Suc (length l)"
proof -
  from assms obtain l r where "split_line s = Some (l, r)" and "e = Suc (length l)"
    by (auto simp: findCrlf_split)
  then show thesis using that by (auto simp: split_line_Some_iff)
qed

lemma readsI_value:
  "resp_enc d v b \<Longrightarrow> s = b @ r \<Longrightarrow> n = length b \<Longrightarrow> reads s d stk (attach_at n v stk)"
  unfolding reads_def by (intro impI disjI1 exI [of _ n] exI [of _ v]) simp

lemma reads_Return [simp]: "reads s d stk (Return res)"
  by (auto simp: reads_def)

lemma reads_case_line:
  assumes "c = CHR ''+'' \<or> c = CHR ''-''"
  shows "reads (c # s) d stk (case_line c (c # s) (Suc 0) stk)"
proof (cases "findCrlf (c # s) (Suc 0)")
  case None
  then show ?thesis by (simp add: case_line_def)
next
  case (Some e)
  then obtain l r where l: "s = l @ crlf @ r" "crlf_free l" "e = Suc (length l)"
    by (rule findCrlf_line_ex)
  have "resp_enc d (RespValue (if c = CHR ''+'' then Type_kSimpleString else Type_kError) (VString l))
      (c # l @ crlf)"
    using assms l by (auto intro: enc_simple enc_error)
  from readsI_value [OF this, of "c # s" r "length l + 3"] Some l show ?thesis
    by (simp add: case_line_def eval_nat_numeral)
qed

text \<open>The three kinds with a length or number on their first line share the reading of that line.\<close>

lemma number_line_cases:
  assumes none: "F None = Return NeedMoreData"
    and bad: "\<And>e. parseInt64Token (c # s) (Suc 0) e = None \<Longrightarrow> F (Some e) = Return Malformed"
    and good: "\<And>l r i. s = l @ crlf @ r \<Longrightarrow> token_value l = Some i \<Longrightarrow>
      parseInt64Token (c # s) (Suc 0) (Suc (length l)) = Some i \<Longrightarrow>
      reads (c # s) d stk (F (Some (Suc (length l))))"
  shows "reads (c # s) d stk (F (findCrlf (c # s) (Suc 0)))"
proof (cases "findCrlf (c # s) (Suc 0)")
  case None
  then show ?thesis by (simp add: none)
next
  case (Some e)
  then obtain l r where l: "s = l @ crlf @ r" "e = Suc (length l)"
    by (rule findCrlf_line_ex)
  have tok: "parseInt64Token (c # s) (Suc 0) e = token_value l"
    using l by (simp add: parseInt64Token_text)
  show ?thesis
    using Some l tok bad good [of l r] by (cases "token_value l") auto
qed

lemma reads_case_integer: "reads (CHR '':'' # s) d stk (case_integer (CHR '':'' # s) (Suc 0) stk)"
  unfolding case_integer_def
proof (rule number_line_cases, goal_cases)
  case (3 l r i)
  then show ?case
    using readsI_value [OF enc_integer [of l i d], of _ r "length l + 3" stk]
    by (simp add: eval_nat_numeral)
qed simp_all

lemma bulk_body_reads:
  assumes s: "s = l @ crlf @ r" and tok: "token_value l = Some (of_nat n)" and n: "n \<le> kMaxBulkSize"
  shows "reads (CHR ''$'' # s) d stk (bulk_body (CHR ''$'' # s) (length l + 3) n stk)"
proof -
  let ?buf = "CHR ''$'' # s"
  have dr: "drop (length l + 3) ?buf = r" and len: "length ?buf = length l + 3 + length r"
    by (simp_all add: s crlf_def numeral_3_eq_3)
  have nth: "?buf ! (length l + 3 + k) = r ! k" for k
  proof -
    have "length l + 3 \<le> length ?buf" unfolding len by simp
    from nth_drop [OF this, of k] show ?thesis by (simp only: dr)
  qed
  show ?thesis
  proof (cases "length r < n + 2 \<or> r ! n \<noteq> cr \<or> r ! Suc n \<noteq> lf")
    case True
    then show ?thesis
      using nth [of n] nth [of "Suc n"] len by (auto simp: bulk_body_def)
  next
    case False
    then have "r = take n r @ [cr, lf] @ drop (n + 2) r"
      using id_take_nth_drop [of n r] Cons_nth_drop_Suc [of "Suc n" r] by simp
    then have sp: "?buf = (CHR ''$'' # l @ crlf @ take n r @ crlf) @ drop (n + 2) r"
      by (simp add: s crlf_def)
    have "resp_enc d (BulkString (take n r)) (CHR ''$'' # l @ crlf @ take n r @ crlf)"
      using tok n False by (intro enc_bulk) simp_all
    from readsI_value [OF this sp, of "length l + 3 + n + 2" stk] False
    have "reads ?buf d stk (attach_at (length l + 3 + n + 2) (BulkString (take n r)) stk)"
      by simp
    moreover have "bulk_body ?buf (length l + 3) n stk =
        attach_at (length l + 3 + n + 2) (BulkString (take n r)) stk"
      using nth [of n] nth [of "Suc n"] len dr False by (simp add: bulk_body_def)
    ultimately show ?thesis by simp
  qed
qed

lemma reads_case_bulk: "reads (CHR ''$'' # s) d stk (case_bulk (CHR ''$'' # s) (Suc 0) stk)"
  unfolding case_bulk_def
proof (rule number_line_cases, goal_cases)
  case (3 l r i)
  then have nul: "i = -1 \<Longrightarrow> reads (CHR ''$'' # s) d stk (attach_at (length l + 3) NullBulkString stk)"
    using readsI_value [OF enc_null_bulk [of l d], of _ r "length l + 3" stk] by simp
  have "unat i \<le> kMaxBulkSize \<Longrightarrow>
      reads (CHR ''$'' # s) d stk (bulk_body (CHR ''$'' # s) (length l + 3) (unat i) stk)"
    using 3 by (intro bulk_body_reads) simp_all
  with 3 nul show ?case by (simp add: eval_nat_numeral)
qed simp_all

lemma reads_case_array: "reads (CHR ''*'' # s) d stk (case_array (CHR ''*'' # s) (Suc 0) stk)"
  unfolding case_array_def
proof (rule number_line_cases, goal_cases)
  case (3 l r i)
  then have nul: "i = -1 \<Longrightarrow> reads (CHR ''*'' # s) d stk (attach_at (length l + 3) NullArray stk)"
    using readsI_value [OF enc_null_array [of l d], of _ r "length l + 3" stk] by simp
  have emp: "i = 0 \<Longrightarrow> reads (CHR ''*'' # s) d stk (attach_at (length l + 3) (ArrayValue []) stk)"
    using 3 readsI_value [OF enc_empty_array [of l d], of _ r "length l + 3" stk] by simp
  have "i \<noteq> 0 \<Longrightarrow> unat i \<le> kMaxArrayLength \<Longrightarrow> length stk + 1 \<le> kMaxNestingDepth \<Longrightarrow>
      reads (CHR ''*'' # s) d stk
        (Advance (length l + 3) (\<lparr>remaining = unat i, elements = []\<rparr> # stk))"
    unfolding reads_def
    using 3 by (intro impI disjI2 exI [of _ l] exI [of _ "unat i"])
      (simp add: crlf_def unat_gt_0 eval_nat_numeral)
  with 3 nul emp show ?case by (simp add: eval_nat_numeral)
qed simp_all

lemma reads_parse_one: "s \<noteq> [] \<Longrightarrow> reads s d stk (parse_one s 0 stk)"
  by (cases s) (auto simp: parse_one_def Let_def
      intro: reads_case_line reads_case_integer reads_case_bulk reads_case_array)

lemma attach_at_sound:
  assumes "frames_enc stk (take pos buf)" and "resp_enc (length stk) v (take n (drop pos buf))"
  shows "case attach_at n v stk of
      Advance p stk' \<Rightarrow> p = n \<and> frames_enc stk' (take (pos + n) buf)
    | Root p root \<Rightarrow> p = n \<and> resp_enc 0 root (take (pos + n) buf)
    | Return res \<Rightarrow> True"
  using frames_enc_attach [OF assms] by (auto simp: attach_at_def take_add split: prod.splits option.splits)

lemma parse_one_sound:
  assumes lt: "pos < length buf" and fr: "frames_enc stk (take pos buf)"
  shows "parse_one buf pos stk = Advance pos' stk' \<Longrightarrow> frames_enc stk' (take pos' buf)"
    and "parse_one buf pos stk = Root pos' root \<Longrightarrow> resp_enc 0 root (take pos' buf)"
proof -
  let ?s = "drop pos buf"
  have one: "parse_one buf pos stk = shift_turn pos (parse_one ?s 0 stk)"
    using parse_one_shift [of pos 0 buf stk] lt by simp
  have tk: "take (pos + n) buf = take pos buf @ take n ?s" for n
    by (simp add: take_add)
  have "?s \<noteq> []" using lt by simp
  note rd = reads_parse_one [OF this, of "length stk" stk]
  note at = attach_at_sound [OF fr]
  show "frames_enc stk' (take pos' buf)" if a: "parse_one buf pos stk = Advance pos' stk'"
  proof -
    from a one obtain p where p: "parse_one ?s 0 stk = Advance p stk'" "pos' = pos + p"
      by (cases "parse_one ?s 0 stk") auto
    from rd p(1) consider
      (val) v n where "Advance p stk' = attach_at n v stk" "resp_enc (length stk) v (take n ?s)"
    | (arr) t n where "p = length t + 3" "stk' = \<lparr>remaining = n, elements = []\<rparr> # stk"
        "take p ?s = CHR ''*'' # t @ crlf"
        "token_value t = Some (of_nat n)" "0 < n" "n \<le> kMaxArrayLength"
        "length stk + 1 \<le> kMaxNestingDepth"
      by (auto simp: reads_def)
    then show ?thesis
    proof cases
      case val
      from at [OF val(2)] show ?thesis unfolding val(1) [symmetric] p(2) by simp
    next
      case arr
      with fr p show ?thesis
        by (simp add: tk) (intro exI [of _ "take pos buf"] exI [of _ t] exI [of _ "[]"], simp)
    qed
  qed
  show "resp_enc 0 root (take pos' buf)" if a: "parse_one buf pos stk = Root pos' root"
  proof -
    from a one obtain p where p: "parse_one ?s 0 stk = Root p root" "pos' = pos + p"
      by (cases "parse_one ?s 0 stk") auto
    from rd p(1) obtain v n where
      val: "Root p root = attach_at n v stk" "resp_enc (length stk) v (take n ?s)"
      by (auto simp: reads_def)
    from at [OF val(2)] show ?thesis unfolding val(1) [symmetric] p(2) by simp
  qed
qed

lemma parse_loop_sound:
  assumes "frames_enc stk (take pos buf)" and "parse_loop buf pos stk = Ready n v"
  shows "resp_enc 0 v (take n buf) \<and> n \<le> length buf"
  using assms
proof (induction buf pos stk rule: parse_loop.induct)
  case (1 buf pos stk)
  then have lt: "pos < length buf"
    by (auto simp: parse_loop.simps [of buf pos] split: if_splits)
  note snd = parse_one_sound [OF lt "1.prems"(1)]
  show ?case
  proof (cases "parse_one buf pos stk")
    case (Advance pos' stk')
    with "1.IH" [OF _ Advance] snd(1) [OF Advance] "1.prems"(2) lt show ?thesis
      by (simp add: parse_loop.simps [of buf pos])
  next
    case (Root pos' root)
    with snd(2) [OF Root] "1.prems"(2) lt parse_one_progress [OF disjI2, OF Root] show ?thesis
      by (auto simp: parse_loop.simps [of buf pos])
  next
    case (Return res)
    with "1.prems"(2) lt parse_one_Return [OF Return] show ?thesis
      by (auto simp: parse_loop.simps [of buf pos])
  qed
qed

subsection \<open>The parser and the grammar agree\<close>

lemma resp_enc_not_Nil: "resp_enc d v bs \<Longrightarrow> bs \<noteq> []"
  by (induction rule: resp_enc.induct) auto

lemma parseImpl_loop: "parseImpl buf = parse_loop buf 0 []"
  by (simp add: parseImpl_def parse_loop.simps [of buf 0])

lemma parseImpl_iff:
  "parseImpl buf = Ready n v \<longleftrightarrow> n \<le> length buf \<and> resp_enc 0 v (take n buf)"
proof
  assume "parseImpl buf = Ready n v"
  then show "n \<le> length buf \<and> resp_enc 0 v (take n buf)"
    using parse_loop_sound [of "[]" 0 buf n v] by (simp add: parseImpl_loop)
next
  assume n: "n \<le> length buf \<and> resp_enc 0 v (take n buf)"
  then have "parse_loop (take n buf @ drop n buf) 0 [] = resume v [] (length (take n buf)) (drop n buf)"
    by (intro parse_loop_complete) auto
  with n show "parseImpl buf = Ready n v"
    by (simp add: parseImpl_loop resume_def)
qed

lemma parseImpl_extend: "parseImpl buf \<noteq> NeedMoreData \<Longrightarrow> parseImpl (buf @ rest) = parseImpl buf"
  by (simp add: parseImpl_loop parse_loop_extend)

lemma parseImpl_encoding: "resp_enc 0 v bs \<Longrightarrow> parseImpl (bs @ rest) = Ready (length bs) v"
  by (simp add: parseImpl_iff)

lemma resp_enc_well_typed: "resp_enc d v bs \<Longrightarrow> well_typed v"
proof (induction rule: resp_enc.induct)
  case (enc_array t xs d bss)
  then have "list_all2 (\<lambda>x b. well_typed x) xs bss"
    by (auto elim: list_all2_mono)
  then show ?case by (auto simp: list_all2_conv_all_nth in_set_conv_nth)
qed auto

subsection \<open>Properties of the parser\<close>

text \<open>C7: the parser returns a value exactly when the buffer starts with one complete encoding of
  it in the RESP2 grammar (with the parser's limits on bulk size, array length and nesting), and it
  consumes exactly that encoding.\<close>

theorem parser_matches_grammar:
  "parseImpl buf = Ready n v \<longleftrightarrow> n \<le> length buf \<and> resp_enc 0 v (take n buf)"
  by (rule parseImpl_iff)

text \<open>A decision of the parser, a value or a malformed input, is final: bytes that arrive
  later do not change it.\<close>

theorem parser_decision_stable:
  assumes "parseImpl buf \<noteq> NeedMoreData"
  shows "parseImpl (buf @ rest) = parseImpl buf"
  using assms by (rule parseImpl_extend)

theorem parser_decision_stable_witness:
  "parseImpl ''+'' = NeedMoreData \<and> parseImpl (''?x'' @ ''yz'') = Malformed"
proof -
  have h: "parseImpl ''?x'' = Malformed"
    by (simp add: parseImpl_def parse_loop.simps parse_one_def)
  have "parseImpl ''+'' = NeedMoreData"
    by (simp add: parseImpl_def parse_loop.simps parse_one_def case_line_def findCrlf_def)
  with h parser_decision_stable [of "''?x''" "''yz''"] show ?thesis by simp
qed

text \<open>C26: the integer reader computes, with 64-bit arithmetic that never wraps, the value of the
  token's text: an optional sign and a non-empty run of digits whose value lies in the range of
  \<open>int64_t\<close>; every other text is rejected.\<close>

theorem parseInt64Token_exact:
  assumes "token_end \<le> length buf"
  shows "parseInt64Token buf token_start token_end =
    token_value (take (token_end - token_start) (drop token_start buf))"
  using assms by (rule parseInt64Token_text)

theorem parseInt64Token_exact_witness:
  "parseInt64Token '':-9223372036854775808x'' 1 21 = Some (2 ^ 63) \<and>
   parseInt64Token '':9223372036854775808'' 1 20 = None"
  using parseInt64Token_exact [of 21 "'':-9223372036854775808x''" 1]
    parseInt64Token_exact [of 20 "'':9223372036854775808''" 1]
  by (simp add: token_value_def dec_value_def is_digit_def digit_val_def)

text \<open>C24: the public \<open>parse\<close> removes a non-empty prefix of the buffer and writes a well-typed value
  when it reports success, and otherwise leaves both the buffer and the out parameter as they
  were, also when it reports an error.\<close>

theorem parse_effect:
  assumes "parse buffer outValue = (res, buffer', outValue')"
  shows "(res = Parse_kReady \<longrightarrow>
      well_typed outValue' \<and> (\<exists>n. 0 < n \<and> n \<le> length buffer \<and> buffer' = drop n buffer)) \<and>
    (res \<noteq> Parse_kReady \<longrightarrow> buffer' = buffer \<and> outValue' = outValue)"
proof (cases "parseImpl buffer")
  case (Ready n v)
  then have enc: "n \<le> length buffer" "resp_enc 0 v (take n buffer)" by (simp_all add: parseImpl_iff)
  then have "0 < n" using resp_enc_not_Nil by (cases n) auto
  with enc assms Ready show ?thesis by (auto simp: parse_def dest: resp_enc_well_typed)
qed (use assms in \<open>auto simp: parse_def\<close>)

theorem parse_effect_witness:
  "parse ''?bad'' default_value = (Parse_kError, ''?bad'', default_value)"
proof -
  have "parseImpl ''?bad'' = Malformed"
    by (simp add: parseImpl_def parse_loop.simps parse_one_def)
  then have e: "parse ''?bad'' default_value = (Parse_kError, ''?bad'', default_value)"
    by (simp add: parse_def)
  from parse_effect [OF e] e show ?thesis by simp
qed

end
