(* ===== verification/Resp_Serializer.thy ===== *)
theory Resp_Serializer
  imports Resp_Value
begin

section \<open>The RESP serializer\<close>

text \<open>
  \<open>src/respSerializer.cpp\<close>. The code serializes without recursion: a stack of frames, each an
  array and the index of its next element, and a pointer to the current value.
  \<open>serialize_loop\<close> is that loop (with \<open>advance\<close> for the inner loop that pops exhausted frames),
  \<open>estimate_loop\<close> the loop that computes how many bytes to reserve. \<open>std::get\<close> on the wrong
  alternative of the variant throws: the model returns \<open>None\<close>.

  \<open>serialize_rec\<close> is the obvious recursive reference. The lemmas show that the loops terminate,
  that the iterative serializer equals the reference, that it throws exactly when a tag and its
  variant disagree, and that the estimate is the exact length of the output.
\<close>

subsection \<open>Integers and lines\<close>

definition kNullBulkString :: bytes where "kNullBulkString = ''$-1'' @ crlf"
definition kNullArray :: bytes where "kNullArray = ''*-1'' @ crlf"
definition kUnknownType :: bytes where "kUnknownType = ''-ERR unknown type'' @ crlf"

text \<open>\<open>std::to_chars\<close> into a buffer of 32 chars; it reports an error when the text does not fit.\<close>

definition to_chars :: "int \<Rightarrow> bytes option" where
  "to_chars value = (if length (decimal value) \<le> 32 then Some (decimal value) else None)"

definition integer_length :: "int \<Rightarrow> nat" where
  "integer_length value = (case to_chars value of None \<Rightarrow> 0 | Some text \<Rightarrow> length text)"

definition append_integer :: "bytes \<Rightarrow> int \<Rightarrow> bytes" where
  "append_integer out value = (case to_chars value of None \<Rightarrow> out | Some text \<Rightarrow> out @ text)"

definition append_prefixed_line :: "bytes \<Rightarrow> char \<Rightarrow> bytes \<Rightarrow> bytes" where
  "append_prefixed_line out prefix text = out @ [prefix] @ text @ crlf"

definition append_non_array :: "bytes \<Rightarrow> RespValue \<Rightarrow> bytes option" where
  "append_non_array out value =
     (case value_type value of
        Type_kSimpleString \<Rightarrow> map_option (append_prefixed_line out (CHR ''+'')) (get_string value)
      | Type_kError \<Rightarrow> map_option (append_prefixed_line out (CHR ''-'')) (get_string value)
      | Type_kInteger \<Rightarrow>
          map_option (\<lambda>i. append_integer (out @ '':'') (sint i) @ crlf) (get_int64 value)
      | Type_kBulkString \<Rightarrow>
          map_option (\<lambda>str. append_integer (out @ ''$'') (int (length str)) @ crlf @ str @ crlf)
            (get_string value)
      | Type_kNullBulkString \<Rightarrow> Some (out @ kNullBulkString)
      | Type_kNullArray \<Rightarrow> Some (out @ kNullArray)
      | _ \<Rightarrow> Some (out @ kUnknownType))"

subsection \<open>The iterative serializer\<close>

record SerFrame =
  frame_elements :: "RespValue list"
  next_index :: nat

text \<open>The inner \<open>while\<close>: take the next element of the innermost array that has one left.\<close>

fun advance :: "SerFrame list \<Rightarrow> (RespValue \<times> SerFrame list) option" where
  "advance [] = None"
| "advance (frame # stack) =
     (if next_index frame < length (frame_elements frame)
      then Some (frame_elements frame ! next_index frame,
                 frame\<lparr>next_index := next_index frame + 1\<rparr> # stack)
      else advance stack)"

text \<open>One turn of the \<open>for (;;)\<close>: the output so far, and the next value with its stack unless the
  loop breaks. \<open>None\<close> is an exception.\<close>

definition serialize_turn ::
  "bytes \<Rightarrow> SerFrame list \<Rightarrow> RespValue \<Rightarrow> (bytes \<times> (RespValue \<times> SerFrame list) option) option" where
  "serialize_turn out stack current =
     (if value_type current = Type_kArray then
        (case get_array current of
           None \<Rightarrow> None
         | Some els \<Rightarrow>
             let out = append_integer (out @ ''*'') (int (length els)) @ crlf in
             if els \<noteq> []
             then Some (out, Some (els ! 0, \<lparr>frame_elements = els, next_index = 1\<rparr> # stack))
             else Some (out, advance stack))
      else
        (case append_non_array out current of
           None \<Rightarrow> None
         | Some out \<Rightarrow> Some (out, advance stack)))"

subsection \<open>The loop ends: the values still to come get fewer\<close>

definition pending :: "SerFrame list \<Rightarrow> RespValue list" where
  "pending stack = concat (map (\<lambda>f. drop (next_index f) (frame_elements f)) stack)"

lemma advance_None: "advance stack = None \<longleftrightarrow> pending stack = []"
  by (induction stack rule: advance.induct) (auto simp: pending_def)

lemma advance_Some: "advance stack = Some (v, stack') \<Longrightarrow> pending stack = v # pending stack'"
  by (induction stack rule: advance.induct)
    (auto simp: pending_def Cons_nth_drop_Suc [symmetric] split: if_splits)

lemma get_array_iff: "get_array v = Some xs \<longleftrightarrow> (\<exists>t. v = RespValue t (VArray xs))"
  by (cases v rule: RespValue_cases) auto

lemma size_array_elements: "get_array v = Some xs \<Longrightarrow> sum_list (map size xs) < size v"
  by (auto simp: get_array_iff size_list_conv_sum_list)

definition pending_size :: "RespValue list \<Rightarrow> nat" where
  "pending_size vs = sum_list (map size vs)"

lemma serialize_turn_pending:
  assumes "serialize_turn out stack current = Some (out', Some (current', stack'))"
  shows "pending_size (current' # pending stack') < pending_size (current # pending stack)"
proof (cases "value_type current = Type_kArray")
  case True
  with assms obtain els where els: "get_array current = Some els"
    by (auto simp: serialize_turn_def split: option.splits)
  note sz = size_array_elements [OF els]
  show ?thesis
  proof (cases els)
    case Nil
    with assms True els have "advance stack = Some (current', stack')"
      by (simp add: serialize_turn_def)
    with sz Nil show ?thesis by (auto simp: pending_size_def dest: advance_Some)
  next
    case (Cons x xs)
    with assms True els have "current' = x" and "stack' = \<lparr>frame_elements = els, next_index = 1\<rparr> # stack"
      by (auto simp: serialize_turn_def)
    with sz Cons show ?thesis by (simp add: pending_size_def pending_def)
  qed
next
  case False
  with assms have "advance stack = Some (current', stack')"
    by (auto simp: serialize_turn_def split: option.splits)
  then have "pending stack = current' # pending stack'" by (rule advance_Some)
  moreover have "0 < size current" by (cases current) simp
  ultimately show ?thesis by (simp add: pending_size_def)
qed

function serialize_loop :: "bytes \<Rightarrow> SerFrame list \<Rightarrow> RespValue \<Rightarrow> bytes option" where
  "serialize_loop out stack current =
     (case serialize_turn out stack current of
        None \<Rightarrow> None
      | Some (out', None) \<Rightarrow> Some out'
      | Some (out', Some (current', stack')) \<Rightarrow> serialize_loop out' stack' current')"
  by pat_completeness auto
termination
  by (relation "measure (\<lambda>(out, stack, current). pending_size (current # pending stack))")
    (auto dest: serialize_turn_pending)

declare serialize_loop.simps [simp del]

subsection \<open>The size estimate\<close>

definition estimate_one :: "RespValue \<Rightarrow> nat option" where
  "estimate_one value =
     (case value_type value of
        Type_kSimpleString \<Rightarrow> map_option (\<lambda>s. 1 + length s + length crlf) (get_string value)
      | Type_kError \<Rightarrow> map_option (\<lambda>s. 1 + length s + length crlf) (get_string value)
      | Type_kInteger \<Rightarrow> map_option (\<lambda>i. 1 + integer_length (sint i) + length crlf) (get_int64 value)
      | Type_kBulkString \<Rightarrow>
          map_option (\<lambda>s. 1 + integer_length (int (length s)) + length crlf + length s + length crlf)
            (get_string value)
      | Type_kNullBulkString \<Rightarrow> Some (length kNullBulkString)
      | Type_kArray \<Rightarrow>
          map_option (\<lambda>els. 1 + integer_length (int (length els)) + length crlf) (get_array value)
      | Type_kNullArray \<Rightarrow> Some (length kNullArray)
      | Type_kUnknown \<Rightarrow> Some (length kUnknownType))"

text \<open>What the loop pushes for a value: the elements of an array, first element on top.\<close>

definition children :: "RespValue \<Rightarrow> RespValue list" where
  "children value =
     (if value_type value = Type_kArray
      then (case get_array value of None \<Rightarrow> [] | Some els \<Rightarrow> els) else [])"

lemma children_size: "pending_size (children v) < size v"
proof (cases "get_array v")
  case None
  then have "children v = []" by (simp add: children_def)
  then show ?thesis by (cases v) (simp add: pending_size_def)
next
  case (Some els)
  with size_array_elements [OF Some] show ?thesis
    by (auto simp: children_def pending_size_def)
qed

function estimate_loop :: "nat \<Rightarrow> RespValue list \<Rightarrow> nat option" where
  "estimate_loop acc [] = Some acc"
| "estimate_loop acc (value # stack) =
     (case estimate_one value of
        None \<Rightarrow> None
      | Some n \<Rightarrow> estimate_loop (acc + n) (children value @ stack))"
  by pat_completeness auto
termination
  using children_size
  by (relation "measure (\<lambda>(acc, stack). pending_size stack)") (auto simp: pending_size_def)

definition estimate_serialized_size :: "RespValue \<Rightarrow> nat option" where
  "estimate_serialized_size root = estimate_loop 0 [root]"

subsection \<open>The serializer\<close>

text \<open>The estimate is computed first, for \<open>out.reserve\<close>; its exceptions are the serializer's.\<close>

definition serialize_iterative :: "RespValue \<Rightarrow> bytes option" where
  "serialize_iterative root =
     (case estimate_serialized_size root of
        None \<Rightarrow> None
      | Some reserved \<Rightarrow> serialize_loop [] [] root)"

definition serialize :: "RespValue \<Rightarrow> bytes option" where
  "serialize value = serialize_iterative value"

subsection \<open>The recursive reference\<close>

definition integer_text :: "int \<Rightarrow> bytes" where
  "integer_text i = (if length (decimal i) \<le> 32 then decimal i else [])"

fun serialize_rec :: "RespValue \<Rightarrow> bytes" where
  "serialize_rec (RespValue t (VString s)) =
     (if t = Type_kSimpleString then ''+'' @ s @ crlf
      else if t = Type_kError then ''-'' @ s @ crlf
      else if t = Type_kBulkString then ''$'' @ integer_text (int (length s)) @ crlf @ s @ crlf
      else if t = Type_kNullBulkString then kNullBulkString
      else if t = Type_kNullArray then kNullArray
      else kUnknownType)"
| "serialize_rec (RespValue t (VInt i)) =
     (if t = Type_kInteger then '':'' @ integer_text (sint i) @ crlf
      else if t = Type_kNullBulkString then kNullBulkString
      else if t = Type_kNullArray then kNullArray
      else kUnknownType)"
| "serialize_rec (RespValue t (VArray xs)) =
     (if t = Type_kArray
      then ''*'' @ integer_text (int (length xs)) @ crlf @ concat (map serialize_rec xs)
      else if t = Type_kNullBulkString then kNullBulkString
      else if t = Type_kNullArray then kNullArray
      else kUnknownType)"

lemma append_integer_text [simp]: "append_integer out i = out @ integer_text i"
  by (simp add: append_integer_def to_chars_def integer_text_def)

lemma integer_length_text [simp]: "integer_length i = length (integer_text i)"
  by (simp add: integer_length_def to_chars_def integer_text_def)

lemma append_non_array_rec:
  assumes "value_type v \<noteq> Type_kArray"
  shows "append_non_array out v = (if well_typed v then Some (out @ serialize_rec v) else None)"
  using assms
  by (cases v rule: RespValue_cases; cases "value_type v")
    (simp_all add: append_non_array_def append_prefixed_line_def)

lemma serialize_turn_rec:
  assumes "value_type v \<noteq> Type_kArray"
  shows "serialize_turn out stack v =
    (if well_typed v then Some (out @ serialize_rec v, advance stack) else None)"
  using assms by (simp add: serialize_turn_def append_non_array_rec)

lemma well_typed_array: "well_typed (ArrayValue xs) \<longleftrightarrow> (\<forall>x \<in> set xs. well_typed x)"
  by simp

lemma not_well_typed_array:
  assumes "value_type v = Type_kArray" and "get_array v = None"
  shows "\<not> well_typed v"
  using assms by (cases v rule: RespValue_cases) auto

text \<open>The loop writes the current value and then everything pending, unless one of them is
  ill-typed, in which case it throws.\<close>

lemma serialize_turn_cases:
  obtains (throws) "serialize_turn out stack v = None" "\<not> well_typed v"
  | (turn) o' stk where "serialize_turn out stack v = Some (o', advance stk)"
      "(\<forall>x \<in> set (pending stk). well_typed x) \<longleftrightarrow> well_typed v \<and> (\<forall>x \<in> set (pending stack). well_typed x)"
      "o' @ concat (map serialize_rec (pending stk)) = out @ serialize_rec v @ concat (map serialize_rec (pending stack))"
proof (cases "value_type v = Type_kArray")
  case False
  show ?thesis
  proof (cases "well_typed v")
    case True
    with False show ?thesis by (intro turn [of "out @ serialize_rec v" stack]) (simp_all add: serialize_turn_rec)
  next
    case ill: False
    with False show ?thesis by (intro throws) (simp_all add: serialize_turn_rec)
  qed
next
  case True
  show ?thesis
  proof (cases "get_array v")
    case None
    with True not_well_typed_array [OF True None] show ?thesis by (intro throws) (simp_all add: serialize_turn_def)
  next
    case (Some els)
    then have v: "v = ArrayValue els" using True by (auto simp: get_array_iff)
    let ?fr = "\<lparr>frame_elements = els, next_index = 0\<rparr> # stack"
    let ?out = "out @ ''*'' @ integer_text (int (length els)) @ crlf"
    have fr: "pending ?fr = els @ pending stack" by (simp add: pending_def)
    show ?thesis
    proof (cases "els = []")
      case True
      then show ?thesis by (intro turn [of ?out stack]) (simp_all add: serialize_turn_def v)
    next
      case False
      then have "serialize_turn out stack v = Some (?out, advance ?fr)" by (simp add: serialize_turn_def v)
      then show ?thesis by (rule turn) (auto simp only: fr v well_typed_array set_append map_append
          concat_append append_assoc serialize_rec.simps simp_thms if_True Un_iff)
    qed
  qed
qed

lemma serialize_loop_rec:
  "serialize_loop out stack v =
    (if well_typed v \<and> (\<forall>x \<in> set (pending stack). well_typed x)
     then Some (out @ serialize_rec v @ concat (map serialize_rec (pending stack)))
     else None)"
proof (induction out stack v rule: serialize_loop.induct)
  case (1 out stack v)
  show ?case
  proof (cases rule: serialize_turn_cases [of out stack v])
    case throws
    then show ?thesis by (simp add: serialize_loop.simps [of out stack v])
  next
    case (turn o' stk)
    have "serialize_loop out stack v =
        (if \<forall>x \<in> set (pending stk). well_typed x then Some (o' @ concat (map serialize_rec (pending stk))) else None)"
    proof (cases "advance stk")
      case None
      with turn(1) show ?thesis by (simp add: serialize_loop.simps [of out stack v] advance_None)
    next
      case (Some p)
      obtain v' stk' where p: "p = (v', stk')" by (cases p)
      have "pending stk = v' # pending stk'" using Some p by (simp add: advance_Some)
      moreover have "serialize_loop out stack v = serialize_loop o' stk' v'"
        using turn(1) Some p by (simp add: serialize_loop.simps [of out stack v])
      moreover note "1.IH" [OF turn(1) refl Some p [symmetric]]
      ultimately show ?thesis by simp
    qed
    then show ?thesis by (simp only: turn(2,3))
  qed
qed

lemma estimate_one_rec:
  "well_typed v \<Longrightarrow>
    map_option (\<lambda>n. n + length (concat (map serialize_rec (children v)))) (estimate_one v) =
    Some (length (serialize_rec v))"
  by (cases v rule: RespValue_cases; cases "value_type v")
    (simp_all add: estimate_one_def children_def)

lemma estimate_one_None:
  "\<not> well_typed v \<Longrightarrow> estimate_one v = None \<or> (\<exists>x \<in> set (children v). \<not> well_typed x)"
  by (cases v rule: RespValue_cases; cases "value_type v")
    (auto simp: estimate_one_def children_def)

lemma children_cases:
  obtains "children v = []" | els where "children v = els" and "v = ArrayValue els"
proof (cases "value_type v = Type_kArray \<and> get_array v \<noteq> None")
  case True
  then obtain els where "get_array v = Some els" by auto
  with True have "children v = els" and "v = ArrayValue els"
    by (auto simp: children_def get_array_iff)
  then show thesis by (rule that(2))
next
  case False
  then have "children v = []" by (auto simp: children_def)
  then show thesis by (rule that(1))
qed

lemma children_well_typed: "well_typed v \<Longrightarrow> x \<in> set (children v) \<Longrightarrow> well_typed x"
  by (rule children_cases [of v]) auto

lemma estimate_loop_rec:
  "estimate_loop acc stack =
    (if \<forall>v \<in> set stack. well_typed v
     then Some (acc + length (concat (map serialize_rec stack))) else None)"
proof (induction acc stack rule: estimate_loop.induct)
  case (1 acc)
  then show ?case by simp
next
  case (2 acc v stack)
  show ?case
  proof (cases "well_typed v")
    case True
    with estimate_one_rec [OF True] obtain n where n: "estimate_one v = Some n"
      and len: "n + length (concat (map serialize_rec (children v))) = length (serialize_rec v)"
      by auto
    have "(\<forall>x \<in> set (children v @ stack). well_typed x) \<longleftrightarrow> (\<forall>x \<in> set (v # stack). well_typed x)"
      using True children_well_typed [OF True] by auto
    with 2 [OF n] n len show ?thesis by (simp add: add.assoc)
  next
    case False
    then show ?thesis
      using estimate_one_None [OF False] 2 by (auto split: option.splits)
  qed
qed

lemma serialize_eq: "serialize v = (if well_typed v then Some (serialize_rec v) else None)"
  by (simp add: serialize_def serialize_iterative_def estimate_serialized_size_def
      estimate_loop_rec serialize_loop_rec pending_def)

subsection \<open>Properties of the serializer\<close>

text \<open>C12: the iterative serializer returns for every value: the bytes of the recursive reference
  when every tag agrees with its data, and an exception otherwise.\<close>

theorem serializer_equals_reference:
  "serialize v = (if well_typed v then Some (serialize_rec v) else None)"
  by (rule serialize_eq)

text \<open>C25: the number of bytes reserved in advance is exactly the number of bytes written, and the
  size computation throws exactly when the serializer does.\<close>

theorem estimate_is_exact:
  "estimate_serialized_size v = map_option length (serialize v)"
  by (simp add: serialize_eq estimate_serialized_size_def estimate_loop_rec)

end
