(* ===== verification/Stream_Codec.thy ===== *)
theory Stream_Codec
  imports Resp_Parser
begin

section \<open>Interfaces: decoding a byte stream message by message\<close>

text \<open>
  What a session relies on when it reads a connection. \<open>stream_decoder\<close> is the contract of a
  decoder that looks at a buffer holding the unread part of a stream: a decoded message takes at
  least one byte and no more than the buffer holds, an empty buffer asks for data, and a decision
  (a message, or a malformed input) is not changed by bytes that arrive later. \<open>codec\<close> adds an
  encoder whose output the decoder reads back.

  \<open>drains b vs b' bad\<close> is the effect of decoding as long as messages are complete: \<open>vs\<close> are the
  messages, \<open>b'\<close> the bytes left, and \<open>bad\<close> tells whether the decoder stopped at malformed input.
\<close>

locale stream_decoder =
  fixes decode :: "bytes \<Rightarrow> outcome"
  assumes decode_Nil: "decode [] = NeedMoreData"
    and decode_progress: "decode b = Ready n v \<Longrightarrow> 0 < n \<and> n \<le> length b"
    and decode_stable: "decode b \<noteq> NeedMoreData \<Longrightarrow> decode (b @ rest) = decode b"
begin

inductive drains :: "bytes \<Rightarrow> RespValue list \<Rightarrow> bytes \<Rightarrow> bool \<Rightarrow> bool" where
  drains_wait: "decode b = NeedMoreData \<Longrightarrow> drains b [] b False"
| drains_bad: "decode b = Malformed \<Longrightarrow> drains b [] b True"
| drains_message: "decode b = Ready n v \<Longrightarrow> drains (drop n b) vs b' bad \<Longrightarrow>
     drains b (v # vs) b' bad"

lemma drains_deterministic:
  assumes "drains b vs b' bad" and "drains b ws c' bad'"
  shows "vs = ws \<and> b' = c' \<and> bad = bad'"
  using assms
proof (induction arbitrary: ws rule: drains.induct)
  case (drains_wait b)
  from drains_wait.prems drains_wait.hyps show ?case by (cases rule: drains.cases) auto
next
  case (drains_bad b)
  from drains_bad.prems drains_bad.hyps show ?case by (cases rule: drains.cases) auto
next
  case (drains_message b n v vs b' bad)
  from drains_message.prems drains_message.hyps(1) obtain us
    where "ws = v # us" and "drains (drop n b) us c' bad'"
    by (cases rule: drains.cases) auto
  with drains_message.IH show ?case by auto
qed

lemma drains_total: "\<exists>vs b' bad. drains b vs b' bad"
proof (induction b rule: length_induct)
  case (1 b)
  show ?case
  proof (cases "decode b")
    case (Ready n v)
    then have "length (drop n b) < length b"
      using decode_progress [OF Ready] by auto
    with 1 obtain vs b' bad where "drains (drop n b) vs b' bad" by blast
    with Ready show ?thesis by (blast intro: drains_message)
  qed (blast intro: drains_wait drains_bad)+
qed

lemma drains_left: "drains b vs b' bad \<Longrightarrow> \<exists>used. b = used @ b'"
proof (induction rule: drains.induct)
  case (drains_message b n v vs b' bad)
  then obtain used where "drop n b = used @ b'" by blast
  then have "b = (take n b @ used) @ b'" by (metis append.assoc append_take_drop_id)
  then show ?case by blast
qed auto

text \<open>Chunking does not matter: decoding what has arrived and then what follows gives the same
  messages as decoding everything at once.\<close>

lemma drains_chunks:
  assumes "drains b vs b' False" and "drains (b' @ c) ws d bad"
  shows "drains (b @ c) (vs @ ws) d bad"
  using assms
proof (induction b vs b' "False" rule: drains.induct)
  case (drains_wait b)
  then show ?case by simp
next
  case (drains_message b n v vs b')
  then have "decode (b @ c) = Ready n v" and "n \<le> length b"
    using decode_stable [of b c] decode_progress by auto
  with drains_message show ?case by (auto intro: drains.drains_message)
qed simp

lemma drains_bad_stable:
  assumes "drains b vs b' True"
  shows "drains (b @ c) vs (b' @ c) True"
  using assms
proof (induction b vs b' "True" rule: drains.induct)
  case (drains_bad b)
  then have "decode (b @ c) = Malformed" using decode_stable [of b c] by simp
  then show ?case by (rule drains.drains_bad)
next
  case (drains_message b n v vs b')
  then have "decode (b @ c) = Ready n v" and "n \<le> length b"
    using decode_stable [of b c] decode_progress by auto
  with drains_message show ?case by (auto intro: drains.drains_message)
qed simp

text \<open>Reading a stream in two pieces.\<close>

lemma drains_split:
  assumes "drains (b @ c) vs d bad" and "drains b us b1 bad1"
  shows "bad1 \<Longrightarrow> vs = us \<and> bad" "\<not> bad1 \<Longrightarrow> \<exists>ws. vs = us @ ws \<and> drains (b1 @ c) ws d bad"
proof -
  show "vs = us \<and> bad" if bad1
    using drains_deterministic [OF assms(1)] drains_bad_stable [of b us b1 c] assms(2) that by auto
  show "\<exists>ws. vs = us @ ws \<and> drains (b1 @ c) ws d bad" if "\<not> bad1"
  proof -
    obtain ws d' bad' where ws: "drains (b1 @ c) ws d' bad'" using drains_total by blast
    with drains_chunks [OF _ this, of b us] drains_deterministic [OF assms(1)] assms(2) that show ?thesis by auto
  qed
qed

end

locale codec = stream_decoder decode
  for decode :: "bytes \<Rightarrow> outcome" +
  fixes encode :: "RespValue \<Rightarrow> bytes"
    and encodes :: "RespValue \<Rightarrow> bool"
  assumes decode_encode: "encodes v \<Longrightarrow> decode (encode v) = Ready (length (encode v)) v"
begin

lemma decode_encode_append: "encodes v \<Longrightarrow> decode (encode v @ rest) = Ready (length (encode v)) v"
  using decode_stable [of "encode v" rest] decode_encode [of v] by simp

text \<open>Messages written one after the other are read back as the same sequence.\<close>

lemma drains_pipeline:
  assumes "\<And>v. v \<in> set vs \<Longrightarrow> encodes v" and "drains rest ws b' bad"
  shows "drains (concat (map encode vs) @ rest) (vs @ ws) b' bad"
  using assms
proof (induction vs)
  case Nil
  then show ?case by simp
next
  case (Cons v vs)
  then have "decode (encode v @ concat (map encode vs) @ rest) = Ready (length (encode v)) v"
    by (simp add: decode_encode_append)
  moreover have "drains (concat (map encode vs) @ rest) (vs @ ws) b' bad"
    using Cons by simp
  ultimately show ?case by (auto intro: drains_message)
qed

lemma encode_inj: "encodes v \<Longrightarrow> encodes w \<Longrightarrow> encode v = encode w \<Longrightarrow> v = w"
  using decode_encode by (metis outcome.inject)

end

end
