(* ===== verification/Resp_Codec.thy ===== *)
theory Resp_Codec
  imports Resp_Grammar Resp_Serializer Stream_Codec
begin

section \<open>The parser and the serializer are a codec\<close>

text \<open>
  The two halves of the wire format, \<open>src/respParser.cpp\<close> and \<open>src/respSerializer.cpp\<close>, together.
  \<open>encodable d v\<close> describes the values the protocol can carry inside \<open>d\<close> open arrays: line
  strings without CR LF, bulk strings and arrays within the parser's limits, null values in their
  canonical form. The serializer's output for such a value is an encoding of the grammar, so the
  parser reads it back; the interpretations make the stream lemmas available for the real parser.
\<close>

fun encodable :: "nat \<Rightarrow> RespValue \<Rightarrow> bool" where
  "encodable d (RespValue t (VString s)) =
     (if t = Type_kSimpleString \<or> t = Type_kError then crlf_free s
      else if t = Type_kBulkString then length s \<le> kMaxBulkSize
      else if t = Type_kNullBulkString \<or> t = Type_kNullArray then s = []
      else False)"
| "encodable d (RespValue t (VInt i)) = (t = Type_kInteger)"
| "encodable d (RespValue t (VArray xs)) =
     (t = Type_kArray \<and> length xs \<le> kMaxArrayLength \<and>
      (xs \<noteq> [] \<longrightarrow> d + 1 \<le> kMaxNestingDepth) \<and> (\<forall>x \<in> set xs. encodable (d + 1) x))"

subsection \<open>Printed integers read back\<close>

lemma token_value_nat_digits:
  assumes "n < 2 ^ 63"
  shows "token_value (nat_digits n) = Some (of_nat n)"
proof -
  have "hd (nat_digits n) \<in> set (nat_digits n)" by simp
  then have "is_digit (hd (nat_digits n))" by (rule nat_digits_is_digit)
  then have "hd (nat_digits n) \<noteq> CHR ''+''" and "hd (nat_digits n) \<noteq> CHR ''-''" by auto
  with assms show ?thesis
    by (auto simp: token_value_def Let_def dest: nat_digits_is_digit)
qed

lemma token_value_negative:
  assumes "n \<le> 2 ^ 63"
  shows "token_value (CHR ''-'' # nat_digits n) = Some (- of_nat n)"
  using assms by (auto simp: token_value_def Let_def dest: nat_digits_is_digit)

lemma token_value_decimal:
  assumes "- (2 ^ 63) \<le> i" and "i < 2 ^ 63"
  shows "token_value (decimal i) = Some (word_of_int i)"
proof (cases "i < 0")
  case True
  have "token_value (CHR ''-'' # nat_digits (nat (- i))) = Some (- of_nat (nat (- i)))"
    using assms by (intro token_value_negative) simp
  with True show ?thesis by (simp add: decimal_def)
next
  case False
  have "token_value (nat_digits (nat i)) = Some (of_nat (nat i))"
    using assms False by (intro token_value_nat_digits) simp
  with False show ?thesis by (simp add: decimal_def)
qed

lemma integer_text_decimal: "- (2 ^ 63) \<le> i \<Longrightarrow> i < 2 ^ 64 \<Longrightarrow> integer_text i = decimal i"
  using length_decimal_int64 [of i] by (simp add: integer_text_def)

lemma token_value_int64: "token_value (integer_text (sint (w :: int64))) = Some w"
  using sint64_bounds [of w] token_value_decimal [of "sint w"]
  by (simp add: integer_text_decimal)

lemma token_value_size: "n < 2 ^ 63 \<Longrightarrow> token_value (integer_text (int n)) = Some (of_nat n)"
  using token_value_decimal [of "int n"] by (simp add: integer_text_decimal)

lemma token_value_minus_one: "token_value ''-1'' = Some (-1)"
  by (simp add: token_value_def dec_value_def is_digit_def digit_val_def)

subsection \<open>Serialized values are encodings\<close>

lemma serialize_rec_enc: "encodable d v \<Longrightarrow> resp_enc d v (serialize_rec v)"
proof (induction v arbitrary: d rule: RespValue_induct)
  case (String t s)
  have nul: "resp_enc d NullBulkString kNullBulkString" "resp_enc d NullArray kNullArray"
    using enc_null_bulk [OF token_value_minus_one] enc_null_array [OF token_value_minus_one]
    by (simp_all add: kNullBulkString_def kNullArray_def)
  have "length s \<le> kMaxBulkSize \<Longrightarrow> length s < 2 ^ 63"
    by (simp add: kMaxBulkSize_def)
  then have "length s \<le> kMaxBulkSize \<Longrightarrow> resp_enc d (BulkString s)
      (CHR ''$'' # integer_text (int (length s)) @ crlf @ s @ crlf)"
    by (intro enc_bulk token_value_size) simp_all
  with String nul show ?case
    by (auto simp: enc_simple enc_error split: if_splits)
next
  case (Int t i)
  then show ?case by (simp add: enc_integer token_value_int64)
next
  case (Array t xs)
  have len: "length xs < 2 ^ 63" using Array.prems by (simp add: kMaxArrayLength_def)
  have "list_all2 (resp_enc (d + 1)) xs (map serialize_rec xs)"
    using Array by (simp add: list_all2_conv_all_nth)
  then show ?case
    using Array.prems token_value_size [OF len]
    by (cases "xs = []") (simp_all add: enc_array enc_empty_array)
qed

lemma encodable_well_typed: "encodable d v \<Longrightarrow> well_typed v"
  by (rule resp_enc_well_typed [OF serialize_rec_enc])

lemma serialize_encodable: "encodable d v \<Longrightarrow> serialize v = Some (serialize_rec v)"
  by (simp add: serialize_eq encodable_well_typed)

subsection \<open>The contracts hold\<close>

interpretation resp: stream_decoder parseImpl
proof
  show "parseImpl [] = NeedMoreData" by (simp add: parseImpl_def)
next
  fix b n v
  assume "parseImpl b = Ready n v"
  then have "n \<le> length b" and "resp_enc 0 v (take n b)" by (simp_all add: parseImpl_iff)
  then show "0 < n \<and> n \<le> length b"
    using resp_enc_not_Nil by (cases n) auto
next
  fix b rest
  assume "parseImpl b \<noteq> NeedMoreData"
  then show "parseImpl (b @ rest) = parseImpl b" by (rule parseImpl_extend)
qed

interpretation resp_codec: codec parseImpl serialize_rec "encodable 0"
proof
  fix v
  assume "encodable 0 v"
  then have "resp_enc 0 v (serialize_rec v)" by (rule serialize_rec_enc)
  from parseImpl_encoding [OF this, of "[]"]
  show "parseImpl (serialize_rec v) = Ready (length (serialize_rec v)) v" by simp
qed

subsection \<open>Properties of the wire format\<close>

text \<open>C10: whatever the serializer writes for a value the protocol can carry, the parser reads back
  as the same value, consuming exactly those bytes, whatever follows them.\<close>

theorem codec_roundtrip:
  assumes "encodable 0 v"
  shows "\<exists>bs. serialize v = Some bs \<and> parseImpl (bs @ rest) = Ready (length bs) v"
  using serialize_encodable [OF assms] resp_codec.decode_encode_append [OF assms] by blast

theorem codec_roundtrip_witness:
  "\<exists>bs. serialize (ArrayValue [BulkString ''GET'', IntegerValue (-5), NullBulkString]) = Some bs \<and>
    parseImpl (bs @ ''PING'') =
      Ready (length bs) (ArrayValue [BulkString ''GET'', IntegerValue (-5), NullBulkString])"
  by (rule codec_roundtrip)
    (simp add: resp_limits)

end
