(* ===== verification/Reply_Codec.thy ===== *)
theory Reply_Codec
  imports Executor_Properties Resp_Codec
begin

section \<open>Replies can be read back\<close>

text \<open>
  The shape that \<open>Executor_Contract\<close> gives to every reply (\<open>reply_within\<close>) is one the wire format can
  carry, as long as the sizes stay within the parser's limit for bulk strings. Sequences of replies
  are read back by a client that uses the same parser, one by one.
\<close>

lemma reply_within_encodable:
  assumes "reply_within B d v" and "B \<le> kMaxBulkSize"
  shows "encodable d v"
  using assms(1)
proof (induction v arbitrary: d rule: RespValue_induct)
  case (String t s)
  then show ?case using assms(2) by (auto simp: reply_within.simps crlf_free_no_cr split: if_splits)
next
  case (Int t i)
  then show ?case by (simp add: reply_within.simps)
next
  case (Array t xs)
  then have "encodable (d + 1) x" if "x \<in> set xs" for x using that by (auto simp: reply_within.simps)
  with Array.prems show ?case by (auto simp: reply_within.simps resp_limits)
qed

lemma reply_within_serialize: "reply_within B d v \<Longrightarrow> serialize v = Some (serialize_rec v)"
  by (simp add: serialize_eq reply_within_well_typed)

text \<open>A message that a session sends.\<close>

definition reply_message :: "nat \<Rightarrow> bytes \<Rightarrow> bool" where
  "reply_message B message \<longleftrightarrow> (\<exists>v. reply_within B 0 v \<and> message = serialize_rec v)"

lemma reply_messageI: "reply_within B 0 v \<Longrightarrow> reply_message B (serialize_rec v)"
  by (auto simp: reply_message_def)

lemma messages_read_back:
  assumes "\<forall>message \<in> set messages. reply_message B message" and "B \<le> kMaxBulkSize"
  shows "\<exists>vs. messages = map serialize_rec vs \<and> resp.drains (concat messages) vs [] False"
proof -
  obtain val where val: "\<And>message. message \<in> set messages \<Longrightarrow> reply_within B 0 (val message) \<and> message = serialize_rec (val message)"
    using assms(1) unfolding reply_message_def by metis
  then have "messages = map serialize_rec (map val messages)" by (simp add: map_idI)
  moreover have "resp.drains (concat (map serialize_rec (map val messages))) (map val messages) [] False"
    using resp_codec.drains_pipeline [of "map val messages" "[]" "[]" "[]" False] resp.drains_wait [OF resp.decode_Nil]
      reply_within_encodable [OF _ assms(2)] val by auto
  ultimately show ?thesis by metis
qed

end
