(* ===== verification/Session.thy ===== *)
theory Session
  imports Reply_Codec
begin

section \<open>A client session\<close>

text \<open>
  \<open>include/session.hpp\<close> and \<open>src/session.cpp\<close>. A session owns a buffer of received bytes. It
  answers every complete request in the buffer, then reads more; it ends when the client closes the
  connection, on a read error, on malformed input, and when an incomplete request fills the buffer.

  The socket is third-party code. \<open>async_read_some\<close> is an argument: the event it completes with,
  which is at most as many bytes as there is room for, the end of the stream, or an error.
  \<open>async_write\<close> sends the message or fails; the code ignores the failure, so the model records the
  messages handed to it. Logging is left out.

  \<open>drain\<close> is the inner loop of \<open>Session::run\<close> and \<open>session_run\<close> the whole of it, for a session that
  has the pool to itself; the interleaved form is in \<open>Concurrent_Server\<close>. Both share
  \<open>next_request\<close>, the decision the loop takes on the buffer.
\<close>

datatype ReadResult = Read_kNewMessage | Read_kCloseConnection | Read_kReadError | Read_kMessageTooLarge

datatype read_event = ReadData bytes | ReadEof | ReadFail

text \<open>What the inner loop does next with the buffer: wait for data, give up, refuse a request, or
  execute a command. The bytes are the buffer afterwards.\<close>

datatype request_step =
    AwaitData bytes
  | RejectStream bytes
  | RejectRequest bytes
  | ExecuteRequest Command bytes

definition next_request :: "bytes \<Rightarrow> request_step option" where
  "next_request buffer =
     (if buffer = [] then Some (AwaitData buffer)
      else case parse buffer default_value of
        (Parse_kNeedMoreData, buffer', value) \<Rightarrow> Some (AwaitData buffer')
      | (Parse_kError, buffer', value) \<Rightarrow> Some (RejectStream buffer')
      | (Parse_kReady, buffer', value) \<Rightarrow>
          (case toCommand value of
             None \<Rightarrow> None
           | Some None \<Rightarrow> Some (RejectRequest buffer')
           | Some (Some command) \<Rightarrow> Some (ExecuteRequest command buffer')))"

definition malformed_reply :: RespValue where "malformed_reply = ErrorValue ''ERR malformed request''"
definition invalid_reply :: RespValue where "invalid_reply = ErrorValue ''ERR invalid command''"
definition too_large_reply :: RespValue where "too_large_reply = ErrorValue ''ERR request is too large''"

lemma next_request_shrinks:
  "next_request buffer = Some (RejectRequest buffer') \<Longrightarrow> length buffer' < length buffer"
  "next_request buffer = Some (ExecuteRequest cmd buffer') \<Longrightarrow> length buffer' < length buffer"
proof -
  have "length buffer' < length buffer"
    if step: "next_request buffer = Some (RejectRequest buffer') \<or> next_request buffer = Some (ExecuteRequest cmd buffer')"
  proof -
    obtain n v where "parseImpl buffer = Ready n v" "buffer' = drop n buffer"
      using step by (auto simp: next_request_def parse_def split: if_splits outcome.splits option.splits)
    with resp.decode_progress [of buffer n v] show ?thesis by auto
  qed
  then show "next_request buffer = Some (RejectRequest buffer') \<Longrightarrow> length buffer' < length buffer"
    "next_request buffer = Some (ExecuteRequest cmd buffer') \<Longrightarrow> length buffer' < length buffer"
    by blast+
qed

text \<open>The inner loop of \<open>Session::run\<close>: messages sent, buffer left, whether the session is to be
  closed, and the pool. The clock readings are given per request.\<close>

function drain :: "(bytes \<Rightarrow> uint64) \<Rightarrow> thread \<Rightarrow> size_t \<Rightarrow> (nat \<Rightarrow> nat \<Rightarrow> clock) \<Rightarrow> bytes \<Rightarrow> ShardPool \<Rightarrow>
    (bytes list \<times> bytes \<times> bool \<times> ShardPool) option" where
  "drain hash th home clks buffer p =
     (case next_request buffer of
        None \<Rightarrow> None
      | Some (AwaitData buffer') \<Rightarrow> Some ([], buffer', False, p)
      | Some (RejectStream buffer') \<Rightarrow>
          map_option (\<lambda>message. ([message], buffer', True, p)) (serialize malformed_reply)
      | Some (RejectRequest buffer') \<Rightarrow> do {
          message \<leftarrow> serialize invalid_reply;
          (messages, rest) \<leftarrow> drain hash th home (\<lambda>i. clks (Suc i)) buffer' p;
          Some (message # messages, rest)
        }
      | Some (ExecuteRequest cmd buffer') \<Rightarrow> do {
          t \<leftarrow> execute hash th p cmd (Some home);
          (response, p) \<leftarrow> run_task t (clks 0) p;
          message \<leftarrow> serialize response;
          (messages, rest) \<leftarrow> drain hash th home (\<lambda>i. clks (Suc i)) buffer' p;
          Some (message # messages, rest)
        })"
  by pat_completeness auto
termination
  by (relation "measure (\<lambda>(hash, th, home, clks, buffer, p). length buffer)")
    (auto dest: next_request_shrinks)

declare drain.simps [simp del]

text \<open>\<open>Session::read\<close> with the event the socket delivers, and the size limit as the constructor sets
  it.\<close>

definition session_limit :: "size_t \<Rightarrow> size_t" where
  "session_limit max_message_size = (if max_message_size = 0 then 1 else max_message_size)"

definition session_read :: "size_t \<Rightarrow> read_event \<Rightarrow> bytes \<Rightarrow> ReadResult \<times> bytes" where
  "session_read limit event buffer =
     (if length buffer \<ge> unat limit then (Read_kMessageTooLarge, buffer)
      else case event of
        ReadEof \<Rightarrow> (Read_kCloseConnection, buffer)
      | ReadFail \<Rightarrow> (Read_kReadError, buffer)
      | ReadData received \<Rightarrow> (Read_kNewMessage, buffer @ received))"

text \<open>\<open>Session::run\<close> over the events of a connection: all messages sent, and the pool. The call of
  \<open>read\<close> at the end of a turn refuses a full buffer before it asks the socket, whether or not
  anything is still to come. The events are those of the connection as far as it has got: where a
  session with room in its buffer has none left, it is waiting for the socket. \<open>messages\<close> counts the requests
  served, to index the clock readings.\<close>

fun session_run :: "(bytes \<Rightarrow> uint64) \<Rightarrow> thread \<Rightarrow> size_t \<Rightarrow> size_t \<Rightarrow> (nat \<Rightarrow> nat \<Rightarrow> clock) \<Rightarrow>
    read_event list \<Rightarrow> bytes \<Rightarrow> ShardPool \<Rightarrow> (bytes list \<times> ShardPool) option" where
  "session_run hash th home limit clks events buffer p =
     (case drain hash th home clks buffer p of
        None \<Rightarrow> None
      | Some (messages, buffer', close_session, p') \<Rightarrow>
          if close_session then Some (messages, p')
          else if length buffer' \<ge> unat limit then
            map_option (\<lambda>message. (messages @ [message], p')) (serialize too_large_reply)
          else (case events of
            [] \<Rightarrow> Some (messages, p')
          | event # events' \<Rightarrow>
              (case session_read limit event buffer' of
                 (Read_kMessageTooLarge, b) \<Rightarrow>
                   map_option (\<lambda>message. (messages @ [message], p')) (serialize too_large_reply)
               | (Read_kNewMessage, b) \<Rightarrow>
                   map_option (\<lambda>(messages', p''). (messages @ messages', p''))
                     (session_run hash th home limit (\<lambda>i. clks (length messages + i)) events' b p')
               | (_, b) \<Rightarrow> Some (messages, p'))))"

declare session_run.simps [simp del]

subsection \<open>Serving the decoded requests\<close>

text \<open>What the session does, given the values the client sent: a reply per value, in order.\<close>

definition serve_value :: "(bytes \<Rightarrow> uint64) \<Rightarrow> thread \<Rightarrow> size_t \<Rightarrow> (nat \<Rightarrow> clock) \<Rightarrow> RespValue \<Rightarrow> ShardPool \<Rightarrow>
    (RespValue \<times> ShardPool) option" where
  "serve_value hash th home clks v p =
     (case toCommand v of
        None \<Rightarrow> None
      | Some None \<Rightarrow> Some (invalid_reply, p)
      | Some (Some cmd) \<Rightarrow> do { t \<leftarrow> execute hash th p cmd (Some home); run_task t clks p })"

fun serve_values :: "(bytes \<Rightarrow> uint64) \<Rightarrow> thread \<Rightarrow> size_t \<Rightarrow> (nat \<Rightarrow> nat \<Rightarrow> clock) \<Rightarrow> RespValue list \<Rightarrow> ShardPool \<Rightarrow>
    (RespValue list \<times> ShardPool) option" where
  "serve_values hash th home clks [] p = Some ([], p)"
| "serve_values hash th home clks (v # vs) p =
     (case serve_value hash th home (clks 0) v p of
        None \<Rightarrow> None
      | Some (r, p') \<Rightarrow>
          (case serve_values hash th home (\<lambda>i. clks (Suc i)) vs p' of
             None \<Rightarrow> None
           | Some (rs, p'') \<Rightarrow> Some (r # rs, p'')))"

lemma serve_values_length: "serve_values hash th home clks vs p = Some (rs, p') \<Longrightarrow> length rs = length vs"
  by (induction vs arbitrary: clks p rs) (auto split: option.splits)

lemma serve_values_append:
  "serve_values hash th home clks (vs @ ws) p =
     (case serve_values hash th home clks vs p of
        None \<Rightarrow> None
      | Some (rs, p') \<Rightarrow>
          map_option (map_prod (append rs) id) (serve_values hash th home (\<lambda>i. clks (length vs + i)) ws p'))"
proof (induction vs arbitrary: clks p)
  case Nil
  then show ?case by (cases "serve_values hash th home clks ws p") (auto simp: map_prod_def)
next
  case (Cons v vs)
  show ?case
    by (auto simp: Cons.IH map_prod_def option.map_comp split: option.splits intro!: option.map_cong)
qed

text \<open>The size of the strings in a value, which the encoding bounds from above.\<close>

fun value_size :: "RespValue \<Rightarrow> nat" where
  "value_size (RespValue t (VString s)) = length s"
| "value_size (RespValue t (VInt i)) = 0"
| "value_size (RespValue t (VArray xs)) = sum_list (map value_size xs)"

lemma resp_enc_size: "resp_enc d v bs \<Longrightarrow> value_size v \<le> length bs"
proof (induction rule: resp_enc.induct)
  case (enc_array t xs d bss)
  then have "list_all2 (\<lambda>x b. value_size x \<le> length b) xs bss"
    by (auto elim: list_all2_mono)
  then have "sum_list (map value_size xs) \<le> length (concat bss)"
    by (induction rule: list_all2_induct) auto
  then show ?case by simp
qed auto

lemma parse_ready:
  assumes "parseImpl b = Ready n v"
  shows "well_typed v" "value_size v \<le> length b"
proof -
  have enc: "n \<le> length b" "resp_enc 0 v (take n b)" using assms by (simp_all add: parseImpl_iff)
  show "well_typed v" by (rule resp_enc_well_typed [OF enc(2)])
  show "value_size v \<le> length b" using resp_enc_size [OF enc(2)] enc(1) by simp
qed

lemma drains_values:
  "resp.drains b vs b' bad \<Longrightarrow> v \<in> set vs \<Longrightarrow> well_typed v \<and> value_size v \<le> length b"
proof (induction rule: resp.drains.induct)
  case (drains_message b n v' vs b' bad)
  then show ?case using parse_ready [OF drains_message.hyps(1)] by auto
qed auto

lemma next_request_eq:
  "parseImpl b = NeedMoreData \<Longrightarrow> next_request b = Some (AwaitData b)"
  "parseImpl b = Malformed \<Longrightarrow> next_request b = Some (RejectStream b)"
  "parseImpl b = Ready n v \<Longrightarrow> next_request b =
     (case toCommand v of
        None \<Rightarrow> None
      | Some None \<Rightarrow> Some (RejectRequest (drop n b))
      | Some (Some cmd) \<Rightarrow> Some (ExecuteRequest cmd (drop n b)))"
  using resp.decode_Nil by (auto simp: next_request_def parse_def)

definition stream_error :: "bool \<Rightarrow> RespValue list" where
  "stream_error bad = (if bad then [malformed_reply] else [])"

lemma request_args_size:
  assumes "request vs = Some cmd" and "\<forall>x \<in> set vs. well_typed x" and "a \<in> set (cmd_args cmd)"
  shows "length a \<le> value_size (ArrayValue vs)"
proof -
  obtain x rest where vs: "vs = x # rest" "cmd_args cmd = map (the \<circ> get_string) rest" "\<forall>y \<in> set rest. is_string_type y"
    using assms(1) by (auto simp: request_def Let_def split: list.splits if_splits)
  then obtain y where y: "y \<in> set rest" "a = the (get_string y)" using assms(3) by auto
  moreover from y(1) vs assms(2) have "well_typed y" "is_string_type y" by simp_all
  ultimately have "length a = value_size y" by (cases y rule: RespValue_cases) (auto simp: is_string_type_def)
  also have "\<dots> \<le> sum_list (map value_size vs)" using y(1) vs(1) by (intro member_le_sum_list) auto
  finally show ?thesis by simp
qed

lemma decoded_command:
  assumes "well_typed v"
  shows "\<exists>c. toCommand v = Some c \<and> (\<forall>cmd. c = Some cmd \<longrightarrow>
    valid_command cmd \<and> (unat m + value_size v < 2 ^ 64 \<longrightarrow> cmd_fits m cmd) \<and>
    (\<forall>a \<in> set (cmd_args cmd). length a \<le> value_size v))"
proof (cases "value_type v = Type_kArray")
  case False
  then show ?thesis by (simp add: toCommand_not_array)
next
  case True
  then obtain vs where vs: "v = ArrayValue vs" "\<forall>x \<in> set vs. well_typed x" using well_typed_arrayD [OF assms] by blast
  have size: "is_string_type x \<Longrightarrow> x \<in> set vs \<Longrightarrow> length (the (get_string x)) = value_size x" for x
    using vs(2) by (cases x rule: RespValue_cases) (auto simp: is_string_type_def)
  have "cmd_fits m cmd" if cmd: "request vs = Some cmd" and fits: "unat m + value_size v < 2 ^ 64" for cmd
  proof (cases "cmd_args cmd")
    case (Cons k as)
    with cmd obtain x y rest where "vs = x # y # rest" "is_string_type y" "k = the (get_string y)"
        "as = map (the \<circ> get_string) rest" "\<forall>z \<in> set rest. is_string_type z"
      by (auto simp: request_def Let_def split: list.splits if_splits)
    then show ?thesis
      using fits size vs(1) Cons by (cases rest) (auto simp: cmd_fits_def)
  qed (simp add: cmd_fits_def)
  then show ?thesis using vs request_valid request_args_size [OF _ vs(2)] by (fastforce simp: toCommand_array simp del: value_size.simps)
qed

lemma serve_value_ok:
  assumes pool: "pool_ok hash m p" and home: "home < pool_size p" and v: "well_typed v"
    and fits: "unat m + value_size v < 2 ^ 64"
  shows "\<exists>r p'. serve_value hash th home clks v p = Some (r, p') \<and> well_typed r \<and> pool_ok hash m p' \<and> same_threads p p'"
proof -
  obtain c where c: "toCommand v = Some c" "\<And>cmd. c = Some cmd \<Longrightarrow> valid_command cmd \<and> cmd_fits m cmd"
    using decoded_command [OF v, of m] fits by auto
  have "home_ok p (Some home)" using home by (simp add: home_ok_def)
  note run = exec.runs [OF TrueI pool _ _ this, of _ th]
  show ?thesis
  proof (cases c)
    case None
    with c pool show ?thesis by (simp add: serve_value_def invalid_reply_def)
  next
    case (Some cmd)
    with c(2) obtain t where "execute hash th p cmd (Some home) = Some t"
        "\<exists>r p'. run_task t clks p = Some (r, p') \<and> well_typed r \<and> pool_ok hash m p' \<and> same_threads p p'"
      using run by blast
    then show ?thesis using c Some by (auto simp: serve_value_def)
  qed
qed

lemma serve_values_ok:
  assumes "pool_ok hash m p" and "home < pool_size p"
    and "\<And>v. v \<in> set vs \<Longrightarrow> well_typed v \<and> unat m + value_size v < 2 ^ 64"
  shows "\<exists>rs p'. serve_values hash th home clks vs p = Some (rs, p') \<and> list_all well_typed rs \<and>
    pool_ok hash m p' \<and> same_threads p p'"
  using assms
proof (induction vs arbitrary: clks p)
  case (Cons v vs)
  obtain r p1 where p1: "serve_value hash th home (clks 0) v p = Some (r, p1)" "well_typed r" "pool_ok hash m p1"
      "same_threads p p1"
    using serve_value_ok [OF Cons.prems(1,2)] Cons.prems(3) by (metis list.set_intros(1))
  have "home < pool_size p1" using Cons.prems(2) same_threads_size [OF p1(4)] by simp
  from Cons.IH [OF p1(3) this, of "\<lambda>i. clks (Suc i)"] Cons.prems(3) obtain rs p2 where
    "serve_values hash th home (\<lambda>i. clks (Suc i)) vs p1 = Some (rs, p2)" "list_all well_typed rs" "pool_ok hash m p2"
      "same_threads p1 p2"
    by auto
  with p1 show ?case using same_threads_trans [OF p1(4)] by auto
qed simp

text \<open>The inner loop serves the values that the buffer holds.\<close>

lemma drain_values:
  assumes "resp.drains b vs b' bad" and "serve_values hash th home clks vs p = Some (rs, p')"
    and "list_all well_typed rs"
  shows "drain hash th home clks b p = Some (map serialize_rec (rs @ stream_error bad), b', bad, p')"
  using assms
proof (induction arbitrary: clks p rs rule: resp.drains.induct)
  case (drains_wait b)
  then show ?case by (simp add: drain.simps [of hash th home clks b] next_request_eq stream_error_def)
next
  case (drains_bad b)
  then show ?case
    by (simp add: drain.simps [of hash th home clks b] next_request_eq stream_error_def serialize_eq malformed_reply_def)
next
  case (drains_message b n v vs b' bad)
  obtain r p1 rs' where r: "serve_value hash th home (clks 0) v p = Some (r, p1)"
      "serve_values hash th home (\<lambda>i. clks (Suc i)) vs p1 = Some (rs', p')" "rs = r # rs'"
    using drains_message.prems(1) by (auto split: option.splits)
  have wt: "well_typed r" "list_all well_typed rs'" using drains_message.prems(2) r(3) by auto
  have next_req: "next_request b = (case toCommand v of None \<Rightarrow> None
      | Some None \<Rightarrow> Some (RejectRequest (drop n b)) | Some (Some cmd) \<Rightarrow> Some (ExecuteRequest cmd (drop n b)))"
    by (rule next_request_eq(3) [OF drains_message.hyps(1)])
  have "drain hash th home (\<lambda>i. clks (Suc i)) (drop n b) p1 =
      Some (map serialize_rec (rs' @ stream_error bad), b', bad, p')"
    by (rule drains_message.IH [OF r(2) wt(2)])
  moreover have "serialize r = Some (serialize_rec r)" using wt(1) by (simp add: serialize_eq)
  ultimately show ?case
    using r(1) by (auto simp: drain.simps [of hash th home clks b] next_req r(3) serve_value_def
        split: option.splits Option.bind_splits)
qed

lemma serve_drained:
  assumes "pool_ok hash m p" and "home < pool_size p" and "unat m + length b < 2 ^ 64" and "resp.drains b vs b' bad"
  shows "\<exists>rs p'. serve_values hash th home clks vs p = Some (rs, p') \<and> list_all well_typed rs \<and>
    pool_ok hash m p' \<and> same_threads p p' \<and>
    drain hash th home clks b p = Some (map serialize_rec (rs @ stream_error bad), b', bad, p')"
proof -
  have "well_typed v \<and> unat m + value_size v < 2 ^ 64" if "v \<in> set vs" for v
    using drains_values [OF assms(4) that] assms(3) by auto
  with serve_values_ok [OF assms(1,2)] obtain rs p' where
    "serve_values hash th home clks vs p = Some (rs, p')" "list_all well_typed rs" "pool_ok hash m p'" "same_threads p p'"
    by metis
  with drain_values [OF assms(4) this(1,2)] show ?thesis by blast
qed

text \<open>What the inner loop leaves of a buffer, and whether a sequence of reads is one that
  \<open>async_read_some\<close> can deliver: each brings at least one byte and no more than there is room for
  behind what was left of the reads before it. Once the stream is malformed nothing more is read.\<close>

function unread :: "bytes \<Rightarrow> bytes" where
  "unread b = (case parseImpl b of Ready n v \<Rightarrow> unread (drop n b) | _ \<Rightarrow> b)"
  by pat_completeness auto
termination
  by (relation "measure length") (auto dest: resp.decode_progress)

declare unread.simps [simp del]

fun reads_fit :: "size_t \<Rightarrow> bytes \<Rightarrow> bytes list \<Rightarrow> bool" where
  "reads_fit limit b [] = True"
| "reads_fit limit b (c # cs) =
     (parseImpl (unread b) = Malformed \<or>
      c \<noteq> [] \<and> length (unread b) + length c \<le> unat limit \<and> reads_fit limit (unread b @ c) cs)"

definition last_message :: "size_t \<Rightarrow> bytes \<Rightarrow> bool \<Rightarrow> RespValue list" where
  "last_message limit b bad =
     (if bad then [malformed_reply] else if unat limit \<le> length b then [too_large_reply] else [])"

lemma drains_unread:
  "resp.drains b vs d bad \<Longrightarrow> unread b = d \<and> parseImpl d = (if bad then Malformed else NeedMoreData)"
proof (induction rule: resp.drains.induct)
  case (drains_message b n v vs b' bad)
  then show ?case using unread.simps [of b] by simp
qed (simp_all add: unread.simps)

lemma unread_length: "length (unread b) \<le> length b"
proof -
  obtain vs d bad where d: "resp.drains b vs d bad" using resp.drains_total by blast
  with drains_unread [OF d] resp.drains_left [OF d] show ?thesis by auto
qed

text \<open>A stream that fits as a whole fits in any pieces, and so do requests that fit one by one.\<close>

lemma reads_fit_small: "length (b @ concat cs) \<le> unat limit \<Longrightarrow> [] \<notin> set cs \<Longrightarrow> reads_fit limit b cs"
proof (induction cs arbitrary: b)
  case (Cons c cs)
  have "length ((unread b @ c) @ concat cs) \<le> unat limit" using Cons.prems(1) unread_length [of b] by simp
  with Cons.IH [OF this] Cons.prems(2) show ?case by auto
qed simp

lemma unread_Nil [simp]: "unread [] = []"
  using resp.decode_Nil by (simp add: unread.simps)

lemma unread_request:
  assumes "encodable 0 v"
  shows "unread (serialize_rec v @ rest) = unread rest"
  using resp_codec.decode_encode_append [OF assms, of rest] by (simp add: unread.simps [of "serialize_rec v @ rest"])

lemma reads_fit_requests:
  assumes "list_all (\<lambda>v. encodable 0 v \<and> length (serialize_rec v) \<le> unat limit) vs" and "unread b = []"
  shows "reads_fit limit b (map serialize_rec vs)"
  using assms
proof (induction vs arbitrary: b)
  case (Cons v vs)
  then have v: "encodable 0 v" "length (serialize_rec v) \<le> unat limit" by simp_all
  have "reads_fit limit (serialize_rec v) (map serialize_rec vs)"
    using Cons.IH unread_request [OF v(1), of "[]"] Cons.prems(1) by simp
  moreover have "serialize_rec v \<noteq> []" using resp_enc_not_Nil serialize_rec_enc v(1) by blast
  ultimately show ?case using v(2) Cons.prems(2) by simp
qed simp

text \<open>Between two reads, when no request is complete.\<close>

lemma session_run_idle:
  assumes "parseImpl b = NeedMoreData"
  shows "session_run hash th home limit clks [] b p = Some (map serialize_rec (last_message limit b False), p)"
  using assms
  by (simp add: session_run.simps [of hash th home limit clks "[]"] drain.simps [of hash th home clks b] next_request_eq
      last_message_def serialize_eq too_large_reply_def)

lemma session_run_full:
  assumes "parseImpl b = NeedMoreData" and "unat limit \<le> length b"
  shows "session_run hash th home limit clks events b p = Some ([serialize_rec too_large_reply], p)"
  using assms
  by (simp add: session_run.simps [of hash th home limit clks events] drain.simps [of hash th home clks b] next_request_eq
      serialize_eq too_large_reply_def)

text \<open>A session on any reads that fit: the values of the stream are served in order, and it goes on with what
  is left in the buffer.\<close>

definition session_result :: "RespValue list \<Rightarrow> ShardPool \<Rightarrow> bool \<Rightarrow> (bytes list \<times> ShardPool) option \<Rightarrow> (bytes list \<times> ShardPool) option" where
  "session_result rs p bad later =
     (if bad then Some (map serialize_rec (rs @ [malformed_reply]), p)
      else map_option (\<lambda>(messages, q). (map serialize_rec rs @ messages, q)) later)"

lemma session_run_drained:
  assumes drain: "drain hash th home clks b p = Some (map serialize_rec (rs @ stream_error bad), d, bad, p')"
    and "parseImpl d = (if bad then Malformed else NeedMoreData)"
  shows "session_run hash th home limit clks events b p =
    session_result rs p' bad (session_run hash th home limit (\<lambda>i. clks (length rs + i)) events d p')"
proof (cases bad)
  case False
  then have idle: "drain hash th home (\<lambda>i. clks (length rs + i)) d p' = Some ([], d, False, p')"
    using assms(2) by (simp add: drain.simps [of hash th home _ d] next_request_eq)
  show ?thesis
    using drain False
    by (auto simp: session_run.simps [of hash th home limit _ events] idle session_result_def stream_error_def
        option.map_comp comp_def session_read_def serialize_eq too_large_reply_def
        intro!: option.map_cong split: list.splits read_event.splits)
qed (simp add: session_run.simps [of hash th home limit clks events] drain session_result_def stream_error_def)

lemma session_run_read:
  assumes "parseImpl b = NeedMoreData" and "c \<noteq> []" and "length b + length c \<le> unat limit"
  shows "session_run hash th home limit clks (ReadData c # events) b p = session_run hash th home limit clks events (b @ c) p"
proof -
  have "length b < unat limit" using assms(2,3) by (cases c) auto
  with assms(1) show ?thesis
    by (simp add: session_run.simps [of hash th home limit clks "ReadData c # events"] drain.simps [of hash th home clks b]
        next_request_eq session_read_def option.map_ident case_prod_unfold)
qed

lemma session_run_values:
  assumes "pool_ok hash m p" and "home < pool_size p" and "unat m + unat limit < 2 ^ 64"
    and "length b \<le> unat limit" and "reads_fit limit b cs" and "resp.drains (b @ concat cs) vs d bad"
  shows "\<exists>rs p'. serve_values hash th home clks vs p = Some (rs, p') \<and> list_all well_typed rs \<and> pool_ok hash m p' \<and>
    session_run hash th home limit clks (map ReadData cs @ events) b p =
      session_result rs p' bad (session_run hash th home limit (\<lambda>i. clks (length rs + i)) events d p')"
  using assms
proof (induction cs arbitrary: b clks p vs d bad)
  case Nil
  have "unat m + length b < 2 ^ 64" using Nil.prems(3,4) by simp
  from serve_drained [OF Nil.prems(1,2) this] Nil.prems(6) obtain rs p' where
    "serve_values hash th home clks vs p = Some (rs, p')" "list_all well_typed rs" "pool_ok hash m p'"
    "drain hash th home clks b p = Some (map serialize_rec (rs @ stream_error bad), d, bad, p')" by force
  with session_run_drained drains_unread [OF Nil.prems(6)] show ?case by force
next
  case (Cons c cs)
  let ?events = "map ReadData cs @ events"
  obtain us b1 bad1 where us: "resp.drains b us b1 bad1" using resp.drains_total by blast
  note left = drains_unread [OF us]
  have "unat m + length b < 2 ^ 64" using Cons.prems(3,4) by simp
  from serve_drained [OF Cons.prems(1,2) this us] obtain rs1 p1 where
    p1: "serve_values hash th home clks us p = Some (rs1, p1)" "list_all well_typed rs1" "pool_ok hash m p1"
      "same_threads p p1" "drain hash th home clks b p = Some (map serialize_rec (rs1 @ stream_error bad1), b1, bad1, p1)"
    by metis
  note run1 = session_run_drained [OF p1(5) conjunct2 [OF left], of limit "ReadData c # ?events"]
  show ?case
  proof (cases bad1)
    case True
    then have "vs = us \<and> bad = True" using resp.drains_split(1) [OF Cons.prems(6) us] by simp
    with True p1 run1 show ?thesis by (simp add: session_result_def)
  next
    case False
    with Cons.prems(5) left have room: "c \<noteq> []" "length b1 + length c \<le> unat limit" "reads_fit limit (b1 @ c) cs" by auto
    obtain ws where vs: "vs = us @ ws" and ws: "resp.drains ((b1 @ c) @ concat cs) ws d bad"
      using resp.drains_split(2) [OF Cons.prems(6) us False] by auto
    have len: "length us = length rs1" using serve_values_length [OF p1(1)] by simp
    have "home < pool_size p1" using Cons.prems(2) same_threads_size [OF p1(4)] by simp
    from Cons.IH [OF p1(3) this Cons.prems(3) _ room(3) ws, of "\<lambda>i. clks (length rs1 + i)"] room(2)
    obtain rs2 p2 where p2: "serve_values hash th home (\<lambda>i. clks (length rs1 + i)) ws p1 = Some (rs2, p2)"
        "list_all well_typed rs2" "pool_ok hash m p2"
        "session_run hash th home limit (\<lambda>i. clks (length rs1 + i)) ?events (b1 @ c) p1 =
          session_result rs2 p2 bad (session_run hash th home limit (\<lambda>i. clks (length rs1 + (length rs2 + i))) events d p2)"
      by auto
    have "session_run hash th home limit clks (ReadData c # ?events) b p =
        session_result (rs1 @ rs2) p2 bad (session_run hash th home limit (\<lambda>i. clks (length (rs1 @ rs2) + i)) events d p2)"
      using run1 False session_run_read [OF _ room(1,2)] left p2(4)
      by (simp add: session_result_def add.assoc option.map_comp comp_def case_prod_unfold)
    with p1(1,2) p2 vs len show ?thesis by (simp add: serve_values_append)
  qed
qed

lemma session_run_all:
  assumes "pool_ok hash m p" and "home < pool_size p" and "unat m + unat limit < 2 ^ 64"
    and "reads_fit limit [] cs" and "resp.drains (concat cs) vs d bad"
  shows "\<exists>rs p'. serve_values hash th home clks vs p = Some (rs, p') \<and> list_all well_typed rs \<and> pool_ok hash m p' \<and>
    session_run hash th home limit clks (map ReadData cs) [] p = Some (map serialize_rec (rs @ last_message limit d bad), p')"
proof -
  from session_run_values [OF assms(1-3) _ assms(4), of vs d bad th clks "[]"] assms(5) obtain rs p' where
    "serve_values hash th home clks vs p = Some (rs, p')" "list_all well_typed rs" "pool_ok hash m p'"
    "session_run hash th home limit clks (map ReadData cs) [] p =
      session_result rs p' bad (session_run hash th home limit (\<lambda>i. clks (length rs + i)) [] d p')" by auto
  then show ?thesis
    using session_run_idle [of d] drains_unread [OF assms(5)] by (auto simp: session_result_def last_message_def)
qed

subsection \<open>Properties\<close>

text \<open>C9: How the network cuts a request stream into pieces does not matter. Take any two sequences of reads
  that carry the same bytes and that the socket can deliver, each read at least one byte and no more
  than there is room for in the buffer at that moment; the stream as a whole may be as long as it
  likes. The session gets through them, and whatever happens on the connection afterwards, it sends the same messages and leaves the
  pool in the same state in both cases.\<close>

theorem session_chunk_independent:
  assumes "pool_ok hash m p" and "home < pool_size p" and "unat m + unat limit < 2 ^ 64"
    and "reads_fit limit [] cs" and "reads_fit limit [] cs'" and "concat cs = concat cs'"
  shows "(\<exists>messages p'. session_run hash th home limit clks (map ReadData cs) [] p = Some (messages, p') \<and> pool_ok hash m p') \<and>
    session_run hash th home limit clks (map ReadData cs @ events) [] p =
    session_run hash th home limit clks (map ReadData cs' @ events) [] p"
proof -
  obtain vs d bad where d: "resp.drains ([] @ concat cs) vs d bad" using resp.drains_total by blast
  from session_run_all [OF assms(1-4)] d show ?thesis
    using session_run_values [OF assms(1-3) _ assms(4) d, of th clks events]
      session_run_values [OF assms(1-3) _ assms(5), of vs d bad th clks events] assms(6) by fastforce
qed

text \<open>For examples: \<open>PING\<close> requests of 14 bytes each, in a buffer of 16 bytes.\<close>

definition ping_request :: bytes where
  "ping_request = serialize_rec (ArrayValue [BulkString ''PING''])"

lemma ping_request_bytes:
  "ping_request = ''*1'' @ drop 2 ping_request" "ping_request = ''*'' @ drop 1 ping_request" "length ping_request = 14"
  by code_simp+

lemma unread_ping: "unread (ping_request @ rest) = unread rest" "unread ping_request = []"
  using unread_request [of "ArrayValue [BulkString ''PING'']"] by (simp_all add: ping_request_def resp_limits append_Nil2 [symmetric] del: append_Nil2)

lemma unread_partial: "parseImpl b = NeedMoreData \<Longrightarrow> unread b = b"
  by (simp add: unread.simps)

lemma parse_partial:
  "parseImpl ''*'' = NeedMoreData" "parseImpl ''*1'' = NeedMoreData" "parseImpl ''+'' = NeedMoreData"
  "parseImpl ''+abcdefg'' = NeedMoreData" "parseImpl ''+abcdefghijklmno'' = NeedMoreData"
  by code_simp+

theorem session_chunk_independent_witness:
  "session_run (\<lambda>k. 0) 0 0 16 (\<lambda>i j k. 0) (map ReadData [ping_request, ping_request @ ''*1'', drop 2 ping_request] @ [ReadEof]) []
     (new_pool 1 64 False) =
   session_run (\<lambda>k. 0) 0 0 16 (\<lambda>i j k. 0) (map ReadData [ping_request @ ''*'', drop 1 ping_request, ping_request] @ [ReadEof]) []
     (new_pool 1 64 False)"
proof -
  have "ping_request = CHR ''*'' # drop (Suc 0) ping_request" "ping_request \<noteq> []"
    using ping_request_bytes(2,3) by auto
  note ping = ping_request_bytes(1) [symmetric] this(1) [symmetric] this(2) ping_request_bytes(3) unread_ping unread_partial [OF parse_partial(1)]
    unread_partial [OF parse_partial(2)]
  have fits: "reads_fit 16 [] [ping_request, ping_request @ ''*1'', drop 2 ping_request]"
    "reads_fit 16 [] [ping_request @ ''*'', drop 1 ping_request, ping_request]"
    by (simp_all add: ping)
  have same: "concat [ping_request, ping_request @ ''*1'', drop 2 ping_request] =
      concat [ping_request @ ''*'', drop 1 ping_request, ping_request]"
    by code_simp
  have "0 < pool_size (new_pool 1 64 False)" by (simp add: new_pool_size)
  from session_chunk_independent [OF new_pool_ok this _ fits same] show ?thesis by simp
qed

text \<open>C19: Pipelining. A client that sends any number of well-formed values back to back, in any pieces the
  socket can deliver (each read fits into the room the buffer has at that moment, which requests sent one per read do when each is
  within the limit), gets exactly one reply per value, in the order of the requests, each the reply
  the executor gives in the state left by the requests before it.\<close>

theorem session_pipeline:
  assumes "pool_ok hash m p" and "home < pool_size p" and "unat m + unat limit < 2 ^ 64" and "limit \<noteq> 0"
    and "list_all (encodable 0) vs" and "concat cs = concat (map serialize_rec vs)" and "reads_fit limit [] cs"
  shows "\<exists>replies p'. serve_values hash th home clks vs p = Some (replies, p') \<and> length replies = length vs \<and>
    session_run hash th home limit clks (map ReadData cs) [] p = Some (map serialize_rec replies, p') \<and> pool_ok hash m p'"
proof -
  have "resp.drains [] [] [] False" by (rule resp.drains_wait [OF resp.decode_Nil])
  then have d: "resp.drains (concat cs) vs [] False"
    using resp_codec.drains_pipeline [of vs "[]" "[]" "[]" False] assms(5,6) by (simp add: list_all_iff)
  moreover have "last_message limit [] False = []" using assms(4) by (simp add: last_message_def unat_gt_0)
  ultimately show ?thesis
    using session_run_all [OF assms(1-3,7) d, of th clks] serve_values_length by fastforce
qed

theorem session_pipeline_witness:
  "\<exists>replies p'. serve_values (\<lambda>k. 0) 0 0 (\<lambda>i j k. 0) [ArrayValue [BulkString ''PING''], SimpleString ''x''] (new_pool 1 64 False) =
      Some (replies, p') \<and> length replies = 2 \<and>
    session_run (\<lambda>k. 0) 0 0 14 (\<lambda>i j k. 0)
      (map ReadData (map serialize_rec [ArrayValue [BulkString ''PING''], SimpleString ''x''])) [] (new_pool 1 64 False) =
      Some (map serialize_rec replies, p')"
proof -
  let ?vs = "[ArrayValue [BulkString ''PING''], SimpleString ''x'']"
  have "length (serialize_rec (ArrayValue [BulkString ''PING''])) = 14" "length (serialize_rec (SimpleString ''x'')) = 4"
    by code_simp+
  moreover have "0 < pool_size (new_pool 1 64 False)" by (simp add: new_pool_size)
  moreover have enc: "list_all (encodable 0) ?vs" by (simp add: resp_limits)
  ultimately have "reads_fit 14 [] (map serialize_rec ?vs)" by (intro reads_fit_requests) auto
  with enc \<open>0 < pool_size _\<close> show ?thesis
    using session_pipeline [OF new_pool_ok, of 0 1 64 False 14 ?vs "map serialize_rec ?vs" "\<lambda>k. 0" 0 "\<lambda>i j k. 0"] by auto
qed

text \<open>C33: A request that does not fit into the buffer. After any reads the socket can deliver, however many
  requests they completed: when the stream is well-formed so far and what is left after its last complete request fills the buffer, the
  session has answered the complete requests, sends the error for a too large request and ends;
  nothing that would come later is read, and the pool is as the complete requests left it.\<close>

theorem session_request_too_large:
  assumes "pool_ok hash m p" and "home < pool_size p" and "unat m + unat limit < 2 ^ 64"
    and "reads_fit limit [] cs" and "resp.drains (concat cs) vs d False" and "unat limit \<le> length d"
  shows "\<exists>rs p'. serve_values hash th home clks vs p = Some (rs, p') \<and> length rs = length vs \<and> pool_ok hash m p' \<and>
    session_run hash th home limit clks (map ReadData cs @ events) [] p =
      Some (map serialize_rec rs @ [serialize_rec too_large_reply], p')"
proof -
  have "parseImpl d = NeedMoreData" using drains_unread [OF assms(5)] by simp
  note full = session_run_full [OF this assms(6)]
  from session_run_values [OF assms(1-3) _ assms(4), of vs d False th clks events] assms(5) full show ?thesis
    using serve_values_length by (fastforce simp: session_result_def)
qed

theorem session_request_too_large_witness:
  "\<exists>rs p'. serve_values (\<lambda>k. 0) 0 0 (\<lambda>i j k. 0) [ArrayValue [BulkString ''PING'']] (new_pool 1 64 False) = Some (rs, p') \<and>
    session_run (\<lambda>k. 0) 0 0 16 (\<lambda>i j k. 0) (map ReadData [ping_request @ ''+'', ''abcdefg'', ''hijklmno''] @ [ReadData ping_request]) []
      (new_pool 1 64 False) = Some (map serialize_rec rs @ [serialize_rec too_large_reply], p')"
proof -
  have "encodable 0 (ArrayValue [BulkString ''PING''])" by (simp add: resp_limits)
  then have "resp.drains (ping_request @ ''+abcdefghijklmno'') [ArrayValue [BulkString ''PING'']] ''+abcdefghijklmno'' False"
    using resp_codec.drains_pipeline [of "[ArrayValue [BulkString ''PING'']]"] resp.drains_wait [OF parse_partial(5)] by (simp add: ping_request_def)
  then have "resp.drains (concat [ping_request @ ''+'', ''abcdefg'', ''hijklmno'']) [ArrayValue [BulkString ''PING'']] ''+abcdefghijklmno'' False"
    by simp
  moreover have "0 < pool_size (new_pool 1 64 False)" by (simp add: new_pool_size)
  moreover have "reads_fit 16 [] [ping_request @ ''+'', ''abcdefg'', ''hijklmno'']"
    using unread_partial [OF parse_partial(3)] unread_partial [OF parse_partial(4)]
    by (simp add: unread_ping ping_request_bytes(3))
  ultimately show ?thesis
    using session_request_too_large [OF new_pool_ok, of 0 1 64 False 16 _ _ _ "\<lambda>k. 0" 0 "\<lambda>i j k. 0" "[ReadData ping_request]"] by fastforce
qed

end
