(* ===== verification/Expiration.thy ===== *)
theory Expiration
  imports Command_Executor
begin

section \<open>The expiration controller\<close>

text \<open>
  \<open>include/expirationController.hpp\<close> and \<open>src/expirationController.cpp\<close>: the loop that removes
  expired keys of one shard. One turn of the loop, seen from the point where the timer has fired,
  is \<open>cleaning_turn\<close>: purge with a fresh reading of the clock, then look at the next deadline and
  arm the timer. The coroutine is suspended exactly while the timer runs. The timer's time is the
  result; when the code does not wait at all it is the reading of the clock itself, a timer that
  has already fired.
\<close>

definition idle_period :: int where "idle_period = 3 * nanos_per_second"

definition arm_timer :: "time_point \<Rightarrow> LruShard \<Rightarrow> time_point" where
  "arm_timer now s =
     (case get_next_expire_time s of
        Some next_expire_time \<Rightarrow> if next_expire_time > now then next_expire_time else now
      | None \<Rightarrow> now + idle_period)"

definition cleaning_turn :: "time_point shard_fn" where
  "cleaning_turn clk s = do {
     s \<leftarrow> remove_expired_keys (clk 0) s;
     Some (arm_timer (clk 1) s, s)
   }"

lemma cleaning_turn_ok: "fn_ok (shard_ok hash n m i) (\<lambda>_. True) cleaning_turn"
  unfolding fn_ok_def cleaning_turn_def
proof (intro allI impI)
  fix clk :: clock and s
  assume "shard_ok hash n m i s"
  then obtain s' where "remove_expired_keys (clk 0) s = Some s'" "shard_ok hash n m i s'"
    using purge_ok by blast
  then show "\<exists>r s'. remove_expired_keys (clk 0) s \<bind> (\<lambda>s. Some (arm_timer (clk 1) s, s)) = Some (r, s') \<and>
      shard_ok hash n m i s' \<and> True"
    by simp
qed

text \<open>C28: Each turn of the cleaning loop removes exactly the entries whose deadline has passed and arms the
  timer for the earliest remaining deadline, so no stored key has a deadline before the wake-up
  unless it has passed meanwhile; without any deadline it looks again after three seconds.\<close>

theorem cleaning_turn_exact:
  assumes "wf_shard s"
  shows "\<exists>wake s'. cleaning_turn clk s = Some (wake, s') \<and> wf_shard s' \<and>
    entries s' = filter (\<lambda>(k, v, d). \<not> is_expired d (clk 0)) (entries s) \<and>
    (deadlines (entries s') = {} \<longrightarrow> wake = clk 1 + 3 * nanos_per_second) \<and>
    (deadlines (entries s') \<noteq> {} \<longrightarrow> wake = max (clk 1) (Min (deadlines (entries s')))) \<and>
    (\<forall>t \<in> deadlines (entries s'). clk 0 < t \<and> (clk 1 < t \<longrightarrow> wake \<le> t))"
proof -
  obtain s' where s': "remove_expired_keys (clk 0) s = Some s'" "wf_shard s'"
      "entries s' = spec_purge (clk 0) (entries s)"
    using remove_expired_keys_refines [OF assms, of "clk 0"] by blast
  let ?D = "deadlines (entries s')"
  have next_time: "get_next_expire_time s' = (if ?D = {} then None else Some (Min ?D))"
    using get_next_expire_time_refines [OF s'(2)] by (simp add: spec_next_def)
  have fin: "finite ?D" using deadlines_expire_map [OF wf_shardD(1) [OF s'(2)]] by simp
  have later: "clk 0 < t" if "t \<in> ?D" for t
    using that by (auto simp: s'(3) deadlines_def spec_purge_def is_expired_def)
  have "arm_timer (clk 1) s' \<le> t" if "t \<in> ?D" "clk 1 < t" for t
    using that Min_le [OF fin that(1)] by (auto simp: arm_timer_def next_time)
  moreover have "arm_timer (clk 1) s' = (if ?D = {} then clk 1 + 3 * nanos_per_second else max (clk 1) (Min ?D))"
    by (auto simp: arm_timer_def next_time idle_period_def max_def)
  ultimately show ?thesis
    using s' later by (auto simp: cleaning_turn_def spec_purge_def)
qed

theorem cleaning_turn_exact_witness:
  "\<exists>wake s'. cleaning_turn (\<lambda>j. 3000000000) (shard_after 100
      [CallSet ''a'' ''1'' (Some 2) 0, CallSet ''b'' ''2'' (Some 9) 0]) = Some (wake, s') \<and>
    entries s' = [(''b'', ''2'', Some 9000000000)] \<and> wake = 9000000000"
proof -
  let ?cs = "[CallSet ''a'' ''1'' (Some 2) 0, CallSet ''b'' ''2'' (Some 9) 0]"
  have "list_all (call_fits (unat (100 :: size_t))) ?cs" by simp
  note after = shard_after_wf [OF this]
  have es: "entries (shard_after 100 ?cs) = [(''b'', ''2'', Some 9000000000), (''a'', ''1'', Some 2000000000)]"
    unfolding after(2)
    by (simp add: spec_eval)
  have "deadlines [(''b'', ''2'', Some 9000000000)] = {9000000000}" by (auto simp: deadlines_def)
  with cleaning_turn_exact [OF after(1), of "\<lambda>j. 3000000000"] show ?thesis
    unfolding es by (auto simp: is_expired_def)
qed

end
