(* ===== verification/Shard_Counters.thy ===== *)
theory Shard_Counters
  imports Command_Executor Expiration
begin

section \<open>The counters of a shard\<close>

text \<open>
  A shard counts the entries it evicts and the expired entries it removes (\<open>LruShard::Stats\<close>,
  reported by \<open>INFO\<close>). \<open>Cache\<close> is the abstract view of a shard with its counters, \<open>cache_of\<close> the
  abstraction, and \<open>cache_keyed\<close>, \<open>cache_delete\<close> and \<open>cache_purge\<close> say what commands and the cleaning loop do
  to it: \<open>SET\<close> counts the entries that made room, the commands that look up their key first count an entry
  they find expired, \<open>DEL\<close> and \<open>EXPIRE\<close> count nothing. \<open>cache_stats\<close> is what \<open>get_stats\<close> reports.
\<close>

record Cache =
  cached :: "entry list"
  evicted :: uint64
  expired :: uint64

definition cache_of :: "LruShard \<Rightarrow> Cache" where
  "cache_of s = \<lparr>cached = entries s, evicted = evictions s, expired = expired_count s\<rparr>"

definition empty_cache :: Cache where
  "empty_cache = \<lparr>cached = [], evicted = 0, expired = 0\<rparr>"

definition cache_stats :: "size_t \<Rightarrow> Cache \<Rightarrow> Stats" where
  "cache_stats m c =
     \<lparr>stat_used_payload_bytes = of_nat (payload (cached c)), stat_key_count = of_nat (length (cached c)),
      stat_evictions = evicted c, stat_expired = expired c, stat_max_memory_bytes = m\<rparr>"

text \<open>The commands that look up their key, and remove it if it has expired.\<close>

definition looks_up :: "Command \<Rightarrow> bool" where
  "looks_up cmd \<longleftrightarrow> cmd_type cmd = Cmd_kGet \<or> cmd_type cmd = Cmd_kTtl \<or>
     (cmd_type cmd = Cmd_kSet \<and> (case cmd_args cmd of [k, v, opt] \<Rightarrow> to_uppercase opt \<in> {''NX'', ''XX''} | _ \<Rightarrow> False))"

definition key_expired :: "bytes \<Rightarrow> time_point \<Rightarrow> entry list \<Rightarrow> bool" where
  "key_expired k now es \<longleftrightarrow> (\<exists>v d. map_of es k = Some (v, d) \<and> is_expired d now)"

definition stores :: "nat \<Rightarrow> Command \<Rightarrow> clock \<Rightarrow> entry list \<Rightarrow> bool" where
  "stores b cmd clk es \<longleftrightarrow> cmd_type cmd = Cmd_kSet \<and> fst (spec_keyed b cmd clk es) = SimpleString ''OK''"

definition cache_keyed :: "nat \<Rightarrow> Command \<Rightarrow> clock \<Rightarrow> Cache \<Rightarrow> RespValue \<times> Cache" where
  "cache_keyed b cmd clk c =
     (let (v, es) = spec_keyed b cmd clk (cached c); k = hd (cmd_args cmd) in
      (v, \<lparr>cached = es,
        evicted = evicted c + (if stores b cmd clk (cached c) then of_nat (Suc (length (drop_key k (cached c))) - length es) else 0),
        expired = expired c + (if looks_up cmd \<and> key_expired k (clk 0) (cached c) then 1 else 0)\<rparr>))"

definition cache_delete :: "bytes set \<Rightarrow> Cache \<Rightarrow> Cache" where
  "cache_delete ks c = c\<lparr>cached := drop_keys ks (cached c)\<rparr>"

definition cache_purge :: "time_point \<Rightarrow> Cache \<Rightarrow> Cache" where
  "cache_purge now c =
     c\<lparr>cached := spec_purge now (cached c),
       expired := expired c + of_nat (length (cached c) - length (spec_purge now (cached c)))\<rparr>"

subsection \<open>Refinement\<close>

lemma cache_of_fields [simp]:
  "cached (cache_of s) = entries s" "evicted (cache_of s) = evictions s" "expired (cache_of s) = expired_count s"
  by (simp_all add: cache_of_def)

lemma cache_of_new [simp]: "cache_of (new_shard m) = empty_cache"
  using new_shard_wf(2) [of m] by (simp add: cache_of_def empty_cache_def new_shard_def)

lemma lookup_lengths:
  assumes "distinct (map fst es)"
  shows "length es - length (snd (spec_get k now es)) = (if key_expired k now es then 1 else 0)"
    "length es - length (snd (spec_ttl k now now2 es)) = (if key_expired k now es then 1 else 0)"
  using length_drop_key [OF assms, of k]
  by (auto simp: spec_get_def spec_ttl_def key_expired_def Let_def split: option.splits)

text \<open>The counters after the operations of a shard.\<close>

lemma get_counts:
  assumes "wf_shard s" and "lru_get k now s = Some (r, s')"
  shows "evictions s' = evictions s \<and> expired_count s' = expired_count s + (if key_expired k now (entries s) then 1 else 0)"
  using lru_get_refines [OF assms(1), of k now] lookup_lengths(1) [OF lru.view_distinct [OF assms(1)], of k now] assms(2) by auto

lemma ttl_counts:
  assumes "wf_shard s" and "lru_ttl k now now2 s = Some (r, s')"
  shows "evictions s' = evictions s \<and> expired_count s' = expired_count s + (if key_expired k now (entries s) then 1 else 0)"
  using lru_ttl_refines [OF assms(1), of k now now2] lookup_lengths(2) [OF lru.view_distinct [OF assms(1)], of k now now2] assms(2) by auto

lemma expire_counts:
  assumes "wf_shard s" and "lru_expire k secs now s = Some (r, s')"
  shows "evictions s' = evictions s \<and> expired_count s' = expired_count s"
  using lru_expire_refines [OF assms(1), of k secs now] assms(2) by auto

lemma store_counts:
  assumes "shard_ok hash n m i s" and "cmd_args cmd = k # v # rest" and "cmd_fits m cmd" and "store_value cmd k secs now s = Some (r, s')"
  shows "evictions s' = evictions s + of_nat (Suc (length (drop_key k (entries s))) - length (entries s')) \<and>
    expired_count s' = expired_count s \<and> r = SimpleString ''OK''"
proof -
  have "wf_shard s" "max_memory_bytes s = m" using assms(1) by (simp_all add: shard_ok_def)
  then show ?thesis
    using lru_set_refines [of s k v secs now] assms(2-4) by (auto simp: store_value_def arg_def cmd_fits_def)
qed

lemma del_keys_counts:
  assumes "shard_ok hash n m i s" and "del_keys ks c s = Some (r, s')"
  shows "evictions s' = evictions s \<and> expired_count s' = expired_count s"
  using assms
proof (induction ks arbitrary: c s)
  case (Cons k ks)
  have "wf_shard s" using Cons.prems(1) by (simp add: shard_ok_def)
  moreover obtain s1 where "lru_del k s = Some (fst (spec_del k (entries s)), s1)" "shard_ok hash n m i s1"
    using del_ok [OF Cons.prems(1)] by blast
  ultimately show ?case using lru_del_refines [of s k] Cons by auto
qed simp

subsection \<open>Commands\<close>

lemma set_counts:
  assumes ok: "shard_ok hash n m i s" and cmd: "cmd_type cmd = Cmd_kSet" "valid_command cmd" "cmd_fits m cmd"
    and run: "processSetCommand cmd clk s = Some (r, s')" and k: "k = hd (cmd_args cmd)"
  shows "evictions s' = evictions s + (if r = SimpleString ''OK'' then of_nat (Suc (length (drop_key k (entries s))) - length (entries s')) else 0) \<and>
    expired_count s' = expired_count s + (if looks_up cmd \<and> key_expired k (clk 0) (entries s) then 1 else 0)"
  using valid_shapes(5) [OF cmd(2,1)]
proof (elim disjE exE)
  fix k' v
  assume a: "cmd_args cmd = [k', v]"
  with store_counts [OF ok a cmd(3), of None "clk 0"] run k cmd(1) show ?thesis
    by (auto simp: processSetCommand_def arg_def looks_up_def)
next
  fix k' v opt
  assume a: "cmd_args cmd = [k', v, opt]"
  obtain s1 where s1: "lru_get k (clk 0) s = Some (fst (spec_get k (clk 0) (entries s)), s1)"
      "shard_ok hash n m i s1" "entries s1 = snd (spec_get k (clk 0) (entries s))"
    using get_ok [OF ok] by blast
  have drop: "drop_key k (entries s1) = drop_key k (entries s)"
    unfolding s1(3) by (auto simp: spec_get_def split: option.splits)
  have get: "evictions s1 = evictions s" "expired_count s1 = expired_count s + (if key_expired k (clk 0) (entries s) then 1 else 0)"
    using get_counts [OF _ s1(1)] ok by (simp_all add: shard_ok_def)
  show ?thesis using store_counts [OF s1(2) a cmd(3), of None "clk 1" r s'] s1(1) run k a drop get cmd(1)
    by (auto simp: processSetCommand_def arg_def looks_up_def split: if_splits)
next
  fix k' v opt d
  assume a: "cmd_args cmd = [k', v, opt, d]"
  then show ?thesis using store_counts [OF ok a cmd(3), of "stoull d" "clk 0" r s'] run k cmd(1)
    by (cases "stoull d") (auto simp: processSetCommand_def arg_def looks_up_def numeral_eq_Suc split: if_splits)
qed

lemma cache_keyed_refines:
  assumes ok: "shard_ok hash n m i s" and cmd: "keyed cmd" "valid_command cmd" "cmd_fits m cmd"
    and route: "getShardIndex hash (hd (cmd_args cmd)) n = Some i" and run: "keyed_fn cmd clk s = Some (v, s')"
  shows "cache_keyed (unat m) cmd clk (cache_of s) = (v, cache_of s')"
proof -
  have r: "v = fst (spec_keyed (unat m) cmd clk (entries s))" "entries s' = snd (spec_keyed (unat m) cmd clk (entries s))"
    using keyed_fn_refines [OF ok cmd route, of clk] run by auto
  let ?k = "hd (cmd_args cmd)"
  have wf: "wf_shard s" using ok by (simp add: shard_ok_def)
  have "evictions s' = evictions s + (if stores (unat m) cmd clk (entries s)
        then of_nat (Suc (length (drop_key ?k (entries s))) - length (entries s')) else 0) \<and>
      expired_count s' = expired_count s + (if looks_up cmd \<and> key_expired ?k (clk 0) (entries s) then 1 else 0)"
  proof (cases "cmd_type cmd = Cmd_kSet")
    case True
    then show ?thesis using set_counts [OF ok _ cmd(2,3) _ refl, of clk v s'] run r(1) by (simp add: keyed_fn_def stores_def)
  next
    case False
    then show ?thesis
      using cmd(1) run valid_shapes(1,2,3) [OF cmd(2)] get_counts [OF wf] ttl_counts [OF wf] expire_counts [OF wf]
      by (auto simp: keyed_def keyed_fn_def stores_def looks_up_def processGetCommand_def processTtlCommand_def
          processExpireCommand_def arg_def split: option.splits Option.bind_splits)
  qed
  with r show ?thesis by (simp add: cache_keyed_def cache_of_def split_def Let_def)
qed

lemma cache_delete_refines:
  assumes "shard_ok hash n m i s" and "processDelKeys keys clk s = Some (c, s')"
  shows "cache_delete (set keys) (cache_of s) = cache_of s' \<and> c = of_nat (card (set keys \<inter> entry_keys (entries s)))"
  using del_keys_refines [OF assms(1), of keys 0] del_keys_counts [OF assms(1), of keys 0] assms(2)
  by (auto simp: processDelKeys_def cache_delete_def cache_of_def)

lemma cache_purge_refines:
  assumes "shard_ok hash n m i s" and "cleaning_turn clk s = Some (wake, s')"
  shows "cache_purge (clk 0) (cache_of s) = cache_of s'"
proof -
  have "wf_shard s" using assms(1) by (simp add: shard_ok_def)
  then show ?thesis using remove_expired_keys_refines [of s "clk 0"] assms(2) by (auto simp: cleaning_turn_def cache_purge_def cache_of_def)
qed

lemma cache_stats_refines:
  assumes "shard_ok hash n m i s"
  shows "cache_stats m (cache_of s) = get_stats s"
proof -
  have "wf_shard s" "max_memory_bytes s = m" using assms by (simp_all add: shard_ok_def)
  then show ?thesis
    using get_stats_exact(2) [of s] wf_coreD(5) [OF wf_shardD(1), of s] by (simp add: cache_stats_def get_stats_def wf_used_def)
qed

end
