(* ===== verification/Fair_Runs.thy ===== *)
theory Fair_Runs
  imports Main
begin

section \<open>Systems with an invariant, runs and fairness\<close>

text \<open>
  A labelled step relation with an invariant is the interface \<open>invariant_system\<close>. \<open>is_run\<close> is an infinite
  run with the labels of its steps; \<open>fair_to\<close> is weak fairness: if a label, which may depend on the time,
  could be taken from some time on, then a step of the given kind is taken. \<open>turn_comes\<close> is the
  rule that liveness proofs use: what only steps of this kind can change, and what makes such a step
  possible, leads to such a step.
\<close>

definition is_run :: "('s \<Rightarrow> 'a \<Rightarrow> 's \<Rightarrow> bool) \<Rightarrow> (nat \<Rightarrow> 's) \<Rightarrow> (nat \<Rightarrow> 'a) \<Rightarrow> bool" where
  "is_run step \<sigma> acts \<longleftrightarrow> (\<forall>k. step (\<sigma> k) (acts k) (\<sigma> (Suc k)))"

definition fair_to :: "('s \<Rightarrow> 'a \<Rightarrow> 's \<Rightarrow> bool) \<Rightarrow> (nat \<Rightarrow> 's) \<Rightarrow> (nat \<Rightarrow> 'a) \<Rightarrow> (nat \<Rightarrow> 'a) \<Rightarrow> ('a \<Rightarrow> bool) \<Rightarrow> bool" where
  "fair_to step \<sigma> acts a kind \<longleftrightarrow>
     (\<forall>k. (\<forall>k' \<ge> k. \<exists>s'. step (\<sigma> k') (a k') s') \<longrightarrow> (\<exists>k' \<ge> k. kind (acts k')))"

definition fair :: "('s \<Rightarrow> 'a \<Rightarrow> 's \<Rightarrow> bool) \<Rightarrow> (nat \<Rightarrow> 's) \<Rightarrow> (nat \<Rightarrow> 'a) \<Rightarrow> 'a \<Rightarrow> bool" where
  "fair step \<sigma> acts a \<longleftrightarrow> fair_to step \<sigma> acts (\<lambda>k. a) (\<lambda>b. b = a)"

lemma run_step: "is_run step \<sigma> acts \<Longrightarrow> step (\<sigma> k) (acts k) (\<sigma> (Suc k))"
  by (simp add: is_run_def)

lemma fair_toD:
  "fair_to step \<sigma> acts a kind \<Longrightarrow> (\<And>k'. k \<le> k' \<Longrightarrow> \<exists>s'. step (\<sigma> k') (a k') s') \<Longrightarrow> \<exists>k' \<ge> k. kind (acts k')"
  by (simp add: fair_to_def)

lemma fair_kind: "fair step \<sigma> acts a \<Longrightarrow> kind a \<Longrightarrow> fair_to step \<sigma> acts (\<lambda>k. a) kind"
  unfolding fair_def fair_to_def by metis

lemma never_fair: "(\<And>k. \<nexists>s'. step (\<sigma> k) a s') \<Longrightarrow> fair step \<sigma> acts a"
  unfolding fair_def fair_to_def by blast

text \<open>What only steps of some kind can change stays until one of them is taken.\<close>

lemma kept_until:
  assumes "k \<le> k'" and "P k" and "\<And>i. k \<le> i \<Longrightarrow> i < k' \<Longrightarrow> \<not> kind (acts i)"
    and "\<And>i. k \<le> i \<Longrightarrow> P i \<Longrightarrow> \<not> kind (acts i) \<Longrightarrow> P (Suc i)"
  shows "P k'"
  using assms(1,3)
proof (induction rule: dec_induct)
  case (step n)
  then show ?case using assms(4) by simp
qed (rule assms(2))

lemma turn_comes:
  assumes "P k" and fair: "fair_to step \<sigma> acts a kind"
    and keeps: "\<And>i. k \<le> i \<Longrightarrow> P i \<Longrightarrow> \<not> kind (acts i) \<Longrightarrow> P (Suc i)"
    and enabled: "\<And>i. late \<le> i \<Longrightarrow> P i \<Longrightarrow> \<exists>s'. step (\<sigma> i) (a i) s'"
  shows "\<exists>k' \<ge> k. kind (acts k') \<and> P k'"
proof -
  have kept: "P i" if "k \<le> i" "\<And>l. k \<le> l \<Longrightarrow> l < i \<Longrightarrow> \<not> kind (acts l)" for i
    using kept_until [of k i P kind acts] that assms(1) keeps by blast
  have "\<exists>k' \<ge> k. kind (acts k')"
  proof (rule ccontr)
    assume never: "\<not> (\<exists>k' \<ge> k. kind (acts k'))"
    have "\<exists>s'. step (\<sigma> i) (a i) s'" if "max k late \<le> i" for i
      using that never by (intro enabled kept) auto
    then obtain k' where "max k late \<le> k'" "kind (acts k')" using fair_toD [OF fair, of "max k late"] by blast
    with never show False by auto
  qed
  then obtain k' where "k \<le> k'" "kind (acts k')" "\<And>i. k \<le> i \<Longrightarrow> i < k' \<Longrightarrow> \<not> kind (acts i)"
    using exists_least_iff [of "\<lambda>k'. k \<le> k' \<and> kind (acts k')"] by blast
  with kept show ?thesis by blast
qed

locale invariant_system =
  fixes step :: "'s \<Rightarrow> 'a \<Rightarrow> 's \<Rightarrow> bool"
    and inv :: "'s \<Rightarrow> bool"
  assumes inv_step: "inv s \<Longrightarrow> step s a s' \<Longrightarrow> inv s'"
begin

lemma run_inv: "is_run step \<sigma> acts \<Longrightarrow> inv (\<sigma> 0) \<Longrightarrow> inv (\<sigma> k)"
  by (induction k) (auto intro: inv_step run_step)

lemma steps_inv: "(\<lambda>s s'. \<exists>a. step s a s')\<^sup>*\<^sup>* s s' \<Longrightarrow> inv s \<Longrightarrow> inv s'"
  by (induction rule: rtranclp_induct) (auto intro: inv_step)

end

end
