(* ===== verification/Trace_Simulation.thy ===== *)
theory Trace_Simulation
  imports Fair_Runs
begin

section \<open>Runs with observable events, and simulation\<close>

text \<open>
  A run of a labelled step relation, with what an observer sees of it: every step contributes a list of
  events, empty for a silent step. \<open>forward_simulation\<close> is the interface between a detailed system and
  one that specifies it: an invariant of the detailed system, and a relation between the states that
  every detailed step can follow with a run of the specification with the same events. What is
  observed of the detailed system is then a behaviour of the specification.
\<close>

inductive event_run :: "('s \<Rightarrow> 'a \<Rightarrow> 's \<Rightarrow> bool) \<Rightarrow> ('s \<Rightarrow> 'a \<Rightarrow> 'e list) \<Rightarrow> 's \<Rightarrow> 'e list \<Rightarrow> 's \<Rightarrow> bool"
  for step obs s0 where
  event_run_start: "event_run step obs s0 [] s0"
| event_run_step: "event_run step obs s0 es s \<Longrightarrow> step s a s' \<Longrightarrow> event_run step obs s0 (es @ obs s a) s'"

lemma event_run_single: "step s a s' \<Longrightarrow> event_run step obs s (obs s a) s'"
  using event_run_step [OF event_run_start] by fastforce

lemma event_run_append:
  assumes "event_run step obs s1 fs s2" and "event_run step obs s0 es s1"
  shows "event_run step obs s0 (es @ fs) s2"
  using assms(1)
proof induction
  case (event_run_step fs s a s')
  from event_run.event_run_step [where obs = obs, OF event_run_step.IH event_run_step.hyps(2)] show ?case by simp
qed (use assms(2) in simp)

locale forward_simulation = invariant_system step inv
  for step :: "'s \<Rightarrow> 'a \<Rightarrow> 's \<Rightarrow> bool" and inv :: "'s \<Rightarrow> bool" +
  fixes obs :: "'s \<Rightarrow> 'a \<Rightarrow> 'e list"
    and spec_step :: "'t \<Rightarrow> 'b \<Rightarrow> 't \<Rightarrow> bool"
    and spec_obs :: "'t \<Rightarrow> 'b \<Rightarrow> 'e list"
    and matches :: "'s \<Rightarrow> 't \<Rightarrow> bool"
  assumes step_matches: "inv s \<Longrightarrow> matches s t \<Longrightarrow> step s a s' \<Longrightarrow>
      \<exists>t'. event_run spec_step spec_obs t (obs s a) t' \<and> matches s' t'"
begin

lemma inv_run: "event_run step obs s0 es s \<Longrightarrow> inv s0 \<Longrightarrow> inv s"
  by (induction rule: event_run.induct) (auto intro: inv_step)

lemma runs_included:
  assumes "event_run step obs s0 es s" and "inv s0" and "matches s0 t0"
  shows "\<exists>t. event_run spec_step spec_obs t0 es t \<and> matches s t"
  using assms(1)
proof induction
  case (event_run_step es s a s')
  then obtain t where t: "event_run spec_step spec_obs t0 es t" "matches s t" by blast
  with step_matches [OF inv_run [OF event_run_step.hyps(1) assms(2)] t(2) event_run_step.hyps(2)] show ?case
    by (meson event_run_append)
qed (use assms(3) event_run.event_run_start in metis)

end

end
