(* ===== verification/Atomic_Server.thy ===== *)
theory Atomic_Server
  imports Session Shard_Counters Trace_Simulation
begin

section \<open>The server as its clients see it\<close>

text \<open>
  An abstract server: the entries of every shard with its two counters, and for every connection what it is busy with. There
  are no buffers, threads, closures, iterators or machine addresses. A command on one key takes
  effect in one indivisible step at some point between its request and its reply; \<open>DEL\<close> removes its
  keys shard by shard, each shard's share at once, in any order; \<open>INFO\<close> visits every shard once, in
  any order; the other commands are answered without looking at the shards. Expired entries may be
  removed at any time. An observer sees the commands that are taken up and the replies.

  \<open>Server_Linearizable\<close> shows that everything the running server does can be explained this way.
\<close>

subsection \<open>Activities\<close>

datatype activity =
    Idle
  | Calling Command
  | Deleting "bytes set" int64
  | Counting "nat set" Stats
  | Answered RespValue

definition config_reply :: "bytes list \<Rightarrow> RespValue" where
  "config_reply args =
     (case args of
        [sub, pat] \<Rightarrow>
          if to_uppercase sub = ''GET''
          then ArrayValue (concat (map (\<lambda>(name, v). if glob (to_lowercase pat) name then [BulkString name, BulkString v] else [])
            kSupportedConfigValues))
          else ErrorValue ''Unknown subcommand''
      | _ \<Rightarrow> ErrorValue [])"

definition info_section :: "bytes list \<Rightarrow> bool" where
  "info_section args \<longleftrightarrow> (case args of [] \<Rightarrow> True | name # _ \<Rightarrow> to_uppercase name \<in> {''DEFAULT'', ''MEMORY'', ''ALL''})"

text \<open>What a connection is busy with once a command has been taken up by a server of \<open>n\<close> shards.\<close>

definition take_up :: "nat \<Rightarrow> Command \<Rightarrow> activity" where
  "take_up n cmd =
     (case cmd_type cmd of
        Cmd_kDel \<Rightarrow> Deleting (set (cmd_args cmd)) 0
      | Cmd_kInfo \<Rightarrow>
          if info_section (cmd_args cmd) then Counting {..<n} zero_stats
          else Answered (ErrorValue ''ERR unsupported INFO section'')
      | Cmd_kPing \<Rightarrow> Answered (processPingCommand cmd)
      | Cmd_kCommand \<Rightarrow> Answered (processCommandCommand cmd)
      | Cmd_kConfig \<Rightarrow> Answered (config_reply (cmd_args cmd))
      | _ \<Rightarrow> Calling cmd)"

fun answer :: "activity \<Rightarrow> RespValue option" where
  "answer (Answered v) = Some v"
| "answer (Deleting ks c) = (if ks = {} then Some (IntegerValue c) else None)"
| "answer (Counting is st) = (if is = {} then Some (BulkString (info_text st)) else None)"
| "answer _ = None"

subsection \<open>Steps\<close>

datatype event = Invoke nat Command | Respond nat RespValue | Refuse nat RespValue

record Atomic =
  caches :: "Cache list"
  activities :: "nat \<Rightarrow> activity"

definition atomic_start :: "nat \<Rightarrow> Atomic" where
  "atomic_start n = \<lparr>caches = replicate n empty_cache, activities = \<lambda>j. Idle\<rparr>"

text \<open>The shard a key belongs to, in a server of \<open>n\<close> shards.\<close>

definition key_shard :: "(bytes \<Rightarrow> uint64) \<Rightarrow> nat \<Rightarrow> bytes \<Rightarrow> nat" where
  "key_shard hash n k = unat (hash k) mod n"

definition act :: "nat \<Rightarrow> activity \<Rightarrow> Atomic \<Rightarrow> Atomic" where
  "act j x a = a\<lparr>activities := (activities a)(j := x)\<rparr>"

definition set_cache :: "nat \<Rightarrow> Cache \<Rightarrow> Atomic \<Rightarrow> Atomic" where
  "set_cache i c a = a\<lparr>caches := (caches a)[i := c]\<rparr>"

text \<open>\<open>m\<close> is the budget of a shard.\<close>

inductive atomic_step :: "(bytes \<Rightarrow> uint64) \<Rightarrow> size_t \<Rightarrow> Atomic \<Rightarrow> event list \<Rightarrow> Atomic \<Rightarrow> bool" for hash m where
  atomic_invoke: "activities a j = Idle \<Longrightarrow> valid_command cmd \<Longrightarrow>
    atomic_step hash m a [Invoke j cmd] (act j (take_up (length (caches a)) cmd) a)"
| atomic_call: "activities a j = Calling cmd \<Longrightarrow> key_shard hash (length (caches a)) (hd (cmd_args cmd)) = i \<Longrightarrow>
    cache_keyed (unat m) cmd clk (caches a ! i) = (v, c) \<Longrightarrow>
    atomic_step hash m a [] (act j (Answered v) (set_cache i c a))"
| atomic_delete: "activities a j = Deleting ks c \<Longrightarrow> i < length (caches a) \<Longrightarrow>
    part = {k \<in> ks. key_shard hash (length (caches a)) k = i} \<Longrightarrow>
    atomic_step hash m a [] (act j (Deleting (ks - part) (c + of_nat (card (part \<inter> entry_keys (cached (caches a ! i))))))
      (set_cache i (cache_delete part (caches a ! i)) a))"
| atomic_count: "activities a j = Counting is acc \<Longrightarrow> i \<in> is \<Longrightarrow>
    atomic_step hash m a [] (act j (Counting (is - {i}) (add_stats acc (cache_stats m (caches a ! i)))) a)"
| atomic_respond: "answer (activities a j) = Some v \<Longrightarrow> atomic_step hash m a [Respond j v] (act j Idle a)"
| atomic_refuse: "activities a j = Idle \<Longrightarrow> v \<in> {malformed_reply, invalid_reply, too_large_reply} \<Longrightarrow>
    atomic_step hash m a [Refuse j v] a"
| atomic_purge: "i < length (caches a) \<Longrightarrow> atomic_step hash m a [] (set_cache i (cache_purge now (caches a ! i)) a)"

abbreviation atomic_run :: "(bytes \<Rightarrow> uint64) \<Rightarrow> size_t \<Rightarrow> Atomic \<Rightarrow> event list \<Rightarrow> Atomic \<Rightarrow> bool" where
  "atomic_run hash m \<equiv> event_run (atomic_step hash m) (\<lambda>a es. es)"

lemma atomic_run_single: "atomic_step hash m a es a' \<Longrightarrow> atomic_run hash m a es a'"
  by (rule event_run_single [where obs = "\<lambda>a es. es"])

text \<open>What connection \<open>j\<close> has been sent.\<close>

fun replies_to :: "nat \<Rightarrow> event list \<Rightarrow> RespValue list" where
  "replies_to j [] = []"
| "replies_to j (Respond i v # es) = (if i = j then v # replies_to j es else replies_to j es)"
| "replies_to j (Refuse i v # es) = (if i = j then v # replies_to j es else replies_to j es)"
| "replies_to j (Invoke i cmd # es) = replies_to j es"

lemma replies_to_append [simp]: "replies_to j (es @ fs) = replies_to j es @ replies_to j fs"
  by (induction j es rule: replies_to.induct) auto

end
