(* ===== verification/Server_Config.thy ===== *)
theory Server_Config
  imports Session Expiration
begin

section \<open>Configuration and the listener\<close>

text \<open>
  \<open>include/config.hpp\<close>, \<open>src/config.cpp\<close>, \<open>include/server.hpp\<close> and \<open>src/server.cpp\<close>. Reading TOML is
  third-party code: the values of the settings are parameters, \<open>None\<close> for a setting that is missing
  or has another type. The defaults in the code are \<open>int\<close> literals, so toml++ yields a number only
  if it fits the 32 bits of an \<open>int\<close>; the conversions from there to the fields of \<open>Config\<close> are
  modelled at their widths.

  Of the server, this theory has the construction, with the network as a parameter, and the listener
  that assigns connections to shards; running it is the subject of \<open>Concurrent_Server\<close>.
\<close>

subsection \<open>Configuration\<close>

type_synonym int32 = "32 word"
type_synonym uint16 = "16 word"

record toml =
  toml_string :: "bytes \<Rightarrow> bytes \<Rightarrow> bytes option"
  toml_int :: "bytes \<Rightarrow> bytes \<Rightarrow> int32 option"
  toml_bool :: "bytes \<Rightarrow> bytes \<Rightarrow> bool option"

record Config =
  cfg_host :: bytes
  cfg_port :: uint16
  cfg_max_message_size :: size_t
  cfg_max_memory_bytes_per_shard :: uint64
  cfg_preallocated_map_capacity_per_shard :: size_t
  cfg_shard_count :: uint16
  cfg_thread_affinity_enabled :: bool

definition value_or :: "'a option \<Rightarrow> 'a \<Rightarrow> 'a" where
  "value_or x dflt = (case x of Some v \<Rightarrow> v | None \<Rightarrow> dflt)"

text \<open>A setting that must be positive, and the fallback otherwise; the number is an \<open>int64_t\<close>.\<close>

definition positive_setting :: "int32 option \<Rightarrow> int \<Rightarrow> int" where
  "positive_setting x dflt =
     (let n = value_or (map_option sint x) dflt in if n \<le> 0 then dflt else n)"

definition get_config :: "toml \<Rightarrow> Config" where
  "get_config toml_config =
     (let capacity = value_or (map_option sint (toml_int toml_config ''cache'' ''preallocated_map_capacity_per_shard'')) 0
      in \<lparr>cfg_host = value_or (toml_string toml_config ''server'' ''host'') ''0.0.0.0'',
          cfg_port = ucast (value_or (toml_int toml_config ''server'' ''port'') 8080),
          cfg_max_message_size =
            word_of_int (positive_setting (toml_int toml_config ''server'' ''max_message_size'') 1024),
          cfg_max_memory_bytes_per_shard =
            word_of_int (positive_setting (toml_int toml_config ''cache'' ''max_memory_bytes_per_shard'') 1024),
          cfg_preallocated_map_capacity_per_shard = word_of_int (if capacity < 0 then 0 else capacity),
          cfg_shard_count = word_of_int (positive_setting (toml_int toml_config ''cache'' ''shard_count'') 1),
          cfg_thread_affinity_enabled = value_or (toml_bool toml_config ''server'' ''thread_affinity_enabled'') False\<rparr>)"

lemma sint32_less: "sint (x :: int32) < 2 ^ 31"
  using sint_lt [of x] by simp

lemma positive_setting_bounds:
  "0 < dflt \<Longrightarrow> dflt < 2 ^ 31 \<Longrightarrow> 0 < positive_setting x dflt \<and> positive_setting x dflt < 2 ^ 31"
  using sint32_less by (auto simp: positive_setting_def value_or_def Let_def split: option.splits)

lemma unat_positive: "0 < i \<Longrightarrow> i < 2 ^ 31 \<Longrightarrow> int (unat (word_of_int i :: 64 word)) = i"
  by (simp add: unat_eq_nat_uint uint_word_of_int)

lemma config_sizes:
  "0 < unat (cfg_max_message_size (get_config tm)) \<and> unat (cfg_max_message_size (get_config tm)) < 2 ^ 31"
  "0 < unat (cfg_max_memory_bytes_per_shard (get_config tm)) \<and> unat (cfg_max_memory_bytes_per_shard (get_config tm)) < 2 ^ 31"
proof -
  have b: "0 < unat (word_of_int i :: 64 word) \<and> unat (word_of_int i :: 64 word) < 2 ^ 31" if "0 < i" "i < 2 ^ 31" for i
  proof -
    obtain u where u: "u = unat (word_of_int i :: 64 word)" by simp
    have "int u = i" unfolding u by (rule unat_positive [OF that])
    with that have "0 < u \<and> u < 2 ^ 31" by auto
    then show ?thesis by (simp add: u)
  qed
  show "0 < unat (cfg_max_message_size (get_config tm)) \<and> unat (cfg_max_message_size (get_config tm)) < 2 ^ 31"
    "0 < unat (cfg_max_memory_bytes_per_shard (get_config tm)) \<and> unat (cfg_max_memory_bytes_per_shard (get_config tm)) < 2 ^ 31"
    using b positive_setting_bounds [of 1024] by (simp_all add: get_config_def Let_def)
qed

subsection \<open>The listener\<close>

record Server =
  shard_pool :: ShardPool
  server_max_message_size :: size_t
  next_shard :: size_t

definition new_server :: "Config \<Rightarrow> Server" where
  "new_server config =
     \<lparr>shard_pool = new_pool (ucast (cfg_shard_count config)) (cfg_max_memory_bytes_per_shard config)
        (cfg_thread_affinity_enabled config),
      server_max_message_size = cfg_max_message_size config,
      next_shard = 0\<rparr>"

text \<open>The constructor also opens the acceptor, which throws when the host is not an address, or the port
  cannot be opened, bound and listened on. The network is third-party code: two predicates. \<open>None\<close> is
  the exception; nothing in the program catches it.\<close>

record network =
  is_address :: "bytes \<Rightarrow> bool"
  can_listen :: "bytes \<Rightarrow> uint16 \<Rightarrow> bool"

definition construct_server :: "network \<Rightarrow> Config \<Rightarrow> Server option" where
  "construct_server net config =
     (if \<not> is_address net (cfg_host config) then None
      else if \<not> can_listen net (cfg_host config) (cfg_port config) then None
      else Some (new_server config))"

text \<open>One turn of \<open>Server::listener\<close>: the shard for the next connection, taken before \<open>async_accept\<close>
  completes, so that a failed accept uses up a turn as well.\<close>

definition listener_turn :: "Server \<Rightarrow> size_t \<times> Server" where
  "listener_turn srv =
     (next_shard srv mod pool_size (shard_pool srv), srv\<lparr>next_shard := next_shard srv + 1\<rparr>)"

fun listener_turns :: "nat \<Rightarrow> Server \<Rightarrow> size_t list" where
  "listener_turns 0 srv = []"
| "listener_turns (Suc k) srv =
     (let (shard_index, srv') = listener_turn srv in shard_index # listener_turns k srv')"

lemma listener_turns_from:
  assumes "unat (pool_size (shard_pool srv)) = n" and "unat (next_shard srv) = a" and "a + k < 2 ^ 64"
  shows "listener_turns k srv = map (\<lambda>i. of_nat (i mod n)) [a..<a + k]"
  using assms
proof (induction k arbitrary: a srv)
  case (Suc k)
  have "unat (next_shard srv + 1) = Suc a"
    using Suc.prems(2,3) by (simp add: unat_word_ariths)
  then have "listener_turns k (srv\<lparr>next_shard := next_shard srv + 1\<rparr>) = map (\<lambda>i. of_nat (i mod n)) [Suc a..<Suc a + k]"
    using Suc.prems by (intro Suc.IH) simp_all
  moreover have "next_shard srv mod pool_size (shard_pool srv) = of_nat (a mod n)"
    using Suc.prems(1,2) by (simp add: word_arith_nat_mod)
  moreover have "[a..<a + Suc k] = a # [Suc a..<Suc a + k]" by (simp add: upt_conv_Cons)
  ultimately show ?case by (simp add: listener_turn_def)
qed simp

subsection \<open>Properties\<close>

text \<open>C32: Whatever the configuration file says, the size limit of a message and the budget of a shard are
  between 1 and \<open>2 ^ 31 - 1\<close>, so that the byte counters of the shards cannot overflow, and a value
  that is given, positive and fits an \<open>int\<close> is taken as it is.\<close>

theorem config_limits:
  "1 \<le> unat (cfg_max_message_size (get_config tm)) \<and> 1 \<le> unat (cfg_max_memory_bytes_per_shard (get_config tm)) \<and>
   unat (cfg_max_memory_bytes_per_shard (get_config tm)) + unat (cfg_max_message_size (get_config tm)) < 2 ^ 64 \<and>
   int (unat (cfg_max_message_size (get_config tm))) =
     (case toml_int tm ''server'' ''max_message_size'' of Some x \<Rightarrow> if sint x \<le> 0 then 1024 else sint x | None \<Rightarrow> 1024) \<and>
   int (unat (cfg_max_memory_bytes_per_shard (get_config tm))) =
     (case toml_int tm ''cache'' ''max_memory_bytes_per_shard'' of Some x \<Rightarrow> if sint x \<le> 0 then 1024 else sint x | None \<Rightarrow> 1024)"
proof -
  have "int (unat (word_of_int (positive_setting x 1024) :: 64 word)) =
      (case x of Some x \<Rightarrow> if sint x \<le> 0 then 1024 else sint x | None \<Rightarrow> 1024)" for x
    using positive_setting_bounds [of 1024 x] unat_positive [of "positive_setting x 1024"]
    by (auto simp: positive_setting_def value_or_def Let_def split: option.splits)
  with config_sizes [of tm] show ?thesis by (simp add: get_config_def Let_def)
qed

text \<open>C38: The number of shards the server runs is the configured number truncated to 16 bits, and at least
  one: a configuration that asks for 65536 shards gets a single one.\<close>

theorem shard_count_truncated:
  "length (workers (shard_pool (new_server (get_config tm)))) =
     max 1 (nat (positive_setting (toml_int tm ''cache'' ''shard_count'') 1) mod 65536) \<and>
   length (workers (shard_pool (new_server (get_config
     \<lparr>toml_string = \<lambda>_ _. None, toml_int = \<lambda>_ _. Some 65536, toml_bool = \<lambda>_ _. None\<rparr>)))) = 1"
proof -
  have count: "length (workers (shard_pool (new_server (get_config tm)))) =
     max 1 (nat (positive_setting (toml_int tm ''cache'' ''shard_count'') 1) mod 65536)" for tm
  proof -
    let ?n = "positive_setting (toml_int tm ''cache'' ''shard_count'') 1"
    have "unat (ucast (word_of_int ?n :: uint16) :: size_t) = nat (?n mod 65536)"
      by (simp add: unat_eq_nat_uint uint_word_of_int unsigned_ucast_eq take_bit_eq_mod)
    also have "\<dots> = nat ?n mod 65536"
      using positive_setting_bounds [of 1 "toml_int tm ''cache'' ''shard_count''"] by (simp add: nat_mod_distrib)
    finally have "unat (max 1 (ucast (word_of_int ?n :: uint16)) :: size_t) = max 1 (nat ?n mod 65536)"
      by (simp add: max_def word_le_nat_alt)
    then show ?thesis by (simp add: new_server_def new_pool_def get_config_def Let_def)
  qed
  show ?thesis unfolding count by (simp add: positive_setting_def value_or_def)
qed

text \<open>Connections are assigned to the shards in turn: the \<open>i\<close>-th accept of the listener, counting from
  zero and including failed ones, is for shard \<open>i\<close> modulo the number of shards, for the first
  \<open>2 ^ 64\<close> turns.\<close>

theorem listener_round_robin:
  assumes "k < 2 ^ 64"
  shows "listener_turns k (new_server config) =
    map (\<lambda>i. of_nat (i mod unat (max 1 (ucast (cfg_shard_count config) :: size_t)))) [0..<k]"
proof -
  have "unat (pool_size (shard_pool (new_server config))) = unat (max 1 (ucast (cfg_shard_count config) :: size_t))"
    by (simp add: new_server_def new_pool_size)
  from listener_turns_from [OF this, of 0 k] assms show ?thesis by (simp add: new_server_def)
qed

theorem listener_round_robin_witness:
  "listener_turns 5 (new_server ((get_config \<lparr>toml_string = \<lambda>_ _. None, toml_int = \<lambda>_ _. None, toml_bool = \<lambda>_ _. None\<rparr>)
      \<lparr>cfg_shard_count := 3\<rparr>)) = [0, 1, 2, 0, 1]"
  using listener_round_robin [of 5 "(get_config \<lparr>toml_string = \<lambda>_ _. None, toml_int = \<lambda>_ _. None, toml_bool = \<lambda>_ _. None\<rparr>)
      \<lparr>cfg_shard_count := 3\<rparr>"]
  by (simp add: upt_rec max_def)

end
