(* ===== verification/Pool_Lifecycle.thy ===== *)
theory Pool_Lifecycle
  imports Shard_Pool
begin

section \<open>The life of a pool\<close>

text \<open>
  What a client of \<open>ShardPool\<close> may do with \<open>start\<close>, \<open>stop\<close> and the destructor. \<open>pool_calls\<close> is any
  sequence of calls, with the created threads getting to run at any time in between. The abstract
  life is a state machine with five states, and the pool refines it: \<open>stop\<close> always comes back, both
  calls do nothing the second time, and the destructor is safe except in the state \<open>Broken\<close>, which
  only a first \<open>start\<close> after a \<open>stop\<close> leads to.
\<close>

datatype pool_call = CallStart "nat \<Rightarrow> thread" | CallStop | ThreadBegins nat

definition pool_call :: "uint32 \<Rightarrow> pool_call \<Rightarrow> ShardPool \<Rightarrow> ShardPool option" where
  "pool_call hw c p =
     (case c of
        CallStart new_thread \<Rightarrow> Some (pool_start new_thread p)
      | CallStop \<Rightarrow> pool_stop hw p
      | ThreadBegins i \<Rightarrow>
          Some (if i < length (workers p)
            then p\<lparr>workers := (workers p)[i := thread_begin hw (thread_affinity_enabled p) (of_nat i) (workers p ! i)]\<rparr> else p))"

fun pool_calls :: "uint32 \<Rightarrow> pool_call list \<Rightarrow> ShardPool \<Rightarrow> ShardPool option" where
  "pool_calls hw [] p = Some p"
| "pool_calls hw (c # cs) p = pool_call hw c p \<bind> pool_calls hw cs"

subsection \<open>The abstract life\<close>

datatype life = Fresh | Active | Halted | Unstarted | Broken

fun life_call :: "pool_call \<Rightarrow> life \<Rightarrow> life" where
  "life_call (CallStart nt) Fresh = Active"
| "life_call (CallStart nt) Unstarted = Broken"
| "life_call CallStop Fresh = Unstarted"
| "life_call CallStop Active = Halted"
| "life_call c l = l"

definition is_start :: "pool_call \<Rightarrow> bool" where
  "is_start c = (case c of CallStart nt \<Rightarrow> True | _ \<Rightarrow> False)"

text \<open>The first \<open>start\<close> comes after a \<open>stop\<close>.\<close>

fun late_start :: "pool_call list \<Rightarrow> bool" where
  "late_start [] = False"
| "late_start (CallStart nt # cs) = False"
| "late_start (CallStop # cs) = list_ex is_start cs"
| "late_start (ThreadBegins i # cs) = late_start cs"

definition joinable :: "Worker \<Rightarrow> bool" where
  "joinable w \<longleftrightarrow> worker_thread w \<noteq> NoThread"

definition in_life :: "life \<Rightarrow> ShardPool \<Rightarrow> bool" where
  "in_life l p \<longleftrightarrow>
     workers p \<noteq> [] \<and> started p = (l \<in> {Active, Halted, Broken}) \<and> stopped p = (l \<in> {Halted, Unstarted, Broken}) \<and>
     (\<forall>w \<in> set (workers p). joinable w = (l \<in> {Active, Broken}))"

lemma those_all: "(\<And>x. x \<in> set xs \<Longrightarrow> f x = Some (g x)) \<Longrightarrow> those (map f xs) = Some (map g xs)"
  by (induction xs) simp_all

lemma thread_begin_joinable [simp]: "joinable (thread_begin hw aff i w) = joinable w"
  by (auto simp: thread_begin_defs joinable_def split: std_thread.splits)

lemma those_list_all2: "those (map f xs) = Some ys \<Longrightarrow> list_all2 (\<lambda>x y. f x = Some y) xs ys"
  by (induction xs arbitrary: ys) (auto split: option.splits)

lemma join_threadsD:
  assumes "join_threads p = Some p'"
  shows "p' = p\<lparr>workers := workers p'\<rparr>" "list_all2 (\<lambda>w w'. join_thread w = Some w') (workers p) (workers p')"
  using assms by (auto simp: join_threads_def dest: those_list_all2)

lemma join_thread_SomeD:
  "join_thread w = Some w' \<Longrightarrow> w' = w\<lparr>worker_thread := NoThread\<rparr> \<and> (\<forall>t. worker_thread w \<noteq> Spawned t \<and> worker_thread w \<noteq> InLoop t)"
  by (auto simp: join_thread_def split: std_thread.splits)

text \<open>Once the event loops are stopped every thread comes to its end and can be joined.\<close>

lemma join_finished:
  assumes "io_stopped w"
  shows "\<exists>w'. join_thread (thread_return (thread_begin hw aff i w)) = Some w' \<and> \<not> joinable w' \<and> shard w' = shard w"
  using assms
  by (auto simp: join_thread_def thread_return_def thread_begin_defs joinable_def split: std_thread.splits)

lemma pool_stop_total:
  assumes "\<not> stopped p"
  shows "\<exists>p'. pool_stop hw p = Some p' \<and> stopped p' \<and> started p' = started p \<and>
    length (workers p') = length (workers p) \<and> (\<forall>w \<in> set (workers p'). \<not> joinable w) \<and>
    (\<forall>i < length (workers p). shard (workers p' ! i) = shard (workers p ! i))"
proof -
  let ?fin = "\<lambda>i w. thread_return (thread_begin hw (thread_affinity_enabled p) (of_nat i) (w\<lparr>work_guard := False, io_stopped := True\<rparr>))"
  let ?ws = "map (\<lambda>(i, w). ?fin i w) (enumerate 0 (workers p))"
  have ws: "workers (run_threads hw (stop_loops p)) = ?ws"
    by (simp add: run_threads_def stop_loops_def enumerate_map_upt list_eq_iff_nth_eq nth_enumerate_eq)
  have join: "join_thread x = Some (the (join_thread x)) \<and> \<not> joinable (the (join_thread x)) \<and> shard (the (join_thread x)) = shard x"
    if x: "x \<in> set ?ws" for x
  proof -
    obtain i w where "x = ?fin i w" using x by auto
    with join_finished [of "w\<lparr>work_guard := False, io_stopped := True\<rparr>" hw "thread_affinity_enabled p" "of_nat i"]
    show ?thesis by auto
  qed
  then have "those (map join_thread ?ws) = Some (map (the \<circ> join_thread) ?ws)"
    by (intro those_all) simp
  then have "pool_stop hw p = Some ((run_threads hw (stop_loops p))\<lparr>workers := map (the \<circ> join_thread) ?ws\<rparr>)"
    using assms by (simp add: pool_stop_def join_threads_def ws)
  moreover have "shard (the (join_thread (?ws ! i))) = shard (workers p ! i)" if "i < length (workers p)" for i
  proof -
    have "?ws ! i \<in> set ?ws" using that by (intro nth_mem) simp
    from join [OF this] show ?thesis using that by (simp add: nth_enumerate_eq)
  qed
  ultimately show ?thesis using join by (simp add: run_threads_def stop_loops_def)
qed

lemma pool_call_life:
  assumes "in_life l p"
  shows "\<exists>p'. pool_call hw c p = Some p' \<and> in_life (life_call c l) p' \<and> length (workers p') = length (workers p) \<and>
    (\<forall>i < length (workers p). shard (workers p' ! i) = shard (workers p ! i))"
proof (cases c)
  case (CallStart nt)
  then show ?thesis
    using assms by (cases l) (auto simp: pool_call_def pool_start_def in_life_def joinable_def nth_enumerate_eq)
next
  case CallStop
  then show ?thesis
  proof (cases "stopped p")
    case True
    with assms CallStop show ?thesis by (cases l) (auto simp: pool_call_def pool_stop_def in_life_def)
  next
    case False
    from pool_stop_total [OF this, of hw] assms CallStop False show ?thesis
      by (cases l) (auto simp: pool_call_def in_life_def)
  qed
next
  case (ThreadBegins i)
  then show ?thesis
    using assms by (cases l; cases "i < length (workers p)")
      (auto simp: pool_call_def in_life_def nth_list_update dest!: set_update_subset_insert [THEN subsetD])
qed

lemma pool_calls_life:
  assumes "in_life l p"
  shows "\<exists>p'. pool_calls hw cs p = Some p' \<and> in_life (fold life_call cs l) p' \<and> length (workers p') = length (workers p) \<and>
    (\<forall>i < length (workers p). shard (workers p' ! i) = shard (workers p ! i))"
  using assms
proof (induction cs arbitrary: l p)
  case (Cons c cs)
  obtain p1 where "pool_call hw c p = Some p1" "in_life (life_call c l) p1" "length (workers p1) = length (workers p)"
      "\<forall>i < length (workers p). shard (workers p1 ! i) = shard (workers p ! i)"
    using pool_call_life [OF Cons.prems] by blast
  with Cons.IH [of "life_call c l" p1] show ?case by fastforce
qed auto

lemma pool_destroy_life:
  assumes "in_life l p"
  shows "pool_destroy hw p = (if l = Broken then None else Some ())"
proof (cases "stopped p")
  case True
  with assms show ?thesis
    by (cases l) (auto simp: pool_destroy_def pool_stop_def in_life_def joinable_def)
next
  case False
  from pool_stop_total [OF this, of hw] assms False show ?thesis
    by (cases l) (auto simp: pool_destroy_def in_life_def joinable_def)
qed

lemma new_pool_life: "in_life Fresh (new_pool n m aff)"
proof -
  have "0 < unat (max 1 n)" using unat_gt_0 [of "max 1 n"] by (auto simp: max_def)
  then show ?thesis by (auto simp: in_life_def new_pool_def new_worker_def joinable_def)
qed

text \<open>The state the abstract life ends in, in terms of the calls.\<close>

lemma life_stays:
  "fold life_call cs Halted = Halted" "fold life_call cs Broken = Broken"
  "fold life_call cs Active = (if CallStop \<in> set cs then Halted else Active)"
  "fold life_call cs Unstarted = (if list_ex is_start cs then Broken else Unstarted)"
proof -
  show *: "fold life_call cs Halted = Halted" for cs by (induction cs) simp_all
  show **: "fold life_call cs Broken = Broken" for cs by (induction cs) simp_all
  show "fold life_call cs Active = (if CallStop \<in> set cs then Halted else Active)"
  proof (induction cs)
    case (Cons c cs)
    then show ?case by (cases c) (simp_all add: *)
  qed simp
  show "fold life_call cs Unstarted = (if list_ex is_start cs then Broken else Unstarted)"
  proof (induction cs)
    case (Cons c cs)
    then show ?case by (cases c) (simp_all add: ** is_start_def)
  qed simp
qed

lemma life_Broken: "fold life_call cs Fresh = Broken \<longleftrightarrow> late_start cs"
  by (induction cs rule: late_start.induct) (simp_all add: life_stays list_ex_iff)

text \<open>A thread is only ever pinned to a core that exists.\<close>

lemma worker_core_less: "worker_core hw i < max 1 hw"
proof -
  have "0 < unat (max 1 hw)" using unat_gt_0 [of "max 1 hw"] by (auto simp: max_def)
  then have "unat (i mod ucast (max 1 hw)) < unat (max 1 hw)"
    unfolding unat_mod unat_ucast_32_64 by (rule mod_less_divisor)
  then show ?thesis
    unfolding worker_core_def word_less_nat_alt unat_ucast_64_32 by (meson le_less_trans mod_less_eq_dividend)
qed

subsection \<open>Properties\<close>

text \<open>C39: Starting, stopping and destroying a pool. Whatever the order of calls to \<open>start\<close> and \<open>stop\<close>, and
  whenever the threads get to run: every call comes back, \<open>stop\<close> never waits forever, and no call
  touches the contents of a shard. Destroying the pool ends the program (a thread that was never
  joined) exactly when the first \<open>start\<close> came after a \<open>stop\<close>.\<close>

theorem pool_lifecycle:
  "\<exists>p. pool_calls hw cs (new_pool n m aff) = Some p \<and> map shard (workers p) = map shard (workers (new_pool n m aff)) \<and>
    (pool_destroy hw p = None \<longleftrightarrow> late_start cs)"
proof -
  obtain p where p: "pool_calls hw cs (new_pool n m aff) = Some p" "in_life (fold life_call cs Fresh) p"
      "length (workers p) = length (workers (new_pool n m aff))"
      "\<forall>i < length (workers (new_pool n m aff)). shard (workers p ! i) = shard (workers (new_pool n m aff) ! i)"
    using pool_calls_life [OF new_pool_life] by blast
  have "map shard (workers p) = map shard (workers (new_pool n m aff))"
    using p(3,4) by (simp add: list_eq_iff_nth_eq)
  moreover have "pool_destroy hw p = None \<longleftrightarrow> fold life_call cs Fresh = Broken"
    using pool_destroy_life [OF p(2)] by simp
  ultimately show ?thesis using p(1) by (auto simp: life_Broken)
qed

end
