(* ===== verification/Concurrent_Server.thy ===== *)
theory Concurrent_Server
  imports Server_Config Pool_Lifecycle Fair_Runs
begin

section \<open>The running server: sessions, shards and cleaners interleaved\<close>

text \<open>
  All coroutines of the server together, as a step relation. Every session is a state machine with
  the phases of \<open>Session::run\<close>: looking at its buffer, executing a command, waiting for a write to
  complete, reading, closed. A suspended command waits with a closure for some worker. A step lets
  one party go on: a session handles its buffer, hands a reply to its socket or is told that a write
  or a read has completed; a worker runs the closure some session waits with; a worker's cleaning
  loop wakes up; a thread starts or ends; the listener accepts a connection; a signal arrives; the
  main thread returns.

  The steps may come in any order and the clock readings may be any numbers. This covers every
  schedule of the worker threads, because a worker's \<open>io_context\<close> runs one handler at a time and a
  shard is only touched by handlers of its worker.

  \<open>server_ok\<close> is the invariant, \<open>server_defined\<close> says that whatever party goes on next does not run
  into undefined behaviour, an exception or an endless loop. It does not cover the overflow of a
  deadline that a client may ask for, which the model computes modulo \<open>2 ^ 64\<close>; \<open>deadline_overflow\<close> is about it.
\<close>

subsection \<open>Sessions as state machines\<close>

text \<open>\<open>Writing close\<close> waits in \<open>Session::write\<close>; afterwards the session ends or looks at its buffer again.
  The messages in \<open>sent\<close> are those handed to \<open>async_write\<close>.\<close>

datatype phase = Parsing | Executing "RespValue task" | Writing bool | Reading | Closed

record Session =
  buffer :: bytes
  executor :: CommandExecutor
  home_shard :: size_t
  message_limit :: size_t
  phase :: phase
  sent :: "bytes list"

definition new_session :: "ShardPool \<Rightarrow> size_t \<Rightarrow> size_t \<Rightarrow> Session" where
  "new_session p home max_message_size =
     \<lparr>buffer = [], executor = new_executor p, home_shard = home, message_limit = session_limit max_message_size,
      phase = Parsing, sent = []\<rparr>"

definition send :: "RespValue \<Rightarrow> bool \<Rightarrow> Session \<Rightarrow> Session option" where
  "send v close s = map_option (\<lambda>message. s\<lparr>sent := sent s @ [message], phase := Writing close\<rparr>) (serialize v)"

text \<open>The write has completed; the code does not care whether it failed.\<close>

definition write_turn :: "bool \<Rightarrow> Session \<Rightarrow> Session" where
  "write_turn close s = s\<lparr>phase := (if close then Closed else Parsing)\<rparr>"

text \<open>A turn of the inner loop of \<open>Session::run\<close>, up to the point where the command is suspended.\<close>

definition request_turn :: "(bytes \<Rightarrow> uint64) \<Rightarrow> thread \<Rightarrow> ShardPool \<Rightarrow> Session \<Rightarrow> Session option" where
  "request_turn hash th p s =
     (case next_request (buffer s) of
        None \<Rightarrow> None
      | Some (AwaitData b) \<Rightarrow> Some (s\<lparr>buffer := b, phase := Reading\<rparr>)
      | Some (RejectStream b) \<Rightarrow> send malformed_reply True (s\<lparr>buffer := b\<rparr>)
      | Some (RejectRequest b) \<Rightarrow> send invalid_reply False (s\<lparr>buffer := b\<rparr>)
      | Some (ExecuteRequest cmd b) \<Rightarrow>
          map_option (\<lambda>t. s\<lparr>buffer := b, phase := Executing t\<rparr>) 
            (executor_execute hash (executor s) th p cmd (Some (home_shard s))))"

definition reply_turn :: "RespValue \<Rightarrow> Session \<Rightarrow> Session option" where
  "reply_turn response s = send response False s"

definition read_turn :: "read_event \<Rightarrow> Session \<Rightarrow> Session option" where
  "read_turn event s =
     (case session_read (message_limit s) event (buffer s) of
        (Read_kMessageTooLarge, b) \<Rightarrow> send too_large_reply True (s\<lparr>buffer := b\<rparr>)
      | (Read_kNewMessage, b) \<Rightarrow> Some (s\<lparr>buffer := b, phase := Parsing\<rparr>)
      | (_, b) \<Rightarrow> Some (s\<lparr>buffer := b, phase := Closed\<rparr>))"

text \<open>A full buffer is refused before the socket is asked; then the event does not matter.
  \<open>async_read_some\<close> delivers at most as many bytes as it was given room for.\<close>

definition event_fits :: "Session \<Rightarrow> read_event \<Rightarrow> bool" where
  "event_fits s event =
     (case event of ReadData bs \<Rightarrow> length bs \<le> unat (message_limit s) - length (buffer s) | _ \<Rightarrow> True)"

subsection \<open>The step relation\<close>

text \<open>The main thread runs the listener's event loop; after a signal it waits for the workers in
  \<open>shard_pool_.stop()\<close>; then \<open>Server::run\<close> returns.\<close>

datatype main_phase = Main_Loop | Main_Joining | Main_Returned

record Running =
  run_server :: Server
  run_sessions :: "Session list"
  wake_times :: "time_point list"
  run_main :: main_phase

abbreviation run_pool :: "Running \<Rightarrow> ShardPool" where
  "run_pool r \<equiv> shard_pool (run_server r)"

definition set_session :: "nat \<Rightarrow> Session \<Rightarrow> Running \<Rightarrow> Running" where
  "set_session j s r = r\<lparr>run_sessions := (run_sessions r)[j := s]\<rparr>"

definition set_pool :: "ShardPool \<Rightarrow> Running \<Rightarrow> Running" where
  "set_pool p r = r\<lparr>run_server := (run_server r)\<lparr>shard_pool := p\<rparr>\<rparr>"

definition set_worker :: "nat \<Rightarrow> Worker \<Rightarrow> ShardPool \<Rightarrow> ShardPool" where
  "set_worker i w p = p\<lparr>workers := (workers p)[i := w]\<rparr>"

text \<open>The thread that runs the event loop of a worker, if one does. \<open>io_context::stop\<close> does not interrupt the
  handler in progress, and \<open>stop\<close> reaches one worker after the other, so stopped workers may still be
  executing code, a direct call of \<open>local_shard\<close> included. The model lets a worker go on after the
  signal, with as many steps as it likes, until its thread returns; these are more
  schedules than the code has, and they make the stopping of all workers in one step the same as
  stopping them one by one.\<close>

definition loop_thread :: "size_t \<Rightarrow> ShardPool \<Rightarrow> thread option" where
  "loop_thread i p =
     (case worker_at i p of
        None \<Rightarrow> None
      | Some w \<Rightarrow> (case worker_thread w of InLoop t \<Rightarrow> Some t | _ \<Rightarrow> None))"

text \<open>Who makes a step: a session goes on by itself, its write completes, its socket delivers, a cleaning loop
  wakes up (with the two readings of the clock it makes), a worker's thread starts or ends, the listener's accept completes, a signal arrives, the
  main thread comes back from waiting.\<close>

datatype actor =
    Act_session nat
  | Act_write nat
  | Act_socket nat
  | Act_cleaner size_t time_point time_point
  | Act_thread nat
  | Act_listener
  | Act_signal
  | Act_main

inductive server_step :: "(bytes \<Rightarrow> uint64) \<Rightarrow> uint32 \<Rightarrow> Running \<Rightarrow> actor \<Rightarrow> Running \<Rightarrow> bool" for hash hw where
  step_request: "j < length (run_sessions r) \<Longrightarrow> run_sessions r ! j = s \<Longrightarrow> phase s = Parsing \<Longrightarrow>
    loop_thread (home_shard s) (run_pool r) = Some th \<Longrightarrow> request_turn hash th (run_pool r) s = Some s' \<Longrightarrow>
    server_step hash hw r (Act_session j) (set_session j s' r)"
| step_reply: "j < length (run_sessions r) \<Longrightarrow> run_sessions r ! j = s \<Longrightarrow> phase s = Executing (Finished v) \<Longrightarrow>
    loop_thread (home_shard s) (run_pool r) = Some th \<Longrightarrow> reply_turn v s = Some s' \<Longrightarrow>
    server_step hash hw r (Act_session j) (set_session j s' r)"
| step_shard: "j < length (run_sessions r) \<Longrightarrow> run_sessions r ! j = s \<Longrightarrow> phase s = Executing (OnShard i f) \<Longrightarrow>
    loop_thread i (run_pool r) = Some th \<Longrightarrow> worker_at i (run_pool r) = Some w \<Longrightarrow> f clk (shard w) = Some (t, sh) \<Longrightarrow>
    server_step hash hw r (Act_session j) (set_pool (put_shard i sh (run_pool r)) (set_session j (s\<lparr>phase := Executing t\<rparr>) r))"
| step_write: "j < length (run_sessions r) \<Longrightarrow> run_sessions r ! j = s \<Longrightarrow> phase s = Writing close \<Longrightarrow>
    loop_thread (home_shard s) (run_pool r) = Some th \<Longrightarrow>
    server_step hash hw r (Act_write j) (set_session j (write_turn close s) r)"
| step_full: "j < length (run_sessions r) \<Longrightarrow> run_sessions r ! j = s \<Longrightarrow> phase s = Reading \<Longrightarrow>
    loop_thread (home_shard s) (run_pool r) = Some th \<Longrightarrow> unat (message_limit s) \<le> length (buffer s) \<Longrightarrow>
    read_turn event s = Some s' \<Longrightarrow> server_step hash hw r (Act_session j) (set_session j s' r)"
| step_read: "j < length (run_sessions r) \<Longrightarrow> run_sessions r ! j = s \<Longrightarrow> phase s = Reading \<Longrightarrow>
    loop_thread (home_shard s) (run_pool r) = Some th \<Longrightarrow> length (buffer s) < unat (message_limit s) \<Longrightarrow> event_fits s event \<Longrightarrow> read_turn event s = Some s' \<Longrightarrow>
    server_step hash hw r (Act_socket j) (set_session j s' r)"
| step_clean: "loop_thread i (run_pool r) = Some th \<Longrightarrow> worker_at i (run_pool r) = Some w \<Longrightarrow>
    unat i < length (wake_times r) \<Longrightarrow> wake_times r ! unat i \<le> clk 0 \<Longrightarrow> cleaning_turn clk (shard w) = Some (wake, sh) \<Longrightarrow>
    server_step hash hw r (Act_cleaner i (clk 0) (clk 1))
      (set_pool (put_shard i sh (run_pool r)) (r\<lparr>wake_times := (wake_times r)[unat i := wake]\<rparr>))"
| step_thread_begin: "i < length (workers (run_pool r)) \<Longrightarrow> workers (run_pool r) ! i = w \<Longrightarrow> worker_thread w = Spawned t \<Longrightarrow>
    server_step hash hw r (Act_thread i)
      (set_pool (set_worker i (thread_begin hw (thread_affinity_enabled (run_pool r)) (of_nat i) w) (run_pool r))
        (r\<lparr>wake_times := (wake_times r)[i := arm_timer now (shard w)]\<rparr>))"
| step_thread_return: "i < length (workers (run_pool r)) \<Longrightarrow> workers (run_pool r) ! i = w \<Longrightarrow> worker_thread w = InLoop t \<Longrightarrow>
    io_stopped w \<Longrightarrow> server_step hash hw r (Act_thread i) (set_pool (set_worker i (thread_return w) (run_pool r)) r)"
| step_accept: "run_main r = Main_Loop \<Longrightarrow> listener_turn (run_server r) = (home, srv) \<Longrightarrow>
    server_step hash hw r Act_listener (r\<lparr>run_server := srv,
      run_sessions := run_sessions r @ [new_session (shard_pool srv) home (server_max_message_size srv)]\<rparr>)"
| step_accept_error: "run_main r = Main_Loop \<Longrightarrow> listener_turn (run_server r) = (home, srv) \<Longrightarrow>
    server_step hash hw r Act_listener (r\<lparr>run_server := srv\<rparr>)"
| step_signal: "run_main r = Main_Loop \<Longrightarrow> \<not> stopped (run_pool r) \<Longrightarrow>
    server_step hash hw r Act_signal (set_pool (stop_loops (run_pool r)) (r\<lparr>run_main := Main_Joining\<rparr>))"
| step_join: "run_main r = Main_Joining \<Longrightarrow> join_threads (run_pool r) = Some p \<Longrightarrow> pool_stop hw p = Some p' \<Longrightarrow>
    server_step hash hw r Act_main (set_pool p' (r\<lparr>run_main := Main_Returned\<rparr>))"

text \<open>\<open>Server::run\<close>, up to the point where the main thread enters its event loop: the
  threads of the pool are created, and the listener waits for the first connection. The cleaning
  loops start with their threads; the wake-up times before that do not matter.\<close>

definition run_server_start :: "(nat \<Rightarrow> thread) \<Rightarrow> Server \<Rightarrow> Running" where
  "run_server_start new_thread srv =
     (let pool = pool_start new_thread (shard_pool srv) in
      \<lparr>run_server = srv\<lparr>shard_pool := pool\<rparr>, run_sessions = [], wake_times = replicate (length (workers pool)) 0,
       run_main = Main_Loop\<rparr>)"

text \<open>\<open>main\<close>, up to the same point.\<close>

definition program_start :: "network \<Rightarrow> (nat \<Rightarrow> thread) \<Rightarrow> toml \<Rightarrow> Running option" where
  "program_start net new_thread toml_config =
     map_option (run_server_start new_thread) (construct_server net (get_config toml_config))"

inductive reachable :: "(bytes \<Rightarrow> uint64) \<Rightarrow> uint32 \<Rightarrow> Running \<Rightarrow> Running \<Rightarrow> bool" for hash hw r0 where
  reachable_start: "reachable hash hw r0 r0"
| reachable_step: "reachable hash hw r0 r \<Longrightarrow> server_step hash hw r a r' \<Longrightarrow> reachable hash hw r0 r'"

subsection \<open>Invariant\<close>

text \<open>Of a session: its indices are in range, its executor is the one for this pool, its buffer is within
  the limit, a suspended command is safe to resume, what it has sent are replies of the right shape,
  and it only waits for the socket when the
  buffer holds no complete request.\<close>

definition reply_bound :: "size_t \<Rightarrow> Session \<Rightarrow> nat" where
  "reply_bound m s = max 300 (max (unat m) (unat (message_limit s)))"

definition session_ok :: "(bytes \<Rightarrow> uint64) \<Rightarrow> ShardPool \<Rightarrow> size_t \<Rightarrow> Session \<Rightarrow> bool" where
  "session_ok hash p m s \<longleftrightarrow>
     home_shard s < pool_size p \<and> executor s = new_executor p \<and>
     unat m + unat (message_limit s) < 2 ^ 64 \<and> length (buffer s) \<le> unat (message_limit s) \<and>
     (\<forall>t. phase s = Executing t \<longrightarrow> task_ok (shard_ok hash (pool_size p) m) (pool_size p) (reply_within (reply_bound m s) 0) t) \<and>
     (\<forall>message \<in> set (sent s). reply_message (reply_bound m s) message) \<and>
     (phase s = Reading \<longrightarrow> parseImpl (buffer s) = NeedMoreData)"

text \<open>The life of a worker's thread goes with that of the main thread, and its core exists.\<close>

definition worker_ok :: "uint32 \<Rightarrow> main_phase \<Rightarrow> Worker \<Rightarrow> bool" where
  "worker_ok hw main w \<longleftrightarrow>
     io_stopped w = (main \<noteq> Main_Loop) \<and> (\<forall>c. pinned_core w = Some c \<longrightarrow> c < max 1 hw) \<and>
     (case worker_thread w of
        NoThread \<Rightarrow> main = Main_Returned
      | Spawned t \<Rightarrow> main \<noteq> Main_Returned
      | InLoop t \<Rightarrow> main \<noteq> Main_Returned \<and> thread_id w = Some t
      | Returned t \<Rightarrow> main = Main_Joining)"

definition server_ok :: "(bytes \<Rightarrow> uint64) \<Rightarrow> uint32 \<Rightarrow> size_t \<Rightarrow> Running \<Rightarrow> bool" where
  "server_ok hash hw m r \<longleftrightarrow>
     pool_ok hash m (run_pool r) \<and> unat m + unat (session_limit (server_max_message_size (run_server r))) < 2 ^ 64 \<and>
     (\<forall>s \<in> set (run_sessions r). session_ok hash (run_pool r) m s) \<and>
     length (wake_times r) = length (workers (run_pool r)) \<and> stopped (run_pool r) = (run_main r \<noteq> Main_Loop) \<and>
     (\<forall>w \<in> set (workers (run_pool r)). worker_ok hw (run_main r) w)"

definition session_defined :: "(bytes \<Rightarrow> uint64) \<Rightarrow> ShardPool \<Rightarrow> Session \<Rightarrow> bool" where
  "session_defined hash p s \<longleftrightarrow>
     (case phase s of
        Parsing \<Rightarrow> \<forall>th. request_turn hash th p s \<noteq> None
      | Executing (Finished v) \<Rightarrow> reply_turn v s \<noteq> None
      | Executing (OnShard i f) \<Rightarrow> \<exists>w. worker_at i p = Some w \<and> (\<forall>clk. f clk (shard w) \<noteq> None)
      | Writing close \<Rightarrow> True
      | Reading \<Rightarrow> \<forall>event. read_turn event s \<noteq> None
      | Closed \<Rightarrow> True)"

definition server_defined :: "(bytes \<Rightarrow> uint64) \<Rightarrow> Running \<Rightarrow> bool" where
  "server_defined hash r \<longleftrightarrow>
     (\<forall>s \<in> set (run_sessions r). session_defined hash (run_pool r) s) \<and>
     (\<forall>w \<in> set (workers (run_pool r)). \<forall>clk. cleaning_turn clk (shard w) \<noteq> None)"

lemma next_request_cases:
  obtains "next_request b = Some (AwaitData b)" "parseImpl b = NeedMoreData" | "next_request b = Some (RejectStream b)"
  | b' where "next_request b = Some (RejectRequest b')" "length b' \<le> length b"
  | cmd b' where "next_request b = Some (ExecuteRequest cmd b')" "length b' \<le> length b" "valid_command cmd"
      "\<And>a. a \<in> set (cmd_args cmd) \<Longrightarrow> length a \<le> length b" "\<And>m. unat m + length b < 2 ^ 64 \<Longrightarrow> cmd_fits m cmd"
proof (cases "parseImpl b")
  case (Ready n v)
  note ready = parse_ready [OF Ready]
  obtain c where c: "toCommand v = Some c" using decoded_command [OF ready(1)] by blast
  show ?thesis
  proof (cases c)
    case None
    then show ?thesis using that(3) [of "drop n b"] next_request_eq(3) [OF Ready] c by simp
  next
    case (Some cmd)
    have "valid_command cmd \<and> (unat m + value_size v < 2 ^ 64 \<longrightarrow> cmd_fits m cmd) \<and>
        (\<forall>a \<in> set (cmd_args cmd). length a \<le> value_size v)" for m
      using decoded_command [OF ready(1), of m] c Some by auto
    then show ?thesis
      using that(4) [of cmd "drop n b"] next_request_eq(3) [OF Ready] c Some ready(2) by fastforce
  qed
qed (use that(1,2) next_request_eq(1,2) in blast)+

lemma session_okD:
  assumes "session_ok hash p m s"
  shows "home_shard s < pool_size p" "unat m + length (buffer s) < 2 ^ 64" "length (buffer s) \<le> unat (message_limit s)"
    "executor_execute hash' (executor s) th p cmd home = execute hash' th p cmd home"
  using assms by (auto simp: session_ok_def execute_def)

lemma session_ok_size: "pool_size q = pool_size p \<Longrightarrow> session_ok hash q m s = session_ok hash p m s"
  by (simp add: session_ok_def new_executor_size [of q p])

lemma send_Some: "well_typed v \<Longrightarrow> send v close s = Some (s\<lparr>sent := sent s @ [serialize_rec v], phase := Writing close\<rparr>)"
  by (simp add: send_def serialize_eq)

lemma reply_consts_within [simp]:
  "reply_within B 0 malformed_reply" "reply_within B 0 invalid_reply" "reply_within B 0 too_large_reply"
  by (simp_all add: malformed_reply_def invalid_reply_def too_large_reply_def reply_within.simps cr_def)

lemmas reply_consts_typed [simp] = reply_consts_within [THEN reply_within_well_typed]

lemma reply_bound_simps [simp]:
  "reply_bound m (s\<lparr>buffer := b\<rparr>) = reply_bound m s" "reply_bound m (s\<lparr>phase := ph\<rparr>) = reply_bound m s"
  "reply_bound m (s\<lparr>sent := ms\<rparr>) = reply_bound m s"
  by (simp_all add: reply_bound_def)

lemma request_turn_ok:
  assumes pool: "pool_ok hash m p" and s: "session_ok hash p m s"
  shows "\<exists>s'. request_turn hash th p s = Some s' \<and> session_ok hash p m s'"
proof (cases rule: next_request_cases [of "buffer s"])
  case (4 cmd b')
  have home: "home_ok p (Some (home_shard s))" using session_okD(1) [OF s] by (simp add: home_ok_def)
  have "reply_room (reply_bound m s) m cmd"
    using 4(4) session_okD(3) [OF s] by (fastforce simp: reply_room_def reply_bound_def)
  from execute_replies [OF pool 4(3) 4(5) [OF session_okD(2) [OF s]] home this] obtain t where
    "execute hash th p cmd (Some (home_shard s)) = Some t"
    "task_ok (shard_ok hash (pool_size p) m) (pool_size p) (reply_within (reply_bound m s) 0) t" by blast
  then show ?thesis using 4(1,2) s session_okD(4) [OF s] by (auto simp: request_turn_def session_ok_def)
qed (use s reply_consts_within [THEN reply_messageI] in \<open>auto simp: request_turn_def send_Some session_ok_def dest: next_request_eq(1)\<close>)

lemma finished_within:
  assumes "session_ok hash p m s" and "phase s = Executing (Finished v)"
  shows "reply_within (reply_bound m s) 0 v" "well_typed v"
  using assms reply_within_well_typed by (auto simp: session_ok_def task_ok_Finished)

lemma reply_turn_ok:
  assumes "session_ok hash p m s" and "phase s = Executing (Finished v)"
  shows "\<exists>s'. reply_turn v s = Some s' \<and> session_ok hash p m s'"
  using finished_within [OF assms] reply_messageI [OF finished_within(1) [OF assms]] assms by (auto simp: reply_turn_def send_Some session_ok_def)

lemma read_turn_ok:
  assumes "session_ok hash p m s"
  shows "\<exists>s'. read_turn event s = Some s'"
    "event_fits s event \<or> unat (message_limit s) \<le> length (buffer s) \<Longrightarrow> read_turn event s = Some s' \<Longrightarrow> session_ok hash p m s'"
proof -
  show "\<exists>s'. read_turn event s = Some s'"
    by (cases event) (auto simp: read_turn_def session_read_def send_Some)
  show "event_fits s event \<or> unat (message_limit s) \<le> length (buffer s) \<Longrightarrow> read_turn event s = Some s' \<Longrightarrow> session_ok hash p m s'"
    using assms reply_messageI [OF reply_consts_within(3)]
    by (cases event) (auto simp: read_turn_def session_read_def send_Some session_ok_def event_fits_def split: if_splits)
qed

lemma write_turn_ok: "session_ok hash p m s \<Longrightarrow> session_ok hash p m (write_turn close s)"
  by (simp add: session_ok_def write_turn_def)

lemma worker_at_less:
  assumes "pool_ok hash m p" and "worker_at i p = Some w"
  shows "i < pool_size p" "shard_ok hash (pool_size p) m i (shard w)"
proof -
  show less: "i < pool_size p"
    using assms pool_okD(1) [OF assms(1)] by (auto simp: worker_at_def word_less_nat_alt split: if_splits)
  show "shard_ok hash (pool_size p) m i (shard w)"
    using pool_okD(3,4) [OF assms(1) less] assms(2) by simp
qed

lemma shard_turn_ok:
  assumes pool: "pool_ok hash m p" and s: "session_ok hash p m s" and "phase s = Executing (OnShard i f)"
    and "worker_at i p = Some w" and "f clk (shard w) = Some (t, sh)"
  shows "i < pool_size p" "shard_ok hash (pool_size p) m i sh" "session_ok hash p m (s\<lparr>phase := Executing t\<rparr>)"
proof -
  note w = worker_at_less [OF pool assms(4)]
  have "task_ok (shard_ok hash (pool_size p) m) (pool_size p) (reply_within (reply_bound m s) 0) (OnShard i f)"
    using s assms(3) by (auto simp: session_ok_def)
  from task_ok_run(2) [OF this w(2) assms(5)] w(1) s
  show "i < pool_size p" "shard_ok hash (pool_size p) m i sh" "session_ok hash p m (s\<lparr>phase := Executing t\<rparr>)"
    by (simp_all add: session_ok_def)
qed

subsubsection \<open>What a step keeps\<close>

lemma server_okD:
  assumes "server_ok hash hw m r"
  shows "pool_ok hash m (run_pool r)"
    "j < length (run_sessions r) \<Longrightarrow> session_ok hash (run_pool r) m (run_sessions r ! j)"
    "i < length (workers (run_pool r)) \<Longrightarrow> worker_ok hw (run_main r) (workers (run_pool r) ! i)"
    "stopped (run_pool r) = (run_main r \<noteq> Main_Loop)" "length (wake_times r) = length (workers (run_pool r))"
  using assms by (simp_all add: server_ok_def)

lemma set_session_fields [simp]:
  "run_server (set_session j s r) = run_server r" "run_main (set_session j s r) = run_main r"
  "run_sessions (set_session j s r) = (run_sessions r)[j := s]" "wake_times (set_session j s r) = wake_times r"
  by (simp_all add: set_session_def)

lemma set_pool_fields [simp]:
  "run_pool (set_pool p r) = p" "run_main (set_pool p r) = run_main r" "run_sessions (set_pool p r) = run_sessions r"
  "wake_times (set_pool p r) = wake_times r" "server_max_message_size (run_server (set_pool p r)) = server_max_message_size (run_server r)"
  by (simp_all add: set_pool_def)

lemma set_worker_fields [simp]:
  "length (workers (set_worker i w p)) = length (workers p)" "pool_size (set_worker i w p) = pool_size p"
  "stopped (set_worker i w p) = stopped p" "workers (set_worker i w p) = (workers p)[i := w]"
  by (simp_all add: set_worker_def pool_size_def)

lemma server_ok_session:
  assumes "server_ok hash hw m r" and "session_ok hash (run_pool r) m s"
  shows "server_ok hash hw m (set_session j s r)"
  using assms by (auto simp: server_ok_def dest: set_update_subset_insert [THEN subsetD])

text \<open>A step that replaces the pool by one of the same size, and perhaps the phase of the main thread.\<close>

lemma server_ok_pool:
  assumes "server_ok hash hw m r" and "pool_ok hash m p" and "length (workers p) = length (workers (run_pool r))"
    and "stopped p = (main \<noteq> Main_Loop)" and "\<And>w. w \<in> set (workers p) \<Longrightarrow> worker_ok hw main w"
    and "length wakes = length (wake_times r)"
  shows "server_ok hash hw m (set_pool p (r\<lparr>wake_times := wakes, run_main := main\<rparr>))"
proof -
  have "session_ok hash p m s = session_ok hash (run_pool r) m s" for s
    using assms(3) by (intro session_ok_size) (simp add: pool_size_def)
  with assms show ?thesis by (simp add: server_ok_def)
qed

lemma pool_ok_same_shards:
  assumes "pool_ok hash m p" and "map shard (workers q) = map shard (workers p)"
  shows "pool_ok hash m q"
proof -
  have len: "length (workers q) = length (workers p)" using assms(2) by (metis length_map)
  have "shard (workers q ! i) = shard (workers p ! i)" if "i < length (workers p)" for i
    using assms(2) len that by (metis nth_map)
  with assms(1) len show ?thesis by (simp add: pool_ok_def pool_size_def)
qed

lemma worker_ok_shard [simp]: "worker_ok hw main (w\<lparr>shard := sh\<rparr>) = worker_ok hw main w"
  by (cases "worker_thread w") (simp_all add: worker_ok_def)

lemma server_ok_shard:
  assumes "server_ok hash hw m r" and "i < pool_size (run_pool r)" and "shard_ok hash (pool_size (run_pool r)) m i sh"
    and "length wakes = length (wake_times r)"
  shows "server_ok hash hw m (set_pool (put_shard i sh (run_pool r)) (r\<lparr>wake_times := wakes\<rparr>))"
proof -
  note ok = server_okD [OF assms(1)]
  let ?p = "put_shard i sh (run_pool r)"
  have i: "unat i < length (workers (run_pool r))"
    using assms(2) pool_okD(1) [OF ok(1)] by (simp add: word_less_nat_alt)
  have "worker_ok hw (run_main r) w" if "w \<in> set (workers ?p)" for w
  proof -
    from that have "w = (workers (run_pool r) ! unat i)\<lparr>shard := sh\<rparr> \<or> w \<in> set (workers (run_pool r))"
      by (auto simp: put_shard_def dest: set_update_subset_insert [THEN subsetD])
    then show ?thesis using ok(3) [OF i] assms(1) by (auto simp: server_ok_def)
  qed
  from server_ok_pool [OF assms(1) pool_ok_put_shard [OF ok(1) assms(2,3)] _ _ this assms(4)] ok(4)
  show ?thesis by simp
qed

lemma server_ok_worker:
  assumes "server_ok hash hw m r" and "i < length (workers (run_pool r))" and "worker_ok hw (run_main r) w"
    and "shard w = shard (workers (run_pool r) ! i)" and "length wakes = length (wake_times r)"
  shows "server_ok hash hw m (set_pool (set_worker i w (run_pool r)) (r\<lparr>wake_times := wakes\<rparr>))"
proof -
  note ok = server_okD [OF assms(1)]
  let ?p = "set_worker i w (run_pool r)"
  have "map shard (workers ?p) = map shard (workers (run_pool r))"
    using assms(2,4) by (simp add: map_update list_update_same_conv)
  then have pool: "pool_ok hash m ?p" by (rule pool_ok_same_shards [OF ok(1)])
  have "worker_ok hw (run_main r) w'" if "w' \<in> set (workers ?p)" for w'
    using that assms(1,3) by (auto simp: server_ok_def dest: set_update_subset_insert [THEN subsetD])
  from server_ok_pool [OF assms(1) pool _ _ this assms(5)] ok(4) show ?thesis by simp
qed

text \<open>The steps of starting and stopping.\<close>

lemma thread_begin_ok:
  "worker_ok hw main w \<Longrightarrow> worker_ok hw main (thread_begin hw aff i w)"
  by (auto simp: worker_ok_def thread_begin_defs worker_core_less split: std_thread.splits)

lemma thread_return_ok:
  "worker_ok hw main w \<Longrightarrow> worker_ok hw main (thread_return w)"
  by (auto simp: worker_ok_def thread_return_def split: std_thread.splits main_phase.splits)
    (use main_phase.exhaust in blast)+

lemma server_ok_signal:
  assumes "server_ok hash hw m r" and "run_main r = Main_Loop"
  shows "server_ok hash hw m (set_pool (stop_loops (run_pool r)) (r\<lparr>run_main := Main_Joining\<rparr>))"
proof -
  let ?p = "stop_loops (run_pool r)"
  have "map shard (workers ?p) = map shard (workers (run_pool r))" by (simp add: stop_loops_def)
  then have pool: "pool_ok hash m ?p" by (rule pool_ok_same_shards [OF server_okD(1) [OF assms(1)]])
  have "worker_ok hw Main_Joining w'" if "w' \<in> set (workers ?p)" for w'
    using that assms by (auto simp: stop_loops_def server_ok_def worker_ok_def split: std_thread.splits)
  from server_ok_pool [OF assms(1) pool _ _ this, of "wake_times r"] show ?thesis by (simp add: stop_loops_def)
qed

lemma server_ok_join:
  assumes "server_ok hash hw m r" and "run_main r = Main_Joining" and "join_threads (run_pool r) = Some p"
  shows "server_ok hash hw m (set_pool p (r\<lparr>run_main := Main_Returned\<rparr>))" "pool_stop hw p = Some p"
    "\<forall>w \<in> set (workers p). worker_thread w = NoThread"
proof -
  note ok = server_okD [OF assms(1)]
  have ws: "list_all2 (\<lambda>w w'. w' = w\<lparr>worker_thread := NoThread\<rparr>) (workers (run_pool r)) (workers p)"
    using join_threadsD(2) [OF assms(3)] by (auto elim: list_all2_mono dest: join_thread_SomeD)
  then have "workers p = map (\<lambda>w. w\<lparr>worker_thread := NoThread\<rparr>) (workers (run_pool r))"
    by (simp add: list_all2_conv_all_nth list_eq_iff_nth_eq)
  then have p: "p = (run_pool r)\<lparr>workers := map (\<lambda>w. w\<lparr>worker_thread := NoThread\<rparr>) (workers (run_pool r))\<rparr>"
    using join_threadsD(1) [OF assms(3)] by simp
  have pool: "pool_ok hash m p" by (rule pool_ok_same_shards [OF ok(1)]) (simp add: p)
  have "worker_ok hw Main_Returned w'" if "w' \<in> set (workers p)" for w'
    using that assms(1,2) by (auto simp: p server_ok_def worker_ok_def)
  from server_ok_pool [OF assms(1) pool _ _ this, of "wake_times r"] ok(4) assms(2)
  show "server_ok hash hw m (set_pool p (r\<lparr>run_main := Main_Returned\<rparr>))" by (simp add: p)
  show "pool_stop hw p = Some p" using ok(4) assms(2) by (simp add: pool_stop_def p)
  show "\<forall>w \<in> set (workers p). worker_thread w = NoThread" by (simp add: p)
qed

lemma server_ok_listener:
  assumes "server_ok hash hw m r" and "listener_turn (run_server r) = (home, srv)"
  shows "server_ok hash hw m (r\<lparr>run_server := srv\<rparr>)" "shard_pool srv = run_pool r"
    "session_ok hash (run_pool r) m (new_session (run_pool r) home (server_max_message_size srv))"
proof -
  note ok = server_okD [OF assms(1)]
  have home: "home = next_shard (run_server r) mod pool_size (run_pool r)"
    and srv: "srv = (run_server r)\<lparr>next_shard := next_shard (run_server r) + 1\<rparr>"
    using assms(2) by (auto simp: listener_turn_def)
  show "server_ok hash hw m (r\<lparr>run_server := srv\<rparr>)" "shard_pool srv = run_pool r"
    using assms(1) by (simp_all add: srv server_ok_def)
  have "home < pool_size (run_pool r)"
    using pool_okD(2) [OF ok(1)] by (simp add: home word_less_nat_alt unat_mod unat_gt_0)
  then show "session_ok hash (run_pool r) m (new_session (run_pool r) home (server_max_message_size srv))"
    using assms(1) by (simp add: srv server_ok_def session_ok_def new_session_def)
qed

lemma server_ok_closure:
  assumes ok: "server_ok hash hw m r" and "session_ok hash (run_pool r) m s" and "phase s = Executing (OnShard i f)"
    and "worker_at i (run_pool r) = Some w" and "f clk (shard w) = Some (t, sh)"
  shows "server_ok hash hw m (set_pool (put_shard i sh (run_pool r)) (set_session j (s\<lparr>phase := Executing t\<rparr>) r))"
proof -
  note turn = shard_turn_ok [OF server_okD(1) [OF ok] assms(2-5)]
  have "server_ok hash hw m (set_session j (s\<lparr>phase := Executing t\<rparr>) r)" by (rule server_ok_session [OF ok turn(3)])
  from server_ok_shard [OF this, of i sh "wake_times r"] turn(1,2) show ?thesis by (simp add: set_session_def)
qed

lemma server_ok_cleaning:
  assumes ok: "server_ok hash hw m r" and "worker_at i (run_pool r) = Some w" and "cleaning_turn clk (shard w) = Some (wake, sh)"
  shows "server_ok hash hw m (set_pool (put_shard i sh (run_pool r)) (r\<lparr>wake_times := (wake_times r)[unat i := wake]\<rparr>))"
proof -
  note w = worker_at_less [OF server_okD(1) [OF ok] assms(2)]
  have "shard_ok hash (pool_size (run_pool r)) m i sh"
    using cleaning_turn_ok [of hash "pool_size (run_pool r)" m i] w(2) assms(3)
    unfolding fn_ok_def by (metis Pair_inject option.inject)
  from server_ok_shard [OF ok w(1) this] show ?thesis by simp
qed

lemma server_step_ok:
  assumes "server_step hash hw r a r'" and ok: "server_ok hash hw m r"
  shows "server_ok hash hw m r'"
  using assms(1)
proof cases
  case (step_request j s th s')
  with request_turn_ok [OF server_okD(1,2) [OF ok], of j th] show ?thesis
    by (auto intro: server_ok_session [OF ok])
next
  case (step_reply j s v th s')
  with reply_turn_ok [OF server_okD(2) [OF ok], of j v] show ?thesis by (auto intro: server_ok_session [OF ok])
next
  case (step_write j s close th)
  with write_turn_ok [OF server_okD(2) [OF ok], of j close] show ?thesis by (auto intro: server_ok_session [OF ok])
next
  case (step_full j s th event s')
  with read_turn_ok(2) [OF server_okD(2) [OF ok], of j event s'] show ?thesis by (auto intro: server_ok_session [OF ok])
next
  case (step_read j s th event s')
  with read_turn_ok(2) [OF server_okD(2) [OF ok], of j event s'] show ?thesis by (auto intro: server_ok_session [OF ok])
next
  case (step_shard j s i f th w clk t sh)
  then have "session_ok hash (run_pool r) m s" using server_okD(2) [OF ok] by auto
  with server_ok_closure [OF ok _ step_shard(5,7,8)] step_shard(2) show ?thesis by blast
next
  case (step_clean i th w clk wake sh)
  with server_ok_cleaning [OF ok step_clean(4,7)] show ?thesis by blast
next
  case (step_thread_begin i w t now)
  then have "worker_ok hw (run_main r) w" using server_okD(3) [OF ok] by blast
  from server_ok_worker [OF ok step_thread_begin(3) thread_begin_ok [OF this]] step_thread_begin(2,4) show ?thesis by simp
next
  case (step_thread_return i w t)
  then have "worker_ok hw (run_main r) w" using server_okD(3) [OF ok] by blast
  from server_ok_worker [OF ok step_thread_return(3) thread_return_ok [OF this], of "wake_times r"] step_thread_return(2,4)
  show ?thesis by simp
next
  case (step_accept home srv)
  note turn = server_ok_listener [OF ok step_accept(4)]
  from turn show ?thesis by (simp add: step_accept(2) server_ok_def)
next
  case (step_accept_error home srv)
  with server_ok_listener(1) [OF ok] show ?thesis by blast
next
  case step_signal
  with server_ok_signal [OF ok] show ?thesis by blast
next
  case (step_join p p')
  with server_ok_join [OF ok step_join(3,4)] show ?thesis by simp
qed

interpretation server: invariant_system "server_step hash hw" "server_ok hash hw m" for hash hw m
  by unfold_locales (rule server_step_ok)

lemma reachable_ok: "reachable hash hw r0 r \<Longrightarrow> server_ok hash hw m r0 \<Longrightarrow> server_ok hash hw m r"
  by (induction rule: reachable.induct) (auto intro: server_step_ok)

lemma server_ok_defined:
  assumes "server_ok hash hw m r"
  shows "server_defined hash r"
proof -
  note pool = server_okD(1) [OF assms]
  have "session_defined hash (run_pool r) s" if "s \<in> set (run_sessions r)" for s
  proof -
    have s: "session_ok hash (run_pool r) m s" using assms that by (simp add: server_ok_def)
    have "\<exists>w. worker_at i (run_pool r) = Some w \<and> (\<forall>clk. f clk (shard w) \<noteq> None)" if "phase s = Executing (OnShard i f)" for i f
    proof -
      have "task_ok (shard_ok hash (pool_size (run_pool r)) m) (pool_size (run_pool r)) (reply_within (reply_bound m s) 0) (OnShard i f)"
        using s that by (simp add: session_ok_def)
      then show ?thesis
        using pool_okD(3,4) [OF pool, of i] task_ok_run(1) by (metis option.distinct(1) task_ok_OnShard)
    qed
    moreover have "\<exists>s'. request_turn hash th (run_pool r) s = Some s'" for th
      using request_turn_ok [OF pool s] by blast
    ultimately show ?thesis
      using reply_turn_ok [OF s] read_turn_ok(1) [OF s]
      by (auto simp: session_defined_def split: phase.splits task.splits)
  qed
  moreover have "cleaning_turn clk (shard w) \<noteq> None" if w: "w \<in> set (workers (run_pool r))" for w clk
  proof -
    obtain j where "shard_ok hash (pool_size (run_pool r)) m (of_nat j) (shard w)"
      using w pool by (auto simp: pool_ok_def in_set_conv_nth)
    then show ?thesis using cleaning_turn_ok unfolding fn_ok_def by fastforce
  qed
  ultimately show ?thesis by (simp add: server_defined_def)
qed

lemma run_server_start_ok:
  "server_ok hash hw (cfg_max_memory_bytes_per_shard (get_config tm)) (run_server_start nt (new_server (get_config tm)))"
proof -
  let ?m = "cfg_max_memory_bytes_per_shard (get_config tm)" and ?limit = "cfg_max_message_size (get_config tm)"
  let ?p = "new_pool (ucast (cfg_shard_count (get_config tm))) ?m (cfg_thread_affinity_enabled (get_config tm))"
  have limit: "session_limit ?limit = ?limit" using config_sizes(1) [of tm] by (auto simp: session_limit_def)
  have "\<not> stopped ?p \<and> \<not> started ?p" by (simp add: new_pool_def)
  moreover have "worker_ok hw Main_Loop w" if "w \<in> set (workers (pool_start nt ?p))" for w
    using that by (auto simp: pool_start_def new_pool_def new_worker_def worker_ok_def in_set_enumerate_eq)
  moreover have "pool_ok hash ?m (pool_start nt ?p)" by (intro pool_start_ok new_pool_ok)
  ultimately show ?thesis
    using config_sizes [of tm] by (simp add: server_ok_def run_server_start_def Let_def new_server_def limit) (simp add: pool_start_def)
qed

lemma program_start_ok:
  "program_start net nt tm = Some r \<Longrightarrow> server_ok hash hw (cfg_max_memory_bytes_per_shard (get_config tm)) r"
  using run_server_start_ok by (auto simp: program_start_def construct_server_def split: if_splits)

text \<open>A small server for examples: the default configuration, one shard whose thread runs, and a session
  with some bytes in its buffer.\<close>

definition no_settings :: toml where
  "no_settings = \<lparr>toml_string = \<lambda>_ _. None, toml_int = \<lambda>_ _. None, toml_bool = \<lambda>_ _. None\<rparr>"

definition sample_server :: "bytes \<Rightarrow> Running" where
  "sample_server b =
     (let p = run_threads 1 (pool_start (\<lambda>i. i) (new_pool 1 1024 False)) in
      \<lparr>run_server = \<lparr>shard_pool = p, server_max_message_size = 64, next_shard = 1\<rparr>,
       run_sessions = [(new_session p 0 64)\<lparr>buffer := b\<rparr>], wake_times = [0], run_main = Main_Loop\<rparr>)"

lemma sample_pool: "run_pool (sample_server b) =
  \<lparr>workers = [(new_worker 1024)\<lparr>worker_thread := InLoop 0, thread_id := Some 0\<rparr>],
   thread_affinity_enabled = False, started = True, stopped = False\<rparr>"
  by (simp add: sample_server_def new_pool_def run_threads_def pool_start_def thread_begin_defs thread_return_def
      new_worker_def Let_def)

lemma sample_server_ok:
  assumes "length b \<le> 64"
  shows "server_ok hash hw 1024 (sample_server b)"
proof -
  have "pool_ok hash 1024 (run_pool (sample_server b))"
    by (simp add: sample_server_def Let_def run_threads_ok pool_start_ok new_pool_ok)
  moreover have "session_ok hash (run_pool (sample_server b)) 1024 s" if "s \<in> set (run_sessions (sample_server b))" for s
    using that assms unfolding session_ok_def sample_pool
    by (simp add: pool_size_def) (simp add: sample_server_def Let_def new_session_def session_limit_def new_executor_size pool_size_def new_executor_def
        new_pool_def)
  moreover have "run_main (sample_server b) = Main_Loop" "wake_times (sample_server b) = [0]"
      "server_max_message_size (run_server (sample_server b)) = 64"
    by (simp_all add: sample_server_def Let_def)
  ultimately show ?thesis
    by (simp add: server_ok_def sample_pool worker_ok_def new_worker_def session_limit_def)
qed

subsection \<open>Properties\<close>

text \<open>C1: The running server is safe under every interleaving. Whatever the configuration file, the hash
  function, the number of cores, the bytes clients send, the order in which sessions, workers,
  cleaning loops, listener, signal and shutdown go on and the clock readings: the invariant holds
  (every shard is well formed, within its budget and holds only keys routed to it, every session
  stays within its message limit, every suspended command is safe to resume, threads are pinned to
  existing cores, are running until the signal and joined at the end), and no party can run into
  undefined behaviour, an uncaught exception or an endless loop, with one exception: the signed
  arithmetic of a deadline, where a client can make it overflow. There the model goes on with the
  wrapped value (\<open>deadline\<close> in \<open>Lru_Shard\<close>), so this theorem says that nothing else goes wrong afterwards, whatever
  deadlines are stored; \<open>deadline_overflow\<close> below says exactly which requests overflow.\<close>

theorem server_safe:
  assumes "program_start net nt tm = Some r0" and "reachable hash hw r0 r"
  shows "server_ok hash hw (cfg_max_memory_bytes_per_shard (get_config tm)) r \<and> server_defined hash r"
  using reachable_ok [OF assms(2) program_start_ok [OF assms(1)]] server_ok_defined by blast

theorem server_safe_witness:
  "\<exists>r0 home srv r. program_start \<lparr>is_address = \<lambda>h. h = ''0.0.0.0'', can_listen = \<lambda>h p. 1024 \<le> p\<rparr> (\<lambda>i. i) no_settings = Some r0 \<and>
    listener_turn (run_server r0) = (home, srv) \<and>
    r = r0\<lparr>run_server := srv, run_sessions := [new_session (shard_pool srv) home (server_max_message_size srv)]\<rparr> \<and>
    server_ok (\<lambda>k. of_nat (length k)) 8 (cfg_max_memory_bytes_per_shard (get_config no_settings)) r \<and>
    server_defined (\<lambda>k. of_nat (length k)) r"
proof -
  let ?net = "\<lparr>is_address = \<lambda>h. h = ''0.0.0.0'', can_listen = \<lambda>h p. (1024 :: uint16) \<le> p\<rparr>"
  let ?r = "run_server_start (\<lambda>i. i) (new_server (get_config no_settings))"
  have start: "program_start ?net (\<lambda>i. i) no_settings = Some ?r"
    by (simp add: program_start_def construct_server_def get_config_def no_settings_def value_or_def Let_def)
  obtain home srv where turn: "listener_turn (run_server ?r) = (home, srv)" by fastforce
  have init: "run_sessions ?r = []" "run_main ?r = Main_Loop" by (simp_all add: run_server_start_def Let_def)
  then have "reachable (\<lambda>k. of_nat (length k)) 8 ?r
      (?r\<lparr>run_server := srv, run_sessions := [new_session (shard_pool srv) home (server_max_message_size srv)]\<rparr>)"
    using reachable_step [OF reachable_start step_accept [OF init(2) turn]] by simp
  from server_safe [OF start this] start turn show ?thesis by blast
qed

text \<open>C6: Memory. In every state the program can reach, under every interleaving, the byte counter of each
  shard is exactly the size of the keys and values it holds, that is within the configured budget,
  no shard stores a key twice, and no key is stored in two shards.\<close>

theorem memory_bounded:
  assumes "program_start net nt tm = Some r0" and "reachable hash hw r0 r" and "i < length (workers (run_pool r))"
  shows "unat (used_payload_bytes (shard (workers (run_pool r) ! i))) = payload (entries (shard (workers (run_pool r) ! i))) \<and>
    payload (entries (shard (workers (run_pool r) ! i))) \<le> unat (cfg_max_memory_bytes_per_shard (get_config tm)) \<and>
    distinct (map fst (entries (shard (workers (run_pool r) ! i)))) \<and>
    (\<forall>j < length (workers (run_pool r)). j \<noteq> i \<longrightarrow>
      entry_keys (entries (shard (workers (run_pool r) ! i))) \<inter> entry_keys (entries (shard (workers (run_pool r) ! j))) = {})"
proof -
  let ?m = "cfg_max_memory_bytes_per_shard (get_config tm)" and ?p = "run_pool r"
  have pool: "pool_ok hash ?m ?p" using server_okD(1) [OF reachable_ok [OF assms(2) program_start_ok [OF assms(1)]]] .
  then have sh: "\<And>j. j < length (workers ?p) \<Longrightarrow> shard_ok hash (pool_size ?p) ?m (of_nat j) (shard (workers ?p ! j))"
    by (simp add: pool_ok_def)
  have wf: "wf_shard (shard (workers ?p ! i))" "max_memory_bytes (shard (workers ?p ! i)) = ?m"
    using sh [OF assms(3)] by (simp_all add: shard_ok_def)
  have same: "j = k" if "x \<in> entry_keys (entries (shard (workers ?p ! j)))" "x \<in> entry_keys (entries (shard (workers ?p ! k)))"
    "j < length (workers ?p)" "k < length (workers ?p)" for x j k
  proof -
    have "getShardIndex hash x (pool_size ?p) = Some (of_nat j)" "getShardIndex hash x (pool_size ?p) = Some (of_nat k)"
      using sh [OF that(3)] sh [OF that(4)] that(1,2) unfolding shard_ok_keys entry_keys_def by blast+
    then have "(of_nat j :: size_t) = of_nat k" by simp
    moreover have "length (workers ?p) < 2 ^ 64" using pool by (simp add: pool_ok_def)
    ultimately show ?thesis using that(3,4) unat64_of_nat [of j] unat64_of_nat [of k] by (metis order.strict_trans)
  qed
  have "distinct (map fst (entries (shard (workers ?p ! i))))"
    using wf_shardD(1) [OF wf(1)] by (intro entries_keys_distinct) (simp_all add: wf_core_def)
  then show ?thesis using used_bytes_exact [OF wf(1)] wf_shardD(2) [OF wf(1)] wf(2) same assms(3) by auto
qed

theorem memory_bounded_witness:
  "\<exists>r. program_start \<lparr>is_address = \<lambda>h. h = ''0.0.0.0'', can_listen = \<lambda>h p. 1024 \<le> p\<rparr> (\<lambda>i. i) no_settings = Some r \<and>
    payload (entries (shard (workers (run_pool r) ! 0))) \<le> unat (cfg_max_memory_bytes_per_shard (get_config no_settings))"
proof -
  let ?net = "\<lparr>is_address = \<lambda>h. h = ''0.0.0.0'', can_listen = \<lambda>h p. (1024 :: uint16) \<le> p\<rparr>"
  let ?r = "run_server_start (\<lambda>i. i) (new_server (get_config no_settings))"
  have start: "program_start ?net (\<lambda>i. i) no_settings = Some ?r"
    by (simp add: program_start_def construct_server_def get_config_def no_settings_def value_or_def Let_def)
  have "0 < length (workers (run_pool ?r))"
    using server_okD(1) [OF program_start_ok [OF start]] by (simp add: pool_ok_def)
  from memory_bounded [OF start reachable_start this] start show ?thesis by blast
qed

text \<open>Commands on one key are atomic. When a session of the running server starts such a command, the
  command waits with a single closure for the shard of its key, and running this closure, whenever
  that happens, gives the reply and the effect of the abstract cache on the state found then.\<close>

theorem keyed_command_atomic:
  assumes "server_ok hash hw m r" and "s \<in> set (run_sessions r)"
    and "next_request (buffer s) = Some (ExecuteRequest cmd b)" and "keyed cmd"
  shows "\<exists>i f. getShardIndex hash (hd (cmd_args cmd)) (pool_size (run_pool r)) = Some i \<and>
    request_turn hash th (run_pool r) s = Some (s\<lparr>buffer := b, phase := Executing (OnShard i f)\<rparr>) \<and>
    (\<forall>clk sh. shard_ok hash (pool_size (run_pool r)) m i sh \<longrightarrow>
      (\<exists>sh'. f clk sh = Some (Finished (fst (spec_keyed (unat m) cmd clk (entries sh))), sh') \<and>
        shard_ok hash (pool_size (run_pool r)) m i sh' \<and>
        entries sh' = snd (spec_keyed (unat m) cmd clk (entries sh))))"
proof -
  have pool: "pool_ok hash m (run_pool r)" and s: "session_ok hash (run_pool r) m s"
    using assms(1,2) by (simp_all add: server_ok_def)
  have cmd: "valid_command cmd" "cmd_fits m cmd"
    using assms(3) session_okD(2) [OF s] by (cases rule: next_request_cases [of "buffer s"]; simp)+
  have "home_ok (run_pool r) (Some (home_shard s))" using session_okD(1) [OF s] by (simp add: home_ok_def)
  from execute_keyed [OF pool assms(4) cmd(1) this, of th] obtain i where
    i: "getShardIndex hash (hd (cmd_args cmd)) (pool_size (run_pool r)) = Some i"
      "execute hash th (run_pool r) cmd (Some (home_shard s)) = Some (run_on_shard i (keyed_fn cmd) Finished)" by blast
  let ?f = "\<lambda>clk s. map_option (\<lambda>(r, s'). (Finished r, s')) (keyed_fn cmd clk s)"
  have "request_turn hash th (run_pool r) s = Some (s\<lparr>buffer := b, phase := Executing (OnShard i ?f)\<rparr>)"
    using assms(3) i(2) session_okD(4) [OF s] by (simp add: request_turn_def run_on_shard_def)
  moreover have "\<exists>sh'. ?f clk sh = Some (Finished (fst (spec_keyed (unat m) cmd clk (entries sh))), sh') \<and>
      shard_ok hash (pool_size (run_pool r)) m i sh' \<and> entries sh' = snd (spec_keyed (unat m) cmd clk (entries sh))"
    if "shard_ok hash (pool_size (run_pool r)) m i sh" for clk sh
    using keyed_fn_refines [OF that assms(4) cmd i(1), of clk] by auto
  ultimately show ?thesis using i(1) by blast
qed

theorem keyed_command_atomic_witness:
  "let r = sample_server (serialize_rec (ArrayValue [BulkString ''GET'', BulkString ''k''])); s = run_sessions r ! 0
   in \<exists>i f. request_turn (\<lambda>k. 0) 0 (run_pool r) s = Some (s\<lparr>buffer := [], phase := Executing (OnShard i f)\<rparr>)"
proof -
  let ?v = "ArrayValue [BulkString ''GET'', BulkString ''k'']"
  let ?cmd = "\<lparr>cmd_type = Cmd_kGet, cmd_args = [''k'']\<rparr>"
  let ?r = "sample_server (serialize_rec ?v)"
  have len: "length (serialize_rec ?v) = 20" by code_simp
  have up: "to_uppercase ''GET'' = ''GET''" by code_simp
  have "encodable 0 ?v" by (simp add: resp_limits)
  then have "parseImpl (serialize_rec ?v) = Ready (length (serialize_rec ?v)) ?v" by (rule resp_codec.decode_encode)
  moreover have "toCommand ?v = Some (Some ?cmd)"
    by (subst toCommand_array) (auto simp: request_def is_string_type_def up determineCommandType_def valid_command_def)
  ultimately have "next_request (serialize_rec ?v) = Some (ExecuteRequest ?cmd [])"
    by (simp add: next_request_eq(3))
  then have req: "next_request (buffer (run_sessions ?r ! 0)) = Some (ExecuteRequest ?cmd [])"
    by (simp add: sample_server_def Let_def)
  have "server_ok (\<lambda>k. 0) 1 1024 ?r" using sample_server_ok len by simp
  from keyed_command_atomic [OF this _ req, of 0] show ?thesis
    by (simp add: keyed_def) (simp add: sample_server_def Let_def, blast)
qed



end
