(* ===== verification/Server_Liveness.thy ===== *)
theory Server_Liveness
  imports Concurrent_Server "HOL-Library.Multiset"
begin

section \<open>The running server answers and comes to rest\<close>

text \<open>
  Progress of the step relation of \<open>Concurrent_Server\<close>. The steps a server makes by itself are those
  of sessions, with the completion of their writes (that is, clients take their replies or go away),
  of starting and ending threads and of the main thread that waits for them; received bytes,
  timers, accepts and signals come from outside. Every step of a session goes down in a
  well-founded order: the buffer shrinks, or the suspended command has fewer stops left, or the
  session gets closer to waiting for its socket. So a server left to itself comes to rest, and when
  it does, \<open>outcome\<close> holds for every session: each complete request in its buffer has been answered,
  exactly once and in order, the i-th reply being one that the executor gives to the i-th request.

  With events from outside in between, a session that is scheduled fairly gets there as well:
  other parties neither touch its state nor stop it from going on.
\<close>

subsection \<open>The turns of one session\<close>

text \<open>A closure runs on a shard that is \<open>ok\<close>.\<close>

inductive own_turn :: "(bytes \<Rightarrow> uint64) \<Rightarrow> (size_t \<Rightarrow> LruShard \<Rightarrow> bool) \<Rightarrow> ShardPool \<Rightarrow> Session \<Rightarrow> Session \<Rightarrow> bool"
  for hash ok p where
  own_request: "phase s = Parsing \<Longrightarrow> request_turn hash th p s = Some s' \<Longrightarrow> own_turn hash ok p s s'"
| own_reply: "phase s = Executing (Finished v) \<Longrightarrow> reply_turn v s = Some s' \<Longrightarrow> own_turn hash ok p s s'"
| own_write: "phase s = Writing close \<Longrightarrow> own_turn hash ok p s (write_turn close s)"
| own_shard: "phase s = Executing (OnShard i f) \<Longrightarrow> ok i sh \<Longrightarrow> f clk sh = Some (t, sh') \<Longrightarrow>
    own_turn hash ok p s (s\<lparr>phase := Executing t\<rparr>)"
| own_full: "phase s = Reading \<Longrightarrow> unat (message_limit s) \<le> length (buffer s) \<Longrightarrow> read_turn event s = Some s' \<Longrightarrow>
    own_turn hash ok p s s'"

text \<open>The actors that are a session's own: it goes on, or its write completes.\<close>

definition own :: "nat \<Rightarrow> actor \<Rightarrow> bool" where
  "own j a \<longleftrightarrow> a = Act_session j \<or> a = Act_write j"

lemma session_step_turn:
  assumes "server_step hash hw r a r'" and "own j a" and "\<And>i w. worker_at i (run_pool r) = Some w \<Longrightarrow> ok i (shard w)"
  shows "j < length (run_sessions r)"
    "\<exists>s'. own_turn hash ok (run_pool r) (run_sessions r ! j) s' \<and> run_sessions r' = (run_sessions r)[j := s']"
proof -
  have "j < length (run_sessions r) \<and>
    (\<exists>s'. own_turn hash ok (run_pool r) (run_sessions r ! j) s' \<and> run_sessions r' = (run_sessions r)[j := s'])"
    using assms(1,2)
  proof cases
    case (step_shard j' s i f th w clk t sh)
    then show ?thesis
      using own_shard [of "run_sessions r ! j" i f ok "shard w" clk t sh hash "run_pool r"] assms(2) assms(3) [of i w] by (auto simp: own_def)
  qed (auto simp: own_def intro: own_turn.intros)
  then show "j < length (run_sessions r)"
    "\<exists>s'. own_turn hash ok (run_pool r) (run_sessions r ! j) s' \<and> run_sessions r' = (run_sessions r)[j := s']" by blast+
qed

abbreviation pool_shards :: "(bytes \<Rightarrow> uint64) \<Rightarrow> size_t \<Rightarrow> ShardPool \<Rightarrow> size_t \<Rightarrow> LruShard \<Rightarrow> bool" where
  "pool_shards hash m p \<equiv> shard_ok hash (pool_size p) m"

lemma session_step_ok_turn:
  assumes "server_step hash hw r a r'" and "own j a" and "server_ok hash hw m r"
  shows "\<exists>s'. own_turn hash (pool_shards hash m (run_pool r)) (run_pool r) (run_sessions r ! j) s' \<and>
    run_sessions r' = (run_sessions r)[j := s']"
  by (rule session_step_turn(2) [OF assms(1,2)]) (rule worker_at_less(2) [OF server_okD(1) [OF assms(3)]])

text \<open>Nobody else touches a session that is not waiting for its socket.\<close>

lemma other_steps:
  assumes "server_step hash hw r a r'" and "j < length (run_sessions r)" and "\<not> own j a" and "a \<noteq> Act_socket j"
  shows "run_sessions r' ! j = run_sessions r ! j"
  using assms by (cases rule: server_step.cases) (auto simp: own_def nth_append)

lemma sessions_grow: "server_step hash hw r a r' \<Longrightarrow> length (run_sessions r) \<le> length (run_sessions r')"
  by (cases rule: server_step.cases) auto

lemma socket_step_reading:
  "server_step hash hw r (Act_socket j) r' \<Longrightarrow>
    phase (run_sessions r ! j) = Reading \<and> length (buffer (run_sessions r ! j)) < unat (message_limit (run_sessions r ! j))"
  by (cases rule: server_step.cases) auto

subsection \<open>Every turn goes down\<close>

fun phase_rank :: "phase \<Rightarrow> nat \<times> RespValue task" where
  "phase_rank (Executing t) = (5, t)"
| "phase_rank (Writing close) = (if close then 1 else 4, Finished default_value)"
| "phase_rank Parsing = (3, Finished default_value)"
| "phase_rank Reading = (2, Finished default_value)"
| "phase_rank Closed = (0, Finished default_value)"

definition session_less :: "(Session \<times> Session) set" where
  "session_less = inv_image (less_than <*lex*> less_than <*lex*> task_less) (\<lambda>s. (length (buffer s), phase_rank (phase s)))"

lemma wf_session_less: "wf session_less"
  unfolding session_less_def by (intro wf_inv_image wf_lex_prod wf_less_than wf_task_less)

lemma session_lessI:
  "length (buffer s') < length (buffer s) \<Longrightarrow> (s', s) \<in> session_less"
  "buffer s' = buffer s \<Longrightarrow> (phase_rank (phase s'), phase_rank (phase s)) \<in> less_than <*lex*> task_less \<Longrightarrow>
    (s', s) \<in> session_less"
  by (auto simp: session_less_def)

lemma send_fields:
  assumes "send v close s = Some s'"
  shows "\<exists>message. s' = s\<lparr>sent := sent s @ [message], phase := Writing close\<rparr>"
  using assms by (auto simp: send_def)

lemma own_turn_less:
  assumes "own_turn hash ok p s s'"
  shows "(s', s) \<in> session_less"
  using assms
proof cases
  case (own_request th)
  from own_request(2) obtain st where st: "next_request (buffer s) = Some st" by (auto simp: request_turn_def split: option.splits)
  have same: "st = AwaitData b \<or> st = RejectStream b \<Longrightarrow> b = buffer s" for b
    using st by (cases rule: next_request_cases [of "buffer s"]) auto
  show ?thesis
  proof (cases st)
    case (AwaitData b)
    with same [of b] own_request st show ?thesis by (auto simp: request_turn_def intro!: session_lessI(2))
  next
    case (RejectStream b)
    with same [of b] own_request st show ?thesis
      by (auto simp: request_turn_def dest!: send_fields intro!: session_lessI(2))
  next
    case (RejectRequest b)
    then show ?thesis
      using own_request st next_request_shrinks(1) [of "buffer s" b]
      by (auto simp: request_turn_def dest!: send_fields intro!: session_lessI(1))
  next
    case (ExecuteRequest cmd b)
    then show ?thesis
      using own_request st next_request_shrinks(2) [of "buffer s" cmd b]
      by (auto simp: request_turn_def intro!: session_lessI(1))
  qed
next
  case (own_reply v)
  then show ?thesis by (auto simp: reply_turn_def dest!: send_fields intro!: session_lessI(2))
next
  case (own_write close)
  then show ?thesis by (auto simp: write_turn_def intro!: session_lessI(2))
next
  case (own_shard i f clk sh t sh')
  then show ?thesis by (auto intro!: session_lessI(2) intro: task_lessI)
next
  case (own_full event)
  then show ?thesis by (auto simp: read_turn_def session_read_def dest!: send_fields intro!: session_lessI(2))
qed

subsection \<open>What a session owes\<close>

text \<open>A session is settled when it is closed or waits for its socket with room in the buffer.\<close>

definition settled :: "Session \<Rightarrow> bool" where
  "settled s \<longleftrightarrow> phase s = Closed \<or> phase s = Reading \<and> length (buffer s) < unat (message_limit s)"

fun ending :: "phase \<Rightarrow> bool" where
  "ending (Writing close) = close"
| "ending ph = (ph = Closed)"

text \<open>The replies a suspended command can end with: each of its closures runs on some shard that is \<open>ok\<close> for
  it, at some time. \<open>completes\<close> are the replies a session in some phase still owes for the command it is executing, and
  \<open>answers\<close> the replies to a value a client sent, as \<open>Session::run\<close> and the executor give them. \<open>n\<close> is the number of shards.\<close>

inductive task_result :: "(size_t \<Rightarrow> LruShard \<Rightarrow> bool) \<Rightarrow> RespValue task \<Rightarrow> RespValue \<Rightarrow> bool" for ok where
  result_finished: "task_result ok (Finished v) v"
| result_shard: "ok i sh \<Longrightarrow> f clk sh = Some (t, sh') \<Longrightarrow> task_result ok t v \<Longrightarrow> task_result ok (OnShard i f) v"

inductive_cases task_result_FinishedE: "task_result ok (Finished v) r"

fun completes :: "(size_t \<Rightarrow> LruShard \<Rightarrow> bool) \<Rightarrow> phase \<Rightarrow> RespValue list \<Rightarrow> bool" where
  "completes ok (Executing t) rs = (\<exists>r. rs = [r] \<and> task_result ok t r)"
| "completes ok _ rs = (rs = [])"

definition answers :: "(bytes \<Rightarrow> uint64) \<Rightarrow> size_t \<Rightarrow> size_t \<Rightarrow> size_t \<Rightarrow> RespValue \<Rightarrow> RespValue \<Rightarrow> bool" where
  "answers hash n m home v r \<longleftrightarrow>
     (case toCommand v of
        None \<Rightarrow> False
      | Some None \<Rightarrow> r = invalid_reply
      | Some (Some cmd) \<Rightarrow>
          \<exists>th p t. pool_ok hash m p \<and> pool_size p = n \<and> execute hash th p cmd (Some home) = Some t \<and>
            task_result (shard_ok hash n m) t r)"

text \<open>\<open>outcome s s'\<close>: the messages sent between \<open>s\<close> and the settled \<open>s'\<close> are the reply of the command being
  executed, if any, then one reply per value that the buffer of \<open>s\<close> holds, in their order and each an answer to its
  value, and an error message if the session had to be closed; what is left in the buffer is what
  follows the last value.\<close>

definition outcome :: "(bytes \<Rightarrow> uint64) \<Rightarrow> size_t \<Rightarrow> size_t \<Rightarrow> Session \<Rightarrow> Session \<Rightarrow> bool" where
  "outcome hash n m s s' \<longleftrightarrow>
     (if ending (phase s) then s' = s\<lparr>phase := Closed\<rparr>
      else message_limit s' = message_limit s \<and>
       (\<exists>vs bad first rs. resp.drains (buffer s) vs (buffer s') bad \<and>
        completes (shard_ok hash n m) (phase s) first \<and> list_all2 (answers hash n m (home_shard s)) vs rs \<and>
        list_all well_typed (first @ rs) \<and>
        sent s' = sent s @ map serialize_rec (first @ rs @ last_message (message_limit s) (buffer s') bad) \<and>
        phase s' = (if last_message (message_limit s) (buffer s') bad = [] then Reading else Closed)))"

lemma outcomeI:
  assumes "\<not> ending (phase s)" and "message_limit s' = message_limit s" and "resp.drains (buffer s) vs (buffer s') bad"
    and "completes (shard_ok hash n m) (phase s) first" and "list_all2 (answers hash n m (home_shard s)) vs rs"
    and "list_all well_typed (first @ rs)"
    and "sent s' = sent s @ map serialize_rec (first @ rs @ last_message (message_limit s) (buffer s') bad)"
    and "phase s' = (if last_message (message_limit s) (buffer s') bad = [] then Reading else Closed)"
  shows "outcome hash n m s s'"
  using assms unfolding outcome_def by (simp del: map_append list_all_append) blast

lemma outcomeD:
  assumes "outcome hash n m s s'" and "\<not> ending (phase s)"
  shows "\<exists>vs bad first rs. message_limit s' = message_limit s \<and> resp.drains (buffer s) vs (buffer s') bad \<and>
    completes (shard_ok hash n m) (phase s) first \<and> list_all2 (answers hash n m (home_shard s)) vs rs \<and> list_all well_typed (first @ rs) \<and>
    sent s' = sent s @ map serialize_rec (first @ rs @ last_message (message_limit s) (buffer s') bad) \<and>
    phase s' = (if last_message (message_limit s) (buffer s') bad = [] then Reading else Closed)"
  using assms unfolding outcome_def by (simp del: map_append list_all_append)

lemma outcome_ending: "ending (phase s) \<Longrightarrow> outcome hash n m s s' \<Longrightarrow> s' = s\<lparr>phase := Closed\<rparr>"
  by (simp add: outcome_def)

text \<open>A session that does not have to answer anything any more.\<close>

lemma outcome_last:
  assumes "phase s = Parsing \<or> phase s = Reading" and "message_limit s' = message_limit s" and "resp.drains (buffer s) [] (buffer s') bad"
    and "sent s' = sent s @ map serialize_rec (last_message (message_limit s) (buffer s') bad)"
    and "phase s' = (if last_message (message_limit s) (buffer s') bad = [] then Reading else Closed)"
  shows "outcome hash n m s s'"
  by (rule outcomeI [of s s' "[]" bad hash n m "[]" "[]"]) (use assms in auto)

lemma outcome_refl:
  assumes "session_ok hash p m s" and "settled s"
  shows "outcome hash n m s s"
proof (cases "phase s = Closed")
  case False
  then have "phase s = Reading" "length (buffer s) < unat (message_limit s)" using assms(2) by (auto simp: settled_def)
  moreover from this have "resp.drains (buffer s) [] (buffer s) False"
    using assms(1) by (intro resp.drains_wait) (simp add: session_ok_def)
  ultimately show ?thesis by (intro outcome_last [where bad = False]) (simp_all add: last_message_def)
qed (simp add: outcome_def)

text \<open>The value that a request was decoded from.\<close>

lemma next_request_drains:
  assumes "next_request b = Some (case c of None \<Rightarrow> RejectRequest b' | Some cmd \<Rightarrow> ExecuteRequest cmd b')"
    and "resp.drains b' vs b'' bad"
  shows "\<exists>v. toCommand v = Some c \<and> resp.drains b (v # vs) b'' bad"
proof -
  obtain k v where "parseImpl b = Ready k v" "b' = drop k b" "toCommand v = Some c"
    using assms(1) by (cases c) (auto simp: next_request_def parse_def split: if_splits outcome.splits option.splits)
  then show ?thesis using assms(2) by (blast intro: resp.drains_message)
qed

lemma outcome_request:
  assumes pool: "pool_ok hash m p" and s: "session_ok hash p m s" and "phase s = Parsing"
    and turn: "request_turn hash th p s = Some s1" and "outcome hash (pool_size p) m s1 s'"
  shows "outcome hash (pool_size p) m s s'"
proof (cases rule: next_request_cases [of "buffer s"])
  case 1
  then have "s1 = s\<lparr>phase := Reading\<rparr>" using turn by (auto simp: request_turn_def)
  with assms(3,5) show ?thesis by (simp add: outcome_def)
next
  case 2
  then have s': "s' = s\<lparr>sent := sent s @ [serialize_rec malformed_reply], phase := Closed\<rparr>"
    using turn assms(5) by (auto simp: request_turn_def send_Some outcome_def)
  have "resp.drains (buffer s) [] (buffer s) True"
    using 2 next_request_eq(1) [of "buffer s"] next_request_eq(3) [of "buffer s"]
    by (intro resp.drains_bad) (cases "parseImpl (buffer s)"; auto split: option.splits)
  then show ?thesis using assms(3) s' by (intro outcome_last [where bad = True]) (simp_all add: last_message_def)
next
  case (3 b')
  then have s1: "s1 = s\<lparr>buffer := b', sent := sent s @ [serialize_rec invalid_reply], phase := Writing False\<rparr>"
    using turn by (auto simp: request_turn_def send_Some)
  obtain vs bad rs where o: "message_limit s' = message_limit s" "resp.drains b' vs (buffer s') bad"
      "list_all2 (answers hash (pool_size p) m (home_shard s)) vs rs" "list_all well_typed rs"
      "sent s' = sent s @ map serialize_rec ((invalid_reply # rs) @ last_message (message_limit s) (buffer s') bad)"
      "phase s' = (if last_message (message_limit s) (buffer s') bad = [] then Reading else Closed)"
    using outcomeD [OF assms(5)] by (auto simp: s1)
  obtain v where v: "toCommand v = Some None" "resp.drains (buffer s) (v # vs) (buffer s') bad"
    using next_request_drains [where b = "buffer s" and c = None and b' = b' and vs = vs and b'' = "buffer s'" and bad = bad] 3(1) o(2) by auto
  then have "answers hash (pool_size p) m (home_shard s) v invalid_reply" by (simp add: answers_def)
  with o v(2) assms(3) show ?thesis
    by (intro outcomeI [where vs = "v # vs" and bad = bad and first = "[]" and rs = "invalid_reply # rs"]) simp_all
next
  case (4 cmd b')
  then obtain t where t: "execute hash th p cmd (Some (home_shard s)) = Some t" and s1: "s1 = s\<lparr>buffer := b', phase := Executing t\<rparr>"
    using turn session_okD(4) [OF s] by (auto simp: request_turn_def)
  obtain vs bad r rs where o: "message_limit s' = message_limit s" "resp.drains b' vs (buffer s') bad"
      "task_result (shard_ok hash (pool_size p) m) t r"
      "list_all2 (answers hash (pool_size p) m (home_shard s)) vs rs" "list_all well_typed (r # rs)"
      "sent s' = sent s @ map serialize_rec ((r # rs) @ last_message (message_limit s) (buffer s') bad)"
      "phase s' = (if last_message (message_limit s) (buffer s') bad = [] then Reading else Closed)"
    using outcomeD [OF assms(5)] by (auto simp: s1)
  obtain v where v: "toCommand v = Some (Some cmd)" "resp.drains (buffer s) (v # vs) (buffer s') bad"
    using next_request_drains [where b = "buffer s" and c = "Some cmd" and b' = b' and vs = vs and b'' = "buffer s'" and bad = bad] 4(1) o(2) by auto
  then have "answers hash (pool_size p) m (home_shard s) v r"
    using pool t o(3) by (auto simp: answers_def)
  with o v(2) assms(3) show ?thesis
    by (intro outcomeI [where vs = "v # vs" and bad = bad and first = "[]" and rs = "r # rs"]) simp_all
qed

lemma outcome_turn:
  assumes pool: "pool_ok hash m p" and ok: "session_ok hash p m s"
    and turn: "own_turn hash (shard_ok hash (pool_size p) m) p s s1" and out: "outcome hash (pool_size p) m s1 s'"
  shows "outcome hash (pool_size p) m s s'"
  using turn
proof cases
  case (own_request th)
  then show ?thesis using outcome_request [OF pool ok] out by blast
next
  case (own_reply v)
  note v = finished_within(2) [OF ok own_reply(1)]
  then have s1: "s1 = s\<lparr>sent := sent s @ [serialize_rec v], phase := Writing False\<rparr>"
    using own_reply by (simp add: reply_turn_def send_Some)
  obtain vs bad rs where o: "message_limit s' = message_limit s" "resp.drains (buffer s) vs (buffer s') bad"
      "list_all2 (answers hash (pool_size p) m (home_shard s)) vs rs" "list_all well_typed rs"
      "sent s' = sent s @ map serialize_rec ((v # rs) @ last_message (message_limit s) (buffer s') bad)"
      "phase s' = (if last_message (message_limit s) (buffer s') bad = [] then Reading else Closed)"
    using outcomeD [OF out] by (auto simp: s1)
  with v own_reply(1) result_finished show ?thesis
    by (intro outcomeI [where vs = vs and bad = bad and first = "[v]" and rs = rs]) simp_all
next
  case (own_write close)
  with out show ?thesis by (cases close) (simp_all add: outcome_def write_turn_def)
next
  case (own_shard i f sh clk t sh')
  obtain vs bad r rs where o: "message_limit s' = message_limit s" "resp.drains (buffer s) vs (buffer s') bad"
      "task_result (shard_ok hash (pool_size p) m) t r"
      "list_all2 (answers hash (pool_size p) m (home_shard s)) vs rs" "list_all well_typed (r # rs)"
      "sent s' = sent s @ map serialize_rec ((r # rs) @ last_message (message_limit s) (buffer s') bad)"
      "phase s' = (if last_message (message_limit s) (buffer s') bad = [] then Reading else Closed)"
    using outcomeD [OF out] own_shard(1) by auto
  moreover have "task_result (shard_ok hash (pool_size p) m) (OnShard i f) r"
    using result_shard [of "shard_ok hash (pool_size p) m" i sh f clk t sh' r] own_shard(3,4) o(3) by blast
  ultimately show ?thesis
    using own_shard(2) by (intro outcomeI [where vs = vs and bad = bad and first = "[r]" and rs = rs]) simp_all
next
  case (own_full event)
  then have s': "s' = s\<lparr>sent := sent s @ [serialize_rec too_large_reply], phase := Closed\<rparr>"
    using out by (auto simp: read_turn_def session_read_def send_Some outcome_def)
  have "resp.drains (buffer s) [] (buffer s) False"
    using ok own_full(1) by (intro resp.drains_wait) (simp add: session_ok_def)
  with own_full(1,2) show ?thesis
    by (intro outcome_last [where bad = False]) (simp_all add: s' last_message_def)
qed

subsection \<open>A session that is not settled can go on\<close>

definition in_loops :: "ShardPool \<Rightarrow> bool" where
  "in_loops p \<longleftrightarrow> (\<forall>w \<in> set (workers p). \<exists>t. worker_thread w = InLoop t)"

lemma loop_thread_exists:
  assumes "server_ok hash hw m r" and "in_loops (run_pool r)" and "i < pool_size (run_pool r)"
  shows "\<exists>th. loop_thread i (run_pool r) = Some th"
proof -
  note ok = server_okD [OF assms(1)]
  let ?w = "workers (run_pool r) ! unat i"
  have "unat i < length (workers (run_pool r))" using assms(3) pool_okD(1) [OF ok(1)] by (simp add: word_less_nat_alt)
  then obtain t where "worker_thread ?w = InLoop t" using assms(2) nth_mem unfolding in_loops_def by blast
  then show ?thesis using pool_okD(3) [OF ok(1) assms(3)] by (simp add: loop_thread_def)
qed

definition next_actor :: "nat \<Rightarrow> Session \<Rightarrow> actor" where
  "next_actor j s = (case phase s of Writing close \<Rightarrow> Act_write j | _ \<Rightarrow> Act_session j)"

lemma own_next_actor: "own j (next_actor j s)"
  by (simp add: own_def next_actor_def split: phase.split)

lemma closure_enabled:
  assumes "server_ok hash hw m r" and "in_loops (run_pool r)"
    and j: "j < length (run_sessions r)" and "phase (run_sessions r ! j) = Executing (OnShard i f)"
  shows "\<exists>r'. server_step hash hw r (Act_session j) r'"
proof -
  have "session_defined hash (run_pool r) (run_sessions r ! j)" using server_ok_defined [OF assms(1)] j by (simp add: server_defined_def)
  with assms(4) obtain w where w: "worker_at i (run_pool r) = Some w" "\<forall>clk. f clk (shard w) \<noteq> None" by (auto simp: session_defined_def)
  then obtain t sh where "f (\<lambda>_. 0) (shard w) = Some (t, sh)" by fastforce
  moreover obtain th where "loop_thread i (run_pool r) = Some th"
    using loop_thread_exists [OF assms(1,2)] worker_at_less(1) [OF server_okD(1) [OF assms(1)] w(1)] by blast
  ultimately show ?thesis using step_shard [OF j refl assms(4) _ w(1)] by blast
qed

lemma session_progress:
  assumes "server_ok hash hw m r" and "in_loops (run_pool r)"
    and j: "j < length (run_sessions r)" and busy: "\<not> settled (run_sessions r ! j)"
  shows "\<exists>r'. server_step hash hw r (next_actor j (run_sessions r ! j)) r'"
proof -
  let ?s = "run_sessions r ! j"
  note ok = server_okD [OF assms(1)]
  obtain th where th: "loop_thread (home_shard ?s) (run_pool r) = Some th"
    using loop_thread_exists [OF assms(1,2)] session_okD(1) [OF ok(2) [OF j]] by blast
  have "session_defined hash (run_pool r) ?s" using server_ok_defined [OF assms(1)] j by (simp add: server_defined_def)
  note def = this [unfolded session_defined_def]
  show ?thesis
  proof (cases "phase ?s")
    case Parsing
    with def obtain s' where "request_turn hash th (run_pool r) ?s = Some s'" by fastforce
    then show ?thesis using step_request [OF j refl Parsing th] Parsing by (auto simp: next_actor_def)
  next
    case (Executing t)
    show ?thesis
    proof (cases t)
      case (Finished v)
      with Executing def obtain s' where "reply_turn v ?s = Some s'" by auto
      then show ?thesis using step_reply [OF j refl _ th] Executing Finished by (fastforce simp: next_actor_def)
    next
      case (OnShard i f)
      with closure_enabled [OF assms(1,2) j] Executing show ?thesis by (simp add: next_actor_def)
    qed
  next
    case (Writing close)
    then show ?thesis using step_write [OF j refl Writing th] by (auto simp: next_actor_def)
  next
    case Reading
    with def obtain s' where s': "read_turn ReadEof ?s = Some s'" by fastforce
    have "unat (message_limit ?s) \<le> length (buffer ?s)" using busy Reading by (simp add: settled_def)
    from step_full [OF j refl Reading th this s'] show ?thesis using Reading by (auto simp: next_actor_def)
  next
    case Closed
    with busy show ?thesis by (simp add: settled_def)
  qed
qed

subsection \<open>The server comes to rest\<close>

fun internal :: "actor \<Rightarrow> bool" where
  "internal (Act_session j) = True"
| "internal (Act_write j) = True"
| "internal (Act_thread i) = True"
| "internal Act_main = True"
| "internal _ = False"

definition internal_step :: "(bytes \<Rightarrow> uint64) \<Rightarrow> uint32 \<Rightarrow> Running \<Rightarrow> Running \<Rightarrow> bool" where
  "internal_step hash hw r r' \<longleftrightarrow> (\<exists>a. internal a \<and> server_step hash hw r a r')"

fun thread_rank :: "std_thread \<Rightarrow> nat" where
  "thread_rank (Spawned t) = 2"
| "thread_rank (InLoop t) = 1"
| "thread_rank _ = 0"

fun main_rank :: "main_phase \<Rightarrow> nat" where
  "main_rank Main_Loop = 2"
| "main_rank Main_Joining = 1"
| "main_rank Main_Returned = 0"

definition pool_rank :: "ShardPool \<Rightarrow> nat" where
  "pool_rank p = (\<Sum>w\<leftarrow>workers p. thread_rank (worker_thread w))"

definition running_less :: "(Running \<times> Running) set" where
  "running_less = inv_image (less_than <*lex*> less_than <*lex*> mult session_less)
     (\<lambda>r. (main_rank (run_main r), pool_rank (run_pool r), mset (run_sessions r)))"

lemma wf_running_less: "wf running_less"
  unfolding running_less_def by (intro wf_inv_image wf_lex_prod wf_less_than wf_mult wf_session_less)

lemma mult_update:
  assumes "i < length xs" and "(y, xs ! i) \<in> R"
  shows "(mset (xs[i := y]), mset xs) \<in> mult R"
proof -
  have "(mset (xs[i := y]), mset xs) \<in> mult1 R"
    using assms by (intro mult1I [of _ "xs ! i" "mset xs - {#xs ! i#}" _ "{#y#}"]) (simp_all add: mset_update)
  then show ?thesis unfolding mult_def by blast
qed

lemma sum_list_update_less:
  fixes xs :: "nat list"
  assumes "i < length xs" and "v < xs ! i"
  shows "sum_list (xs[i := v]) < sum_list xs"
  using assms elem_le_sum_list [of i xs] sum_list_update [of i xs v] by linarith

lemma pool_rank_put_shard [simp]: "pool_rank (put_shard i sh p) = pool_rank p"
proof -
  have "map (\<lambda>w. thread_rank (worker_thread w)) (workers (put_shard i sh p)) = map (\<lambda>w. thread_rank (worker_thread w)) (workers p)"
    by (rule nth_equalityI) simp_all
  then show ?thesis by (simp add: pool_rank_def)
qed

lemma pool_rank_set_worker:
  assumes "i < length (workers p)" and "thread_rank (worker_thread w) < thread_rank (worker_thread (workers p ! i))"
  shows "pool_rank (set_worker i w p) < pool_rank p"
  using assms by (simp add: pool_rank_def map_update sum_list_update_less)

text \<open>Each step the server makes by itself goes down.\<close>

lemma internal_step_less:
  assumes "internal_step hash hw r r'"
  shows "(r', r) \<in> running_less"
proof -
  obtain a where a: "internal a" "server_step hash hw r a r'" using assms by (auto simp: internal_step_def)
  from a(2) show ?thesis
  proof cases
    case (step_thread_begin i w t now)
    then show ?thesis
      using pool_rank_set_worker [of i "run_pool r" "thread_begin hw (thread_affinity_enabled (run_pool r)) (of_nat i) w"]
      by (simp add: running_less_def thread_begin_defs)
  next
    case (step_thread_return i w t)
    then show ?thesis
      using pool_rank_set_worker [of i "run_pool r" "thread_return w"] by (simp add: running_less_def thread_return_def)
  next
    case (step_join p p')
    then show ?thesis by (simp add: running_less_def)
  next
    case (step_shard j s i f th w clk t sh)
    then have "(s\<lparr>phase := Executing t\<rparr>, s) \<in> session_less" using own_turn_less [OF own_shard [where ok = "\<lambda>_ _. True"]] by blast
    with step_shard show ?thesis by (simp add: running_less_def mult_update)
  next
    case (step_request j s th s')
    then have "(s', s) \<in> session_less" using own_turn_less [OF own_request] by blast
    with step_request show ?thesis by (simp add: running_less_def mult_update)
  next
    case (step_reply j s v th s')
    then have "(s', s) \<in> session_less" using own_turn_less [OF own_reply] by blast
    with step_reply show ?thesis by (simp add: running_less_def mult_update)
  next
    case (step_write j s close th)
    then have "(write_turn close s, s) \<in> session_less" using own_turn_less [OF own_write] by blast
    with step_write show ?thesis by (simp add: running_less_def mult_update)
  next
    case (step_full j s th event s')
    then have "(s', s) \<in> session_less" using own_turn_less [OF own_full] by blast
    with step_full show ?thesis by (simp add: running_less_def mult_update)
  qed (use a(1) in simp_all)
qed

lemma internal_steps_finite: "\<not> (\<exists>\<sigma>. \<forall>k. internal_step hash hw (\<sigma> k) (\<sigma> (Suc k)))"
proof
  assume "\<exists>\<sigma>. \<forall>k. internal_step hash hw (\<sigma> k) (\<sigma> (Suc k))"
  then obtain \<sigma> where "\<forall>k. (\<sigma> (Suc k), \<sigma> k) \<in> running_less" using internal_step_less by blast
  with wf_running_less show False unfolding wf_iff_no_infinite_down_chain by blast
qed

text \<open>Where the server cannot go on by itself, all threads run and all sessions are settled, or it has
  been shut down.\<close>

lemma join_when_returned:
  assumes "\<And>w. w \<in> set (workers p) \<Longrightarrow> \<exists>t. worker_thread w = NoThread \<or> worker_thread w = Returned t"
  shows "\<exists>p'. join_threads p = Some p'"
proof -
  have "those (map join_thread (workers p)) = Some (map (the \<circ> join_thread) (workers p))"
    using assms by (intro those_all) (force simp: join_thread_def)
  then show ?thesis by (simp add: join_threads_def)
qed

lemma rest_phase:
  assumes ok: "server_ok hash hw m r" and rest: "\<And>r'. \<not> internal_step hash hw r r'"
  shows "run_main r \<noteq> Main_Joining" "run_main r = Main_Loop \<Longrightarrow> in_loops (run_pool r)"
proof -
  have step: "\<not> server_step hash hw r a r'" if "internal a" for a r' using rest that by (auto simp: internal_step_def)
  have threads: "worker_thread w \<noteq> Spawned t \<and> (io_stopped w \<longrightarrow> worker_thread w \<noteq> InLoop t)"
    if w: "w \<in> set (workers (run_pool r))" for w t
  proof -
    obtain i where "i < length (workers (run_pool r))" "workers (run_pool r) ! i = w" using w by (auto simp: in_set_conv_nth)
    then show ?thesis
      using step [of "Act_thread i"] step_thread_begin [of i r w t hash hw 0] step_thread_return [of i r w t hash hw] by auto
  qed
  have worker: "worker_ok hw (run_main r) w" if "w \<in> set (workers (run_pool r))" for w
    using that ok by (simp add: server_ok_def)
  show "run_main r \<noteq> Main_Joining"
  proof
    assume joining: "run_main r = Main_Joining"
    have "\<exists>t. worker_thread w = NoThread \<or> worker_thread w = Returned t" if "w \<in> set (workers (run_pool r))" for w
      using threads [OF that] worker [OF that] joining by (cases "worker_thread w") (auto simp: worker_ok_def)
    from join_when_returned [OF this] obtain p where p: "join_threads (run_pool r) = Some p" by blast
    from step_join [OF joining p server_ok_join(2) [OF ok joining p]] step [of Act_main] show False
      by (meson internal.simps(4))
  qed
  assume main: "run_main r = Main_Loop"
  have "\<exists>t. worker_thread w = InLoop t" if "w \<in> set (workers (run_pool r))" for w
    using threads [OF that] worker [OF that] main by (cases "worker_thread w") (auto simp: worker_ok_def)
  then show "in_loops (run_pool r)" by (simp add: in_loops_def)
qed

lemma own_internal: "own j a \<Longrightarrow> internal a"
  by (auto simp: own_def)

lemma rest_settled:
  assumes ok: "server_ok hash hw m r" and rest: "\<And>r'. \<not> internal_step hash hw r r'" and "run_main r = Main_Loop"
    and "j < length (run_sessions r)"
  shows "settled (run_sessions r ! j)"
proof (rule ccontr)
  assume "\<not> settled (run_sessions r ! j)"
  from session_progress [OF ok rest_phase(2) [OF ok rest assms(3)] assms(4) this] rest show False
    unfolding internal_step_def using own_internal [OF own_next_actor] by blast
qed

text \<open>What a session has sent at the end of a run of such steps.\<close>

lemma internal_step_ok: "internal_step hash hw r r' \<Longrightarrow> server_ok hash hw m r \<Longrightarrow> server_ok hash hw m r'"
  by (auto simp: internal_step_def intro: server_step_ok)

lemma internal_step_length: "internal_step hash hw r r' \<Longrightarrow> length (run_sessions r') = length (run_sessions r)"
  unfolding internal_step_def by (auto elim!: server_step.cases)

lemma join_threads_length: "join_threads p = Some p' \<Longrightarrow> length (workers p') = length (workers p)"
  using join_threadsD(2) list_all2_lengthD by fastforce

lemma join_threads_shards:
  assumes "join_threads p = Some p'"
  shows "map shard (workers p') = map shard (workers p)"
proof -
  have "list_all2 (\<lambda>w w'. shard w' = shard w) (workers p) (workers p')"
    using join_threadsD(2) [OF assms] by (rule list_all2_mono) (auto dest: join_thread_SomeD)
  then show ?thesis by (simp add: list_all2_conv_all_nth list_eq_iff_nth_eq)
qed

lemma pool_stop_length: "pool_stop hw p = Some p' \<Longrightarrow> length (workers p') = length (workers p)"
  by (auto simp: pool_stop_def run_threads_def stop_loops_def dest: join_threads_length split: if_splits)

lemma step_size:
  assumes "server_step hash hw r a r'"
  shows "pool_size (run_pool r') = pool_size (run_pool r)"
  using assms
proof cases
  case (step_join p p')
  then show ?thesis using pool_stop_length [OF step_join(5)] join_threads_length [OF step_join(4)] by (simp add: pool_size_def)
qed (auto simp: pool_size_def listener_turn_def stop_loops_def)

lemma internal_step_size: "internal_step hash hw r r' \<Longrightarrow> pool_size (run_pool r') = pool_size (run_pool r)"
  unfolding internal_step_def using step_size by blast

lemma internal_run_outcome:
  assumes "(internal_step hash hw)\<^sup>*\<^sup>* r r'" and "server_ok hash hw m r" and "j < length (run_sessions r)"
    and "settled (run_sessions r' ! j)"
  shows "outcome hash (pool_size (run_pool r)) m (run_sessions r ! j) (run_sessions r' ! j)"
  using assms
proof (induction rule: converse_rtranclp_induct)
  case base
  then show ?case using outcome_refl [OF server_okD(2)] by blast
next
  case (step r r1)
  note ok1 = internal_step_ok [OF step.hyps(1) step.prems(1)]
  have out: "outcome hash (pool_size (run_pool r)) m (run_sessions r1 ! j) (run_sessions r' ! j)"
    using step.IH [OF ok1] step.prems(2,3) internal_step_length [OF step.hyps(1)] internal_step_size [OF step.hyps(1)] by simp
  obtain a where a: "internal a" "server_step hash hw r a r1" using step.hyps(1) by (auto simp: internal_step_def)
  show ?case
  proof (cases "own j a")
    case True
    then obtain s' where "own_turn hash (pool_shards hash m (run_pool r)) (run_pool r) (run_sessions r ! j) s'"
        "run_sessions r1 = (run_sessions r)[j := s']"
      using session_step_ok_turn [OF a(2) _ step.prems(1)] by blast
    with out show ?thesis using outcome_turn [OF server_okD(1,2) [OF step.prems(1)]] step.prems(2) by simp
  next
    case False
    then have "run_sessions r1 ! j = run_sessions r ! j"
      using other_steps [OF a(2) step.prems(2)] a(1) by (cases a) auto
    with out show ?thesis by simp
  qed
qed

lemma internal_run_ok: "(internal_step hash hw)\<^sup>*\<^sup>* r r' \<Longrightarrow> server_ok hash hw m r \<Longrightarrow>
    server_ok hash hw m r' \<and> length (run_sessions r') = length (run_sessions r)"
  by (induction rule: rtranclp_induct) (auto dest: internal_step_ok internal_step_length)

lemma rest_exists: "\<exists>r'. (internal_step hash hw)\<^sup>*\<^sup>* r r' \<and> (\<forall>r''. \<not> internal_step hash hw r' r'')"
proof (induction r rule: wf_induct_rule [OF wf_running_less])
  case (1 r)
  show ?case
  proof (cases "\<exists>r1. internal_step hash hw r r1")
    case True
    then obtain r1 where r1: "internal_step hash hw r r1" by blast
    from 1 [OF internal_step_less [OF this]] r1 show ?thesis by (meson converse_rtranclp_into_rtranclp)
  qed blast
qed

subsection \<open>Fair schedules\<close>

lemmas run_ok = server.run_inv

lemma run_sessions_length:
  assumes "is_run (server_step hash hw) \<sigma> acts" and "j < length (run_sessions (\<sigma> k))" and "k \<le> k'"
  shows "j < length (run_sessions (\<sigma> k'))"
  using assms(3)
proof (induction rule: dec_induct)
  case (step n)
  have "length (run_sessions (\<sigma> n)) \<le> length (run_sessions (\<sigma> (Suc n)))"
    using sessions_grow assms(1) unfolding is_run_def by blast
  with step.IH show ?case by simp
qed (use assms(2) in simp)

text \<open>While the server runs, threads only start.\<close>

lemma thread_kept:
  assumes "server_step hash hw r a r'" and ok: "server_ok hash hw m r" and "run_main r = Main_Loop" and "run_main r' = Main_Loop"
    and "i < length (workers (run_pool r))"
  shows "length (workers (run_pool r')) = length (workers (run_pool r))"
    "a \<noteq> Act_thread i \<or> worker_thread (workers (run_pool r) ! i) = InLoop t \<Longrightarrow>
      worker_thread (workers (run_pool r') ! i) = worker_thread (workers (run_pool r) ! i)"
    "a = Act_thread i \<Longrightarrow> worker_thread (workers (run_pool r) ! i) = Spawned t \<Longrightarrow> worker_thread (workers (run_pool r') ! i) = InLoop t"
proof -
  have "\<not> io_stopped w" if "w \<in> set (workers (run_pool r))" for w
    using that ok assms(3) by (simp add: server_ok_def worker_ok_def)
  then have run: "\<not> io_stopped (workers (run_pool r) ! k)" if "k < length (workers (run_pool r))" for k using that by simp
  show "length (workers (run_pool r')) = length (workers (run_pool r))"
    using assms(1,3,4) by (cases rule: server_step.cases) (auto simp: listener_turn_def)
  show "worker_thread (workers (run_pool r') ! i) = worker_thread (workers (run_pool r) ! i)"
    if "a \<noteq> Act_thread i \<or> worker_thread (workers (run_pool r) ! i) = InLoop t"
    using assms(1,3,4,5) that run
    by (cases rule: server_step.cases) (auto simp: nth_list_update listener_turn_def thread_begin_defs)
  show "worker_thread (workers (run_pool r') ! i) = InLoop t"
    if "a = Act_thread i" "worker_thread (workers (run_pool r) ! i) = Spawned t"
    using assms(1,5) that by (cases rule: server_step.cases) (auto simp: thread_begin_defs)
qed

lemma run_workers_length:
  assumes run: "is_run (server_step hash hw) \<sigma> acts" and ok: "server_ok hash hw m (\<sigma> 0)" and main: "\<And>k. run_main (\<sigma> k) = Main_Loop"
  shows "length (workers (run_pool (\<sigma> k))) = length (workers (run_pool (\<sigma> 0)))"
proof (induction k)
  case (Suc k)
  have "0 < length (workers (run_pool (\<sigma> k)))" using server_okD(1) [OF run_ok [OF run ok]] by (simp add: pool_ok_def)
  from thread_kept(1) [OF run [unfolded is_run_def, rule_format] run_ok [OF run ok] main main this] Suc show ?case by simp
qed simp

lemma loop_stays:
  assumes run: "is_run (server_step hash hw) \<sigma> acts" and ok: "server_ok hash hw m (\<sigma> 0)" and main: "\<And>k. run_main (\<sigma> k) = Main_Loop"
    and i: "i < length (workers (run_pool (\<sigma> 0)))" and "worker_thread (workers (run_pool (\<sigma> k)) ! i) = InLoop t" and "k \<le> k'"
  shows "worker_thread (workers (run_pool (\<sigma> k')) ! i) = InLoop t"
  using assms(6)
proof (induction rule: dec_induct)
  case (step n)
  have "i < length (workers (run_pool (\<sigma> n)))" using i run_workers_length [OF run ok main, of n] by simp
  with thread_kept(2) [OF run_step [OF run] run_ok [OF run ok] main main this, where t = t] step show ?case by simp
qed (rule assms(5))

lemma thread_eventually_loops:
  assumes run: "is_run (server_step hash hw) \<sigma> acts" and ok: "server_ok hash hw m (\<sigma> 0)" and main: "\<And>k. run_main (\<sigma> k) = Main_Loop"
    and fair: "fair (server_step hash hw) \<sigma> acts (Act_thread i)" and i: "i < length (workers (run_pool (\<sigma> 0)))"
  shows "\<exists>k0. \<forall>k \<ge> k0. \<exists>t. worker_thread (workers (run_pool (\<sigma> k)) ! i) = InLoop t"
proof -
  let ?th = "\<lambda>k. worker_thread (workers (run_pool (\<sigma> k)) ! i)"
  note kept = thread_kept [OF run [unfolded is_run_def, rule_format] run_ok [OF run ok] main main]
  have i: "i < length (workers (run_pool (\<sigma> k)))" for k using i run_workers_length [OF run ok main, of k] by simp
  have state: "\<exists>t. ?th k = Spawned t \<or> ?th k = InLoop t" for k
    using server_okD(3) [OF run_ok [OF run ok] i, of k] main [of k] by (cases "?th k") (auto simp: worker_ok_def)
  have "\<exists>k t. ?th k = InLoop t"
  proof (rule ccontr)
    assume never: "\<nexists>k t. ?th k = InLoop t"
    then have spawned: "\<exists>t. ?th k = Spawned t" for k using state by metis
    then have "\<exists>r'. server_step hash hw (\<sigma> k) (Act_thread i) r'" for k using step_thread_begin [OF i refl] by metis
    then obtain k where "acts k = Act_thread i" using fair_toD [OF fair [unfolded fair_def], of 0] by blast
    with spawned [of k] kept(3) [OF i, of k] never show False by metis
  qed
  then obtain k0 t where k0: "?th k0 = InLoop t" by blast
  then show ?thesis using loop_stays [OF run ok main i] by blast
qed

lemma loops_eventually:
  assumes run: "is_run (server_step hash hw) \<sigma> acts" and ok: "server_ok hash hw m (\<sigma> 0)" and main: "\<And>k. run_main (\<sigma> k) = Main_Loop"
    and fair: "\<And>i. fair (server_step hash hw) \<sigma> acts (Act_thread i)"
  shows "\<exists>k0. \<forall>k \<ge> k0. in_loops (run_pool (\<sigma> k))"
proof -
  let ?n = "length (workers (run_pool (\<sigma> 0)))"
  have "\<forall>i \<in> {..<?n}. eventually (\<lambda>k. \<exists>t. worker_thread (workers (run_pool (\<sigma> k)) ! i) = InLoop t) sequentially"
    using thread_eventually_loops [OF run ok main fair] by (simp add: eventually_sequentially)
  then have "eventually (\<lambda>k. \<forall>i \<in> {..<?n}. \<exists>t. worker_thread (workers (run_pool (\<sigma> k)) ! i) = InLoop t) sequentially"
    by (intro eventually_ball_finite) simp_all
  then obtain k0 where "\<And>k i. k0 \<le> k \<Longrightarrow> i < ?n \<Longrightarrow> \<exists>t. worker_thread (workers (run_pool (\<sigma> k)) ! i) = InLoop t"
    by (auto simp: eventually_sequentially)
  then have "in_loops (run_pool (\<sigma> k))" if "k0 \<le> k" for k
    using that run_workers_length [OF run ok main, of k] by (auto simp: in_loops_def in_set_conv_nth)
  then show ?thesis by blast
qed

text \<open>A session that is not settled stays as it is until its own next turn, and that turn comes.\<close>

lemma busy_kept:
  assumes "server_step hash hw r a r'" and "\<not> own j a" and "j < length (run_sessions r)" and "\<not> settled (run_sessions r ! j)"
  shows "j < length (run_sessions r') \<and> run_sessions r' ! j = run_sessions r ! j"
proof -
  have "a \<noteq> Act_socket j" using assms(1,4) socket_step_reading [of hash hw r j r'] by (auto simp: settled_def)
  then show ?thesis using other_steps [OF assms(1,3,2)] sessions_grow [OF assms(1)] assms(3) by simp
qed

lemma session_turn_comes:
  assumes run: "is_run (server_step hash hw) \<sigma> acts" and ok: "server_ok hash hw m (\<sigma> 0)" and main: "\<And>k. run_main (\<sigma> k) = Main_Loop"
    and threads: "\<And>i. fair (server_step hash hw) \<sigma> acts (Act_thread i)" and fair: "\<And>a. own j a \<Longrightarrow> fair (server_step hash hw) \<sigma> acts a"
    and j: "j < length (run_sessions (\<sigma> k))" and busy: "\<not> settled (run_sessions (\<sigma> k) ! j)"
  shows "\<exists>k' \<ge> k. own j (acts k') \<and> run_sessions (\<sigma> k') ! j = run_sessions (\<sigma> k) ! j"
proof -
  let ?s = "run_sessions (\<sigma> k) ! j"
  let ?P = "\<lambda>i. j < length (run_sessions (\<sigma> i)) \<and> run_sessions (\<sigma> i) ! j = ?s"
  obtain k0 where k0: "\<And>k. k0 \<le> k \<Longrightarrow> in_loops (run_pool (\<sigma> k))" using loops_eventually [OF run ok main threads] by blast
  have "\<exists>k' \<ge> k. own j (acts k') \<and> ?P k'"
  proof (rule turn_comes [where P = ?P and kind = "own j" and a = "\<lambda>i. next_actor j ?s" and late = k0 and \<sigma> = \<sigma> and step = "server_step hash hw"])
    show "fair_to (server_step hash hw) \<sigma> acts (\<lambda>i. next_actor j ?s) (own j)"
      by (rule fair_kind) (rule fair own_next_actor)+
    show "?P (Suc i)" if "?P i" "\<not> own j (acts i)" for i using busy_kept [OF run_step [OF run] that(2)] that(1) busy by simp
    show "\<exists>r'. server_step hash hw (\<sigma> i) (next_actor j ?s) r'" if "k0 \<le> i" "?P i" for i
      using session_progress [OF run_ok [OF run ok] k0] that busy by fastforce
  qed (use j in simp)
  then show ?thesis by blast
qed

lemma run_size: "is_run (server_step hash hw) \<sigma> acts \<Longrightarrow> pool_size (run_pool (\<sigma> k)) = pool_size (run_pool (\<sigma> 0))"
  by (induction k) (use step_size run_step in metis)+

lemma fair_outcome:
  assumes run: "is_run (server_step hash hw) \<sigma> acts" and ok: "server_ok hash hw m (\<sigma> 0)" and main: "\<And>k. run_main (\<sigma> k) = Main_Loop"
    and threads: "\<And>i. fair (server_step hash hw) \<sigma> acts (Act_thread i)" and fair: "\<And>a. own j a \<Longrightarrow> fair (server_step hash hw) \<sigma> acts a"
    and "j < length (run_sessions (\<sigma> k))"
  shows "\<exists>k' \<ge> k. settled (run_sessions (\<sigma> k') ! j) \<and>
    outcome hash (pool_size (run_pool (\<sigma> k))) m (run_sessions (\<sigma> k) ! j) (run_sessions (\<sigma> k') ! j)"
  using assms(6)
proof (induction "run_sessions (\<sigma> k) ! j" arbitrary: k rule: wf_induct_rule [OF wf_session_less])
  case 1
  show ?case
  proof (cases "settled (run_sessions (\<sigma> k) ! j)")
    case True
    with outcome_refl [OF server_okD(2) [OF run_ok [OF run ok] 1(2)]] show ?thesis by blast
  next
    case False
    then obtain k1 where k1: "k \<le> k1" "own j (acts k1)" "run_sessions (\<sigma> k1) ! j = run_sessions (\<sigma> k) ! j"
      using session_turn_comes [OF run ok main threads fair 1(2)] by blast
    have j1: "j < length (run_sessions (\<sigma> k1))" by (rule run_sessions_length [OF run 1(2) k1(1)])
    have turn: "server_step hash hw (\<sigma> k1) (acts k1) (\<sigma> (Suc k1))" using run unfolding is_run_def by blast
    let ?p = "run_pool (\<sigma> k1)" and ?n = "pool_size (run_pool (\<sigma> k))"
    have size: "pool_size ?p = ?n" "pool_size (run_pool (\<sigma> (Suc k1))) = ?n" using run_size [OF run] by metis+
    obtain s' where s': "own_turn hash (pool_shards hash m ?p) ?p (run_sessions (\<sigma> k) ! j) s'"
        "run_sessions (\<sigma> (Suc k1)) = (run_sessions (\<sigma> k1))[j := s']"
      using session_step_ok_turn [OF turn k1(2) run_ok [OF run ok]] k1(3) by metis
    then have next_state: "run_sessions (\<sigma> (Suc k1)) ! j = s'" "j < length (run_sessions (\<sigma> (Suc k1)))" using j1 by simp_all
    then obtain k' where "Suc k1 \<le> k'" "settled (run_sessions (\<sigma> k') ! j)" "outcome hash ?n m s' (run_sessions (\<sigma> k') ! j)"
      using 1(1) [of "Suc k1"] own_turn_less [OF s'(1)] size by auto
    moreover have "session_ok hash ?p m (run_sessions (\<sigma> k) ! j)"
      using server_okD(2) [OF run_ok [OF run ok] j1] k1(3) by simp
    ultimately show ?thesis
      using outcome_turn [OF server_okD(1) [OF run_ok [OF run ok]] _ s'(1)] k1(1) unfolding size by (meson Suc_leD order_trans)
  qed
qed

text \<open>Such runs exist from every state: the server goes on by itself until it is at rest, and then accepts
  fail forever.\<close>

lemma settled_no_turn:
  assumes "own_turn hash ok p s s'"
  shows "\<not> settled s"
  using assms by cases (auto simp: settled_def)

lemma no_internal_step:
  assumes "server_ok hash hw m r" and main: "run_main r = Main_Loop" and loops: "in_loops (run_pool r)"
    and settled: "\<And>j. j < length (run_sessions r) \<Longrightarrow> settled (run_sessions r ! j)" and "internal a"
  shows "\<not> server_step hash hw r a r'"
proof
  assume step: "server_step hash hw r a r'"
  have running: "\<not> io_stopped w \<and> worker_thread w \<noteq> Spawned t" if "w \<in> set (workers (run_pool r))" for w t
    using that assms(1) main loops by (auto simp: server_ok_def worker_ok_def in_loops_def)
  show False
  proof (cases a)
    case (Act_session j)
    then show False using session_step_turn [OF step, of j "\<lambda>_ _. True"] settled settled_no_turn unfolding own_def by blast
  next
    case (Act_write j)
    then show False using session_step_turn [OF step, of j "\<lambda>_ _. True"] settled settled_no_turn unfolding own_def by blast
  next
    case (Act_thread i)
    from step [unfolded Act_thread] running show False by (cases rule: server_step.cases) (auto simp: in_set_conv_nth)
  next
    case Act_main
    from step [unfolded Act_main] main show False by (cases rule: server_step.cases) simp
  qed (use assms(5) in simp_all)
qed

definition failed_accept :: "Running \<Rightarrow> Running" where
  "failed_accept r = r\<lparr>run_server := snd (listener_turn (run_server r))\<rparr>"

lemma failed_accepts:
  "run_sessions ((failed_accept ^^ k) r) = run_sessions r" "run_pool ((failed_accept ^^ k) r) = run_pool r"
  "run_main ((failed_accept ^^ k) r) = run_main r"
  by (induction k) (simp_all add: failed_accept_def listener_turn_def)

lemma failed_accept_step: "run_main r = Main_Loop \<Longrightarrow> server_step hash hw r Act_listener (failed_accept r)"
  unfolding failed_accept_def by (rule step_accept_error [of r "fst (listener_turn (run_server r))"]) simp_all

lemma internal_run_main:
  "(internal_step hash hw)\<^sup>*\<^sup>* r r' \<Longrightarrow> run_main r = Main_Loop \<Longrightarrow> run_main r' = Main_Loop"
proof (induction rule: rtranclp_induct)
  case (step r1 r2)
  then show ?case unfolding internal_step_def by (auto elim!: server_step.cases)
qed

lemma fair_run_exists:
  assumes ok: "server_ok hash hw m r" and main: "run_main r = Main_Loop"
  shows "\<exists>\<sigma> acts. is_run (server_step hash hw) \<sigma> acts \<and> \<sigma> 0 = r \<and> (\<forall>k. run_main (\<sigma> k) = Main_Loop) \<and> (\<forall>a. internal a \<longrightarrow> fair (server_step hash hw) \<sigma> acts a)"
proof -
  obtain r' where r': "(internal_step hash hw)\<^sup>*\<^sup>* r r'" "\<And>r''. \<not> internal_step hash hw r' r''" using rest_exists by blast
  then obtain n f where f: "f 0 = r" "f n = r'" "\<And>k. k < n \<Longrightarrow> internal_step hash hw (f k) (f (Suc k))"
    using rtranclp_imp_relpowp [OF r'(1)] unfolding relpowp_fun_conv by blast
  let ?\<sigma> = "\<lambda>k. if k < n then f k else (failed_accept ^^ (k - n)) r'"
  have path: "(internal_step hash hw)\<^sup>*\<^sup>* r (f k)" if "k \<le> n" for k
    using that f(1,3) by (induction k) (auto intro: rtranclp.rtrancl_into_rtrancl)
  have main': "run_main r' = Main_Loop" by (rule internal_run_main [OF r'(1) main])
  have "\<exists>a. server_step hash hw (?\<sigma> k) a (?\<sigma> (Suc k))" for k
  proof (cases "k < n")
    case True
    then have "?\<sigma> (Suc k) = f (Suc k)" using f(2) by (cases "Suc k = n") auto
    with True f(3) show ?thesis unfolding internal_step_def by auto
  next
    case False
    then show ?thesis
      using failed_accept_step [of "(failed_accept ^^ (k - n)) r'"] main' by (auto simp: failed_accepts Suc_diff_le)
  qed
  then obtain acts where acts: "is_run (server_step hash hw) ?\<sigma> acts" unfolding is_run_def by metis
  have start: "?\<sigma> 0 = r" using f(1,2) by auto
  have loop: "run_main (?\<sigma> k) = Main_Loop" for k
    using internal_run_main [OF path main, of k] main' by (simp add: failed_accepts)
  have ok': "server_ok hash hw m r'" using internal_run_ok [OF r'(1) ok] by blast
  have "server_ok hash hw m (?\<sigma> 0)" using ok start by simp
  note ok\<sigma> = run_ok [OF acts this]
  have "\<not> server_step hash hw (?\<sigma> k) a x" if "internal a" "n \<le> k" for a k x
  proof (rule no_internal_step [OF ok\<sigma> loop _ _ that(1)])
    show "in_loops (run_pool (?\<sigma> k))" using rest_phase(2) [OF ok' r'(2) main'] that(2) by (simp add: failed_accepts)
    show "settled (run_sessions (?\<sigma> k) ! j)" if "j < length (run_sessions (?\<sigma> k))" for j
      using rest_settled [OF ok' r'(2) main', of j] that \<open>n \<le> k\<close> by (simp add: failed_accepts)
  qed
  then have "fair (server_step hash hw) ?\<sigma> acts a" if "internal a" for a
    unfolding fair_def fair_to_def using that by (meson nat_le_linear order_refl)
  with acts start loop show ?thesis by blast
qed

subsection \<open>Shutdown\<close>

text \<open>After the signal a step either ends in the return of the main thread or leaves the other threads alone; nothing moves any more
  once the main thread has returned.\<close>

lemma closing_main: "server_step hash hw r a r' \<Longrightarrow> run_main r \<noteq> Main_Loop \<Longrightarrow> run_main r' \<noteq> Main_Loop"
  by (cases rule: server_step.cases) auto

lemma put_shard_any_thread:
  "unat k < length (workers p) \<Longrightarrow> worker_thread (workers (put_shard k sh p) ! i) = worker_thread (workers p ! i)"
  by (cases "i = unat k") (simp_all add: put_shard_def)

lemma joining_step:
  assumes "server_step hash hw r a r'" and "run_main r = Main_Joining" and "run_main r' = Main_Joining"
  shows "pool_rank (run_pool r') \<le> pool_rank (run_pool r)"
    "a = Act_thread i \<Longrightarrow> pool_rank (run_pool r') < pool_rank (run_pool r)"
    "a \<noteq> Act_main" "a \<noteq> Act_thread i \<Longrightarrow> worker_thread (workers (run_pool r') ! i) = worker_thread (workers (run_pool r) ! i)"
proof -
  have rank: "pool_rank (set_worker k w (run_pool r)) < pool_rank (run_pool r)"
    if "k < length (workers (run_pool r))" "thread_rank (worker_thread w) < thread_rank (worker_thread (workers (run_pool r) ! k))" for k w
    by (rule pool_rank_set_worker [OF that])
  show less: "pool_rank (run_pool r') < pool_rank (run_pool r)" if "a = Act_thread i" for i
    using assms(1) that by (cases rule: server_step.cases) (auto simp: thread_begin_defs thread_return_def intro!: rank)
  show "a \<noteq> Act_main" using assms(1,3) by (cases rule: server_step.cases) auto
  show "worker_thread (workers (run_pool r') ! i) = worker_thread (workers (run_pool r) ! i)" if "a \<noteq> Act_thread i"
    using assms that by (cases rule: server_step.cases)
      (auto simp: put_shard_any_thread worker_at_def split: if_splits)
  show "pool_rank (run_pool r') \<le> pool_rank (run_pool r)"
  proof (cases "\<exists>k. a = Act_thread k")
    case True
    with less show ?thesis by (auto intro: less_imp_le)
  next
    case False
    with assms show ?thesis by (cases rule: server_step.cases) auto
  qed
qed

lemma thread_enabled:
  assumes "server_ok hash hw m r" and "run_main r = Main_Joining" and i: "i < length (workers (run_pool r))"
    and "\<not> (\<exists>t. worker_thread (workers (run_pool r) ! i) = Returned t)"
  shows "\<exists>r'. server_step hash hw r (Act_thread i) r'"
  using server_okD(3) [OF assms(1) i] assms(2,4) step_thread_begin [OF i refl] step_thread_return [OF i refl]
  by (cases "worker_thread (workers (run_pool r) ! i)") (fastforce simp: worker_ok_def)+

lemma main_enabled:
  assumes ok: "server_ok hash hw m r" and main: "run_main r = Main_Joining"
    and "\<And>i. i < length (workers (run_pool r)) \<Longrightarrow> \<exists>t. worker_thread (workers (run_pool r) ! i) = Returned t"
  shows "\<exists>r'. server_step hash hw r Act_main r'"
proof -
  have "\<exists>t. worker_thread w = NoThread \<or> worker_thread w = Returned t" if "w \<in> set (workers (run_pool r))" for w
    using that assms(3) by (auto simp: in_set_conv_nth)
  from join_when_returned [OF this] obtain p where p: "join_threads (run_pool r) = Some p" by blast
  from step_join [OF main p server_ok_join(2) [OF ok main p]] show ?thesis by blast
qed

lemma returned_end:
  assumes "server_ok hash hw m r" and "run_main r = Main_Returned"
  shows "\<not> server_step hash hw r a r'" "pool_destroy hw (run_pool r) = Some ()"
proof -
  have none: "worker_thread w = NoThread" if "w \<in> set (workers (run_pool r))" for w
    using that assms by (cases "worker_thread w") (auto simp: server_ok_def worker_ok_def)
  then have at: "worker_thread (workers (run_pool r) ! i) = NoThread" if "i < length (workers (run_pool r))" for i
    using that by simp
  then have "loop_thread i (run_pool r) = None" for i by (simp add: loop_thread_def worker_at_def)
  then show "\<not> server_step hash hw r a r'"
    using assms(2) at by (auto elim!: server_step.cases)
  show "pool_destroy hw (run_pool r) = Some ()"
    using none server_okD(4) [OF assms(1)] assms(2) by (simp add: pool_destroy_def pool_stop_def)
qed

definition all_returned :: "Running \<Rightarrow> bool" where
  "all_returned r \<longleftrightarrow> (\<forall>i < length (workers (run_pool r)). \<exists>t. worker_thread (workers (run_pool r) ! i) = Returned t)"

lemma all_returned_kept:
  assumes step: "server_step hash hw r a r'" and "run_main r = Main_Joining" and "run_main r' = Main_Joining"
    and size: "length (workers (run_pool r')) = length (workers (run_pool r))" and all: "all_returned r"
  shows "all_returned r'"
proof -
  have "a \<noteq> Act_thread i" if "i < length (workers (run_pool r))" for i
  proof
    assume "a = Act_thread i"
    with step all that show False by (auto simp: all_returned_def elim!: server_step.cases)
  qed
  with joining_step(4) [OF assms(1-3)] all size show ?thesis by (simp add: all_returned_def)
qed

lemma no_fair_closing_run:
  assumes run: "is_run (server_step hash hw) \<sigma> acts" and ok: "server_ok hash hw m (\<sigma> 0)" and main: "run_main (\<sigma> 0) = Main_Joining"
    and threads: "\<And>i. fair (server_step hash hw) \<sigma> acts (Act_thread i)" and fair: "fair (server_step hash hw) \<sigma> acts Act_main"
  shows False
proof -
  note step = run_step [OF run] and ok\<sigma> = run_ok [OF run ok]
  have joining: "run_main (\<sigma> k) = Main_Joining" for k
  proof -
    have "run_main (\<sigma> k) \<noteq> Main_Loop" by (induction k) (use main closing_main [OF step] in auto)
    moreover have "run_main (\<sigma> k) \<noteq> Main_Returned" using returned_end(1) [OF ok\<sigma>] step by blast
    ultimately show ?thesis using main_phase.exhaust by blast
  qed
  note js = joining_step [OF step joining joining]
  let ?rank = "\<lambda>k. pool_rank (run_pool (\<sigma> k))" and ?th = "\<lambda>k i. worker_thread (workers (run_pool (\<sigma> k)) ! i)"
  have mono: "?rank l \<le> ?rank k" if "k \<le> l" for k l using lift_Suc_antimono_le [of ?rank, OF js(1) that] .
  have size: "length (workers (run_pool (\<sigma> k))) = length (workers (run_pool (\<sigma> 0)))" for k
    using run_size [OF run, of k] server_okD(1) [OF ok\<sigma>] pool_okD(1) by metis
  have False if "?rank k = N" for N k
    using that
  proof (induction N arbitrary: k rule: less_induct)
    case (less N)
    show False
    proof (cases "all_returned (\<sigma> k)")
      case False
      then obtain i where i: "i < length (workers (run_pool (\<sigma> k)))" "\<not> (\<exists>t. ?th k i = Returned t)" by (auto simp: all_returned_def)
      have "\<exists>l \<ge> k. acts l = Act_thread i \<and> \<not> (\<exists>t. ?th l i = Returned t)"
      proof (rule turn_comes [where kind = "\<lambda>a. a = Act_thread i" and a = "\<lambda>_. Act_thread i" and late = 0 and P = "\<lambda>l. \<not> (\<exists>t. ?th l i = Returned t)"])
        show "\<exists>r'. server_step hash hw (\<sigma> l) (Act_thread i) r'" if "\<not> (\<exists>t. ?th l i = Returned t)" for l
          using thread_enabled [OF ok\<sigma> joining _ that] i(1) size by metis
      qed (use i(2) threads [of i] js(4) in \<open>auto simp: fair_def\<close>)
      then obtain l where l: "k \<le> l" "acts l = Act_thread i" by blast
      then have "?rank (Suc l) < N" using js(2) [OF l(2)] mono [OF l(1)] less.prems by simp
      with less.IH show False by blast
    next
      case True
      have never: "acts l \<noteq> Act_main" for l by (rule js(3))
      have "all_returned (\<sigma> l)" if "k \<le> l" for l
        using that
      proof (induction rule: dec_induct)
        case (step l)
        with all_returned_kept [OF run_step [OF run] joining joining] size show ?case by metis
      qed (rule True)
      then have "\<exists>r'. server_step hash hw (\<sigma> l) Act_main r'" if "k \<le> l" for l
        using main_enabled [OF ok\<sigma> joining] that unfolding all_returned_def by blast
      with fair_toD [OF fair [unfolded fair_def]] never show False by metis
    qed
  qed
  then show False by blast
qed

subsection \<open>Properties\<close>

lemma ping_drains:
  "resp.drains (serialize_rec (ArrayValue [BulkString ''PING''])) [ArrayValue [BulkString ''PING'']] [] False"
proof -
  have "encodable 0 (ArrayValue [BulkString ''PING''])" by (simp add: resp_limits)
  with resp_codec.drains_pipeline [of "[ArrayValue [BulkString ''PING'']]" "[]" "[]" "[]" False] resp.drains_wait [OF resp.decode_Nil]
  show ?thesis by simp
qed

lemma ping_sample:
  "server_ok hash hw 1024 (sample_server (serialize_rec (ArrayValue [BulkString ''PING''])))"
  "run_main (sample_server b) = Main_Loop" "length (run_sessions (sample_server b)) = 1"
  "buffer (run_sessions (sample_server b) ! 0) = b" "phase (run_sessions (sample_server b) ! 0) = Parsing"
  "sent (run_sessions (sample_server b) ! 0) = []" "message_limit (run_sessions (sample_server b) ! 0) = 64"
proof -
  have "length (serialize_rec (ArrayValue [BulkString ''PING''])) = 14" by code_simp
  then show "server_ok hash hw 1024 (sample_server (serialize_rec (ArrayValue [BulkString ''PING''])))"
    by (intro sample_server_ok) simp
qed (simp_all add: sample_server_def Let_def new_session_def session_limit_def)

lemma ping_answer:
  assumes "answers hash n m home (ArrayValue [BulkString ''PING'']) r"
  shows "r = BulkString ''PONG''"
proof -
  let ?cmd = "\<lparr>cmd_type = Cmd_kPing, cmd_args = []\<rparr>"
  have "to_uppercase ''PING'' = ''PING''" by code_simp
  then have "toCommand (ArrayValue [BulkString ''PING'']) = Some (Some ?cmd)"
    by (subst toCommand_array) (auto simp: request_def is_string_type_def determineCommandType_def valid_command_def)
  with assms obtain th p t where "execute hash th p ?cmd (Some home) = Some t" "task_result (shard_ok hash n m) t r"
    by (auto simp: answers_def)
  moreover from this(1) have "t = Finished (BulkString ''PONG'')"
    by (auto simp: execute_eq execute_single_shard_def execute_multi_shard_def processPingCommand_def Let_def
        split: if_splits Option.bind_splits)
  ultimately show ?thesis by (auto elim: task_result_FinishedE)
qed

lemma ping_outcome:
  assumes "outcome hash n m (run_sessions (sample_server (serialize_rec (ArrayValue [BulkString ''PING'']))) ! 0) s'"
  shows "sent s' = [serialize_rec (BulkString ''PONG'')]" "buffer s' = []" "phase s' = Reading"
proof -
  let ?s = "run_sessions (sample_server (serialize_rec (ArrayValue [BulkString ''PING'']))) ! 0"
  obtain vs bad rs where o: "resp.drains (buffer ?s) vs (buffer s') bad" "list_all2 (answers hash n m (home_shard ?s)) vs rs"
      "sent s' = map serialize_rec (rs @ last_message 64 (buffer s') bad)"
      "phase s' = (if last_message 64 (buffer s') bad = [] then Reading else Closed)"
    using outcomeD [OF assms] by (auto simp: ping_sample)
  have b: "vs = [ArrayValue [BulkString ''PING'']]" "buffer s' = []" "\<not> bad"
    using resp.drains_deterministic [OF ping_drains o(1) [unfolded ping_sample(4)]] by simp_all
  with o(2) have "rs = [BulkString ''PONG'']" by (auto simp: list_all2_Cons1 dest: ping_answer)
  with b o(3,4) show "sent s' = [serialize_rec (BulkString ''PONG'')]" "buffer s' = []" "phase s' = Reading"
    by (simp_all add: last_message_def)
qed

text \<open>C4: Every request is answered. In every run of the server that is not shut down and treats the worker
  threads, the session and the completion of its writes fairly (whoever could go on from some time on does so), whatever else
  happens in between on other connections, timers and accepts: the session gets to the point where
  it is closed or waits for more input. By then it has sent, in this order: the reply of the command in
  execution, if any; for each complete value its buffer held exactly one well-typed reply, the i-th being an answer
  to the i-th value (the error for an invalid request, or a result of executing the decoded
  command on shards of the pool); and one error message if it had to be closed. What remains in the
  buffer is what follows the last value.\<close>

theorem every_request_answered:
  assumes "is_run (server_step hash hw) \<sigma> acts" and "server_ok hash hw m (\<sigma> 0)" and "\<And>k. run_main (\<sigma> k) = Main_Loop"
    and "\<And>i. fair (server_step hash hw) \<sigma> acts (Act_thread i)" and "fair (server_step hash hw) \<sigma> acts (Act_session j)" and "fair (server_step hash hw) \<sigma> acts (Act_write j)"
    and "j < length (run_sessions (\<sigma> k))"
  shows "\<exists>k' \<ge> k. settled (run_sessions (\<sigma> k') ! j) \<and>
    outcome hash (pool_size (run_pool (\<sigma> k))) m (run_sessions (\<sigma> k) ! j) (run_sessions (\<sigma> k') ! j)"
  by (rule fair_outcome [OF assms(1-4) _ assms(7)]) (use assms(5,6) in \<open>auto simp: own_def\<close>)

theorem every_request_answered_witness:
  "\<exists>\<sigma> acts k. is_run (server_step (\<lambda>k. 0) 1) \<sigma> acts \<and> \<sigma> 0 = sample_server (serialize_rec (ArrayValue [BulkString ''PING''])) \<and>
    sent (run_sessions (\<sigma> k) ! 0) = [serialize_rec (BulkString ''PONG'')] \<and> phase (run_sessions (\<sigma> k) ! 0) = Reading"
proof -
  let ?r = "sample_server (serialize_rec (ArrayValue [BulkString ''PING'']))"
  obtain \<sigma> acts where run: "is_run (server_step (\<lambda>k. 0) 1) \<sigma> acts" "\<sigma> 0 = ?r" "\<And>k. run_main (\<sigma> k) = Main_Loop"
      "\<And>a. internal a \<Longrightarrow> fair (server_step (\<lambda>k. 0) 1) \<sigma> acts a"
    using fair_run_exists [OF ping_sample(1,2)] by metis
  have "server_ok (\<lambda>k. 0) 1 1024 (\<sigma> 0)" "0 < length (run_sessions (\<sigma> 0))" using ping_sample(1,3) run(2) by simp_all
  from every_request_answered [OF run(1) this(1) run(3) run(4) run(4) run(4) this(2)] obtain k where
    "outcome (\<lambda>k. 0) (pool_size (run_pool ?r)) 1024 (run_sessions ?r ! 0) (run_sessions (\<sigma> k) ! 0)" using run(2) by auto
  from ping_outcome(1,3) [OF this] run(1,2) show ?thesis by blast
qed

text \<open>C15: A server left to itself comes to rest. It cannot make infinitely many steps without an event from
  a socket, a timer, the listener or a signal; it always can be run until it is at rest; and
  whichever way the steps are interleaved, when it is at rest (and not shut down) every thread is
  in its event loop and every session has answered exactly the requests its buffer held, in their order
  and each with a reply to it.\<close>

theorem server_comes_to_rest:
  assumes "server_ok hash hw m r"
  shows "\<not> (\<exists>\<sigma>. \<sigma> 0 = r \<and> (\<forall>k. internal_step hash hw (\<sigma> k) (\<sigma> (Suc k)))) \<and>
    (\<exists>r'. (internal_step hash hw)\<^sup>*\<^sup>* r r' \<and> (\<forall>r''. \<not> internal_step hash hw r' r'')) \<and>
    (\<forall>r' j. (internal_step hash hw)\<^sup>*\<^sup>* r r' \<and> (\<forall>r''. \<not> internal_step hash hw r' r'') \<and> run_main r' = Main_Loop \<and>
      j < length (run_sessions r) \<longrightarrow>
      in_loops (run_pool r') \<and> settled (run_sessions r' ! j) \<and>
      outcome hash (pool_size (run_pool r)) m (run_sessions r ! j) (run_sessions r' ! j))"
proof (intro conjI allI impI)
  show "\<not> (\<exists>\<sigma>. \<sigma> 0 = r \<and> (\<forall>k. internal_step hash hw (\<sigma> k) (\<sigma> (Suc k))))" using internal_steps_finite by blast
  show "\<exists>r'. (internal_step hash hw)\<^sup>*\<^sup>* r r' \<and> (\<forall>r''. \<not> internal_step hash hw r' r'')" by (rule rest_exists)
  fix r' j
  assume "(internal_step hash hw)\<^sup>*\<^sup>* r r' \<and> (\<forall>r''. \<not> internal_step hash hw r' r'') \<and> run_main r' = Main_Loop \<and>
      j < length (run_sessions r)"
  then have run: "(internal_step hash hw)\<^sup>*\<^sup>* r r'" and rest: "\<And>r''. \<not> internal_step hash hw r' r''"
    and main: "run_main r' = Main_Loop" and j: "j < length (run_sessions r)" by auto
  note ok' = internal_run_ok [OF run assms]
  then show "in_loops (run_pool r')" using rest_phase(2) [OF _ rest main] by blast
  show settled: "settled (run_sessions r' ! j)" using rest_settled [OF conjunct1 [OF ok'] rest main] ok' j by simp
  show "outcome hash (pool_size (run_pool r)) m (run_sessions r ! j) (run_sessions r' ! j)" by (rule internal_run_outcome [OF run assms j settled])
qed

theorem server_comes_to_rest_witness:
  "\<exists>r'. (internal_step (\<lambda>k. 0) 1)\<^sup>*\<^sup>* (sample_server (serialize_rec (ArrayValue [BulkString ''PING'']))) r' \<and>
    sent (run_sessions r' ! 0) = [serialize_rec (BulkString ''PONG'')] \<and> phase (run_sessions r' ! 0) = Reading"
proof -
  let ?r = "sample_server (serialize_rec (ArrayValue [BulkString ''PING'']))"
  note rest = server_comes_to_rest [OF ping_sample(1), of "\<lambda>k. 0" 1]
  then obtain r' where r': "(internal_step (\<lambda>k. 0) 1)\<^sup>*\<^sup>* ?r r'" "\<forall>r''. \<not> internal_step (\<lambda>k. 0) 1 r' r''" by blast
  have "run_main r' = Main_Loop" using internal_run_main [OF r'(1)] ping_sample(2) by blast
  with rest r' ping_sample(3) have "outcome (\<lambda>k. 0) (pool_size (run_pool ?r)) 1024 (run_sessions ?r ! 0) (run_sessions r' ! 0)"
    by (metis less_numeral_extra(1))
  from ping_outcome(1,3) [OF this] r'(1) show ?thesis by blast
qed

text \<open>C16: Shutdown. After the signal has been handled, with all parties still going on in any way (a handler in
  progress is not interrupted, sessions, sockets and cleaning loops may make any further steps on a
  worker until its thread returns): the server never gets stuck before \<open>Server::run\<close> returns, some
  step it makes by itself is always possible; it cannot put its return off forever, neither by
  steps of its own, whatever their order, nor by any steps, if the worker threads and the main thread are treated
  fairly; and when \<open>Server::run\<close> has returned, nothing runs any more (no step of any party is
  possible, so shards and sessions stay as they are) and no thread is left that would keep the
  pool from being destroyed.\<close>

theorem server_shuts_down:
  assumes "server_ok hash hw m r" and "run_main r = Main_Joining"
  shows "\<not> (\<exists>\<sigma>. \<sigma> 0 = r \<and> (\<forall>k. internal_step hash hw (\<sigma> k) (\<sigma> (Suc k)))) \<and>
    \<not> (\<exists>\<sigma> acts. \<sigma> 0 = r \<and> is_run (server_step hash hw) \<sigma> acts \<and>
       (\<forall>i. fair (server_step hash hw) \<sigma> acts (Act_thread i)) \<and> fair (server_step hash hw) \<sigma> acts Act_main) \<and>
    (\<forall>r'. reachable hash hw r r' \<longrightarrow>
      (if run_main r' = Main_Returned
       then (\<forall>a r''. \<not> server_step hash hw r' a r'') \<and> pool_destroy hw (run_pool r') = Some ()
       else run_main r' = Main_Joining \<and> (\<exists>r''. internal_step hash hw r' r'')))"
proof (intro conjI allI impI)
  show "\<not> (\<exists>\<sigma>. \<sigma> 0 = r \<and> (\<forall>k. internal_step hash hw (\<sigma> k) (\<sigma> (Suc k))))" using internal_steps_finite by blast
  show "\<not> (\<exists>\<sigma> acts. \<sigma> 0 = r \<and> is_run (server_step hash hw) \<sigma> acts \<and>
       (\<forall>i. fair (server_step hash hw) \<sigma> acts (Act_thread i)) \<and> fair (server_step hash hw) \<sigma> acts Act_main)"
    using no_fair_closing_run assms by blast
  fix r'
  assume reach: "reachable hash hw r r'"
  have ok: "server_ok hash hw m r'" by (rule reachable_ok [OF reach assms(1)])
  have closing: "run_main r' \<noteq> Main_Loop"
    using reach by (induction rule: reachable.induct) (use assms(2) closing_main in auto)
  show "if run_main r' = Main_Returned then (\<forall>a r''. \<not> server_step hash hw r' a r'') \<and> pool_destroy hw (run_pool r') = Some ()
      else run_main r' = Main_Joining \<and> (\<exists>r''. internal_step hash hw r' r'')"
    using returned_end [OF ok] rest_phase(1) [OF ok] closing by (cases "run_main r'") auto
qed

theorem server_shuts_down_witness:
  "let r = sample_server (serialize_rec (ArrayValue [BulkString ''PING'']));
       r1 = set_pool (stop_loops (run_pool r)) (r\<lparr>run_main := Main_Joining\<rparr>)
   in server_step (\<lambda>k. 0) 1 r Act_signal r1 \<and>
      (\<exists>r'. reachable (\<lambda>k. 0) 1 r1 r' \<and> run_main r' = Main_Returned \<and> pool_destroy 1 (run_pool r') = Some ())"
proof -
  let ?r = "sample_server (serialize_rec (ArrayValue [BulkString ''PING'']))"
  let ?r1 = "set_pool (stop_loops (run_pool ?r)) (?r\<lparr>run_main := Main_Joining\<rparr>)"
  have "server_ok (\<lambda>k. 0) 1 1024 ?r1" by (rule server_ok_signal [OF ping_sample(1,2)])
  moreover have "run_main ?r1 = Main_Joining" by simp
  ultimately have down: "reachable (\<lambda>k. 0) 1 ?r1 r' \<Longrightarrow> if run_main r' = Main_Returned
       then (\<forall>a r''. \<not> server_step (\<lambda>k. 0) 1 r' a r'') \<and> pool_destroy 1 (run_pool r') = Some ()
       else run_main r' = Main_Joining \<and> (\<exists>r''. internal_step (\<lambda>k. 0) 1 r' r'')" for r'
    using server_shuts_down [of "\<lambda>k. 0" 1 1024 ?r1] by blast
  obtain r' where "(internal_step (\<lambda>k. 0) 1)\<^sup>*\<^sup>* ?r1 r'" and rest: "\<forall>r''. \<not> internal_step (\<lambda>k. 0) 1 r' r''"
    using rest_exists [of "\<lambda>k. 0" 1 ?r1] by blast
  from this(1) have reach: "reachable (\<lambda>k. 0) 1 ?r1 r'"
    by (induction rule: rtranclp_induct) (auto simp: internal_step_def intro: reachable.intros)
  with down [OF reach] rest have "run_main r' = Main_Returned \<and> pool_destroy 1 (run_pool r') = Some ()" by (simp split: if_splits)
  moreover have "server_step (\<lambda>k. 0) 1 ?r Act_signal ?r1" by (rule step_signal) (simp_all add: ping_sample sample_pool)
  ultimately show ?thesis using reach by (auto simp: Let_def)
qed

text \<open>C14: Clients can read the replies. In every state of the running server whose shard budget and message
  limit are within the parser's limit of 16 MiB, the bytes a session has sent so far, back to back,
  are decoded by the parser into exactly the values that were serialized, with nothing left over.\<close>

theorem replies_readable:
  assumes "server_ok hash hw m r" and "s \<in> set (run_sessions r)"
    and "unat m \<le> kMaxBulkSize" and "unat (message_limit s) \<le> kMaxBulkSize"
  shows "\<exists>vs. sent s = map serialize_rec vs \<and> resp.drains (concat (sent s)) vs [] False"
proof (rule messages_read_back [of _ "reply_bound m s"])
  show "\<forall>message \<in> set (sent s). reply_message (reply_bound m s) message"
    using assms(1,2) by (simp add: server_ok_def session_ok_def)
  show "reply_bound m s \<le> kMaxBulkSize" using assms(3,4) by (simp add: reply_bound_def kMaxBulkSize_def)
qed

theorem replies_readable_witness:
  "\<exists>r' reply. (internal_step (\<lambda>k. 0) 1)\<^sup>*\<^sup>* (sample_server (serialize_rec (ArrayValue [BulkString ''PING'']))) r' \<and>
    sent (run_sessions r' ! 0) = [serialize_rec reply] \<and> parseImpl (serialize_rec reply) \<noteq> Malformed"
proof -
  let ?r = "sample_server (serialize_rec (ArrayValue [BulkString ''PING'']))"
  obtain r' where run: "(internal_step (\<lambda>k. 0) 1)\<^sup>*\<^sup>* ?r r'" and rest: "\<And>r''. \<not> internal_step (\<lambda>k. 0) 1 r' r''"
    using rest_exists by blast
  note ok = internal_run_ok [OF run ping_sample(1)]
  have j: "0 < length (run_sessions ?r)" by (simp only: ping_sample(3) zero_less_one)
  have settled: "settled (run_sessions r' ! 0)"
    using rest_settled [OF conjunct1 [OF ok] rest internal_run_main [OF run ping_sample(2)]] ok j by metis
  have out: "outcome (\<lambda>k. 0) (pool_size (run_pool ?r)) 1024 (run_sessions ?r ! 0) (run_sessions r' ! 0)"
    by (rule internal_run_outcome [OF run ping_sample(1) j settled])
  then obtain reply where reply: "sent (run_sessions r' ! 0) = [serialize_rec reply]" using ping_outcome(1) by blast
  have "run_sessions r' ! 0 \<in> set (run_sessions r')" using ok j by simp
  moreover have "message_limit (run_sessions r' ! 0) = 64" using outcomeD [OF out] by (auto simp: ping_sample)
  ultimately have "\<exists>vs. resp.drains (serialize_rec reply) vs [] False"
    using replies_readable [OF conjunct1 [OF ok], of "run_sessions r' ! 0"] reply by (auto simp: kMaxBulkSize_def)
  then have "parseImpl (serialize_rec reply) \<noteq> Malformed" by (auto elim: resp.drains.cases)
  with run reply show ?thesis by blast
qed

end
