(* ===== verification/Server_Simulation.thy ===== *)
theory Server_Simulation
  imports Server_Liveness
begin

section \<open>Sequential sessions are behaviours of the running server\<close>

text \<open>
  \<open>Session.drain\<close> describes the inner loop of \<open>Session::run\<close> as a function, for a session that has the
  pool to itself. Here the step relation is shown to implement it: whenever a session of the running
  server holds requests, its own steps can take it to exactly the messages, the buffer and the pool
  that \<open>drain\<close> computes, for any clock readings. What \<open>Session\<close> proves about \<open>drain\<close> so describes
  runs of the server.
\<close>

definition own_step :: "(bytes \<Rightarrow> uint64) \<Rightarrow> uint32 \<Rightarrow> nat \<Rightarrow> Running \<Rightarrow> Running \<Rightarrow> bool" where
  "own_step hash hw j r r' \<longleftrightarrow> (\<exists>a. own j a \<and> server_step hash hw r a r')"

abbreviation session_steps :: "(bytes \<Rightarrow> uint64) \<Rightarrow> uint32 \<Rightarrow> nat \<Rightarrow> Running \<Rightarrow> Running \<Rightarrow> bool" where
  "session_steps hash hw j \<equiv> (own_step hash hw j)\<^sup>*\<^sup>*"

lemma own_stepI:
  "server_step hash hw r (Act_session j) r' \<Longrightarrow> own_step hash hw j r r'"
  "server_step hash hw r (Act_write j) r' \<Longrightarrow> own_step hash hw j r r'"
  by (auto simp: own_step_def own_def)

text \<open>The running server with a given pool and session.\<close>

definition at_state :: "nat \<Rightarrow> ShardPool \<Rightarrow> Session \<Rightarrow> Running \<Rightarrow> Running" where
  "at_state j p s r = set_pool p (set_session j s r)"

lemma at_state_simps [simp]:
  "run_pool (at_state j p s r) = p" "length (run_sessions (at_state j p s r)) = length (run_sessions r)"
  "j < length (run_sessions r) \<Longrightarrow> run_sessions (at_state j p s r) ! j = s"
  "set_session j s' (at_state j p s r) = at_state j p s' r"
  "set_pool p' (at_state j p s r) = at_state j p' s r"
  by (simp_all add: at_state_def set_session_def set_pool_def)

lemma at_state_self: "j < length (run_sessions r) \<Longrightarrow> at_state j (run_pool r) (run_sessions r ! j) r = r"
  by (simp add: at_state_def set_session_def set_pool_def)

text \<open>Running closures does not stop the event loops.\<close>

definition same_loops :: "ShardPool \<Rightarrow> ShardPool \<Rightarrow> bool" where
  "same_loops p p' \<longleftrightarrow> length (workers p') = length (workers p) \<and> (\<forall>i. loop_thread i p' = loop_thread i p)"

lemma same_loops_put_shard: "same_loops p (put_shard i sh p)"
  by (auto simp: same_loops_def loop_thread_def worker_at_def split: std_thread.split)

lemma same_loops_refl: "same_loops p p"
  by (simp add: same_loops_def)

lemma same_loops_trans: "same_loops p q \<Longrightarrow> same_loops q r \<Longrightarrow> same_loops p r"
  by (simp add: same_loops_def)

lemma same_loops_executor: "same_loops p q \<Longrightarrow> new_executor q = new_executor p"
  by (intro new_executor_size) (simp add: same_loops_def pool_size_def)

definition all_loops :: "ShardPool \<Rightarrow> bool" where
  "all_loops p \<longleftrightarrow> (\<forall>i w. worker_at i p = Some w \<longrightarrow> loop_thread i p \<noteq> None)"

lemma all_loops_same: "all_loops p \<Longrightarrow> same_loops p p' \<Longrightarrow> all_loops p'"
  by (auto simp: all_loops_def same_loops_def worker_at_def split: if_splits)

subsection \<open>A command, closure by closure\<close>

lemma run_task_steps:
  assumes "run_task t clks p = Some (v, p')" and "all_loops p" and j: "j < length (run_sessions r)"
  shows "same_loops p p' \<and> session_steps hash hw j
    (at_state j p (s\<lparr>phase := Executing t\<rparr>) r) (at_state j p' (s\<lparr>phase := Executing (Finished v)\<rparr>) r)"
  using assms(1,2)
proof (induction t arbitrary: clks p)
  case (Finished v')
  then show ?case by (simp add: same_loops_refl)
next
  case (OnShard i f)
  then obtain w t1 sh where w: "worker_at i p = Some w" and f: "f (clks 0) (shard w) = Some (t1, sh)"
      and rest: "run_task t1 (\<lambda>k. clks (Suc k)) (put_shard i sh p) = Some (v, p')"
    by (auto split: option.splits)
  obtain th where th: "loop_thread i p = Some th" using OnShard.prems(2) w by (auto simp: all_loops_def)
  let ?r = "at_state j p (s\<lparr>phase := Executing (OnShard i f)\<rparr>) r"
  let ?r1 = "at_state j (put_shard i sh p) (s\<lparr>phase := Executing t1\<rparr>) r"
  have "own_step hash hw j ?r ?r1"
    using step_shard [of j ?r _ i f th w "clks 0" t1 sh hash hw] j w th f by (intro own_stepI(1)) simp
  moreover have "same_loops (put_shard i sh p) p' \<and> session_steps hash hw j ?r1 (at_state j p' (s\<lparr>phase := Executing (Finished v)\<rparr>) r)"
    by (rule OnShard.IH [OF _ _ _ _ rest all_loops_same [OF OnShard.prems(2) same_loops_put_shard], of "f (clks 0)" "f (clks 0) (shard w)" "(t1, sh)"])
      (use f in \<open>auto intro: rangeI [of "f (clks 0)" "shard w", unfolded f]\<close>)
  ultimately show ?case
    using same_loops_trans [OF same_loops_put_shard] by (meson converse_rtranclp_into_rtranclp)
qed

subsection \<open>The inner loop, request by request\<close>

lemma request_step:
  assumes "phase s = Parsing" and "loop_thread (home_shard s) p = Some th" and "j < length (run_sessions r)"
    and "request_turn hash th p s = Some s'"
  shows "own_step hash hw j (at_state j p s r) (at_state j p s' r)"
  using step_request [of j "at_state j p s r" s th hash s' hw] assms by (intro own_stepI(1)) simp

lemma reply_step:
  assumes "phase s = Executing (Finished v)" and "loop_thread (home_shard s) p = Some th" and "j < length (run_sessions r)"
    and "reply_turn v s = Some s'"
  shows "own_step hash hw j (at_state j p s r) (at_state j p s' r)"
  using step_reply [of j "at_state j p s r" s v th s' hash hw] assms by (intro own_stepI(1)) simp

lemma write_step:
  assumes "phase s = Writing close" and "loop_thread (home_shard s) p = Some th" and "j < length (run_sessions r)"
  shows "own_step hash hw j (at_state j p s r) (at_state j p (write_turn close s) r)"
  using step_write [of j "at_state j p s r" s close th hash hw] assms by (intro own_stepI(2)) simp

text \<open>A message that is sent, and then written.\<close>

lemma send_steps:
  assumes "own_step hash hw j x (at_state j p (s\<lparr>sent := sent s @ [message], phase := Writing close\<rparr>) r)"
    and "loop_thread (home_shard s) p = Some th" and "j < length (run_sessions r)"
  shows "session_steps hash hw j x (at_state j p (s\<lparr>sent := sent s @ [message], phase := (if close then Closed else Parsing)\<rparr>) r)"
  using assms(1) write_step [of "s\<lparr>sent := sent s @ [message], phase := Writing close\<rparr>" close p th j r hash hw] assms(2,3)
  by (auto simp: write_turn_def intro: converse_rtranclp_into_rtranclp r_into_rtranclp)

text \<open>Where \<open>drain\<close> leaves the session.\<close>

definition drained :: "Session \<Rightarrow> bytes list \<Rightarrow> bytes \<Rightarrow> bool \<Rightarrow> Session" where
  "drained s messages b bad = s\<lparr>buffer := b, sent := sent s @ messages, phase := (if bad then Closed else Reading)\<rparr>"

lemma execute_steps:
  assumes "phase s = Parsing" and home: "loop_thread (home_shard s) p = Some th" and "all_loops p" and j: "j < length (run_sessions r)"
    and "executor s = new_executor p" and "next_request (buffer s) = Some (ExecuteRequest cmd b)"
    and t: "execute hash th p cmd (Some (home_shard s)) = Some t" and run: "run_task t clks p = Some (v, p1)" and v: "serialize v = Some message"
  shows "same_loops p p1"
    "session_steps hash hw j (at_state j p s r) (at_state j p1 (s\<lparr>buffer := b, sent := sent s @ [message], phase := Parsing\<rparr>) r)"
proof -
  let ?s1 = "s\<lparr>buffer := b, phase := Executing t\<rparr>" and ?s2 = "s\<lparr>buffer := b, phase := Executing (Finished v)\<rparr>"
  have "request_turn hash th p s = Some ?s1"
    using assms(5,6) t by (simp add: request_turn_def execute_def)
  then have first: "own_step hash hw j (at_state j p s r) (at_state j p ?s1 r)"
    using request_step [OF assms(1) home j] by blast
  note steps = run_task_steps [OF run assms(3) j, of hash hw "s\<lparr>buffer := b\<rparr>"]
  have home1: "loop_thread (home_shard s) p1 = Some th" using steps home by (simp add: same_loops_def)
  have "own_step hash hw j (at_state j p1 ?s2 r)
      (at_state j p1 (s\<lparr>buffer := b, sent := sent s @ [message], phase := Writing False\<rparr>) r)"
    using home1 v by (intro reply_step [of _ v _ th] j) (auto simp: reply_turn_def send_def)
  from send_steps [of hash hw j _ p1 False "s\<lparr>buffer := b\<rparr>" message r th] this home1 j
  have "session_steps hash hw j (at_state j p1 ?s2 r) (at_state j p1 (s\<lparr>buffer := b, sent := sent s @ [message], phase := Parsing\<rparr>) r)"
    by simp
  with first steps show "session_steps hash hw j (at_state j p s r) (at_state j p1 (s\<lparr>buffer := b, sent := sent s @ [message], phase := Parsing\<rparr>) r)"
    by (auto intro: converse_rtranclp_into_rtranclp rtranclp_trans)
  show "same_loops p p1" using steps by blast
qed

lemma reject_steps:
  assumes "phase s = Parsing" and "loop_thread (home_shard s) p = Some th" and "j < length (run_sessions r)"
    and "next_request (buffer s) = Some (RejectRequest b)" and "serialize invalid_reply = Some message"
  shows "session_steps hash hw j (at_state j p s r) (at_state j p (s\<lparr>buffer := b, sent := sent s @ [message], phase := Parsing\<rparr>) r)"
proof -
  have "own_step hash hw j (at_state j p s r) (at_state j p (s\<lparr>buffer := b, sent := sent s @ [message], phase := Writing False\<rparr>) r)"
    using assms(4,5) by (intro request_step [OF assms(1-3)]) (simp add: request_turn_def send_def)
  with send_steps [of hash hw j _ p False "s\<lparr>buffer := b\<rparr>" message r th] assms(1-3) show ?thesis by simp
qed

lemma drain_steps:
  assumes "drain hash th (home_shard s) clks (buffer s) p = Some (messages, b', bad, p')" and "phase s = Parsing"
    and "loop_thread (home_shard s) p = Some th" and "all_loops p" and j: "j < length (run_sessions r)" and "executor s = new_executor p"
  shows "session_steps hash hw j (at_state j p s r) (at_state j p' (drained s messages b' bad) r)"
  using assms(1-4,6)
proof (induction "length (buffer s)" arbitrary: s clks p messages rule: less_induct)
  case less
  note step = request_step [OF less.prems(2,3) j, of hash]
  show ?case
  proof (cases rule: next_request_cases [of "buffer s"])
    case 1
    with less.prems(1) have "messages = []" "b' = buffer s" "\<not> bad" "p' = p"
      by (auto simp: drain.simps [of hash th _ _ "buffer s"])
    with 1 step [of "s\<lparr>phase := Reading\<rparr>"] show ?thesis by (auto simp: request_turn_def drained_def)
  next
    case 2
    with less.prems(1) obtain message where "serialize malformed_reply = Some message" "messages = [message]" "b' = buffer s" "bad" "p' = p"
      by (auto simp: drain.simps [of hash th _ _ "buffer s"])
    with 2 step [of "s\<lparr>sent := sent s @ [message], phase := Writing True\<rparr>"] send_steps [of hash hw j _ p True s message r th] less.prems(3) j
    show ?thesis by (auto simp: request_turn_def drained_def send_def)
  next
    case (3 b)
    with less.prems(1) obtain message ms where ms: "serialize invalid_reply = Some message" "messages = message # ms"
        "drain hash th (home_shard s) (\<lambda>i. clks (Suc i)) b p = Some (ms, b', bad, p')"
      by (auto simp: drain.simps [of hash th _ _ "buffer s"] split: Option.bind_splits)
    let ?s = "s\<lparr>buffer := b, sent := sent s @ [message], phase := Parsing\<rparr>"
    have "session_steps hash hw j (at_state j p s r) (at_state j p ?s r)"
      by (rule reject_steps [OF less.prems(2,3) j 3(1) ms(1)])
    moreover have "session_steps hash hw j (at_state j p ?s r) (at_state j p' (drained ?s ms b' bad) r)"
      using less.prems ms(3) next_request_shrinks(1) [OF 3(1)] by (intro less.hyps) simp_all
    ultimately show ?thesis by (simp add: drained_def ms(2))
  next
    case (4 cmd b)
    with less.prems(1) obtain t v p1 message ms where t: "execute hash th p cmd (Some (home_shard s)) = Some t"
        "run_task t (clks 0) p = Some (v, p1)" "serialize v = Some message" "messages = message # ms"
        "drain hash th (home_shard s) (\<lambda>i. clks (Suc i)) b p1 = Some (ms, b', bad, p')"
      by (auto simp: drain.simps [of hash th _ _ "buffer s"] split: Option.bind_splits)
    let ?s = "s\<lparr>buffer := b, sent := sent s @ [message], phase := Parsing\<rparr>"
    note exec = execute_steps [OF less.prems(2-4) j less.prems(5) 4(1) t(1-3)]
    have "session_steps hash hw j (at_state j p1 ?s r) (at_state j p' (drained ?s ms b' bad) r)"
      using less.prems t(5) next_request_shrinks(2) [OF 4(1)] exec(1) all_loops_same [OF less.prems(4) exec(1)]
        same_loops_executor [OF exec(1)] by (intro less.hyps) (simp_all add: same_loops_def)
    moreover have "drained ?s ms b' bad = drained s messages b' bad" by (simp add: drained_def t(4))
    ultimately show ?thesis using rtranclp_trans [OF exec(2) [of hw]] by simp
  qed
qed

lemma loops_all:
  assumes "server_ok hash hw m r" and "in_loops (run_pool r)"
  shows "all_loops (run_pool r)"
  using loop_thread_exists [OF assms] worker_at_less(1) [OF server_okD(1) [OF assms(1)]] by (fastforce simp: all_loops_def)

subsection \<open>Properties\<close>

text \<open>C13: The running server implements the sequential session. While the worker threads run, a session
  that is about to look at its buffer can, by its own steps and completed writes alone and for any clock readings, reach
  the state that the sequential description of the inner loop computes: the same messages, the same
  rest of the buffer, closed exactly when the sequential loop closes, and the same pool.\<close>

theorem session_implements_drain:
  assumes "server_ok hash hw m r" and "in_loops (run_pool r)"
    and "j < length (run_sessions r)" and "run_sessions r ! j = s" and "phase s = Parsing"
  shows "\<exists>th messages b bad p. loop_thread (home_shard s) (run_pool r) = Some th \<and>
    drain hash th (home_shard s) clks (buffer s) (run_pool r) = Some (messages, b, bad, p) \<and>
    session_steps hash hw j r (set_pool p (set_session j
      (s\<lparr>buffer := b, sent := sent s @ messages, phase := (if bad then Closed else Reading)\<rparr>) r))"
proof -
  have pool: "pool_ok hash m (run_pool r)" and s: "session_ok hash (run_pool r) m s"
    using server_okD(1,2) [OF assms(1)] assms(3,4) by auto
  obtain th where th: "loop_thread (home_shard s) (run_pool r) = Some th"
    using loop_thread_exists [OF assms(1,2) session_okD(1) [OF s]] by blast
  obtain vs b bad where "resp.drains (buffer s) vs b bad" using resp.drains_total by blast
  from serve_drained [OF pool session_okD(1,2) [OF s] this, of th clks] obtain messages p where
    d: "drain hash th (home_shard s) clks (buffer s) (run_pool r) = Some (messages, b, bad, p)" by blast
  have "executor s = new_executor (run_pool r)" using s by (simp add: session_ok_def)
  from drain_steps [OF d assms(5) th loops_all [OF assms(1,2)] assms(3) this, of hw] th d assms(3,4) at_state_self [of j r]
  show ?thesis by (auto simp: at_state_def drained_def)
qed

theorem session_implements_drain_witness:
  "\<exists>messages r'. drain (\<lambda>k. 0) 0 0 (\<lambda>i j k. 0) (serialize_rec (ArrayValue [BulkString ''PING'']))
      (run_pool (sample_server (serialize_rec (ArrayValue [BulkString ''PING''])))) = Some messages \<and>
    session_steps (\<lambda>k. 0) 1 0 (sample_server (serialize_rec (ArrayValue [BulkString ''PING'']))) r' \<and>
    sent (run_sessions r' ! 0) = fst messages"
proof -
  let ?r = "sample_server (serialize_rec (ArrayValue [BulkString ''PING'']))"
  have loops: "in_loops (run_pool ?r)" "loop_thread 0 (run_pool ?r) = Some 0"
    by (simp_all add: sample_pool in_loops_def loop_thread_def worker_at_def new_worker_def)
  have s: "home_shard (run_sessions ?r ! 0) = 0" by (simp add: sample_server_def new_session_def Let_def)
  have "0 < length (run_sessions ?r)" by (simp only: ping_sample(3) zero_less_one)
  from session_implements_drain [OF ping_sample(1) [of "\<lambda>k. 0" 1] loops(1) this refl ping_sample(5), of "\<lambda>i j k. 0"]
  obtain messages b bad p where d: "drain (\<lambda>k. 0) 0 0 (\<lambda>i j k. 0) (buffer (run_sessions ?r ! 0)) (run_pool ?r) = Some (messages, b, bad, p)"
      "session_steps (\<lambda>k. 0) 1 0 ?r (set_pool p (set_session 0 ((run_sessions ?r ! 0)
        \<lparr>buffer := b, sent := sent (run_sessions ?r ! 0) @ messages, phase := (if bad then Closed else Reading)\<rparr>) ?r))"
    unfolding s loops(2) by (metis option.inject)
  note d(1) [unfolded ping_sample(4)]
  moreover have "sent (run_sessions (set_pool p (set_session 0 ((run_sessions ?r ! 0)
        \<lparr>buffer := b, sent := sent (run_sessions ?r ! 0) @ messages, phase := (if bad then Closed else Reading)\<rparr>) ?r)) ! 0) = messages"
    using ping_sample(3,6) by simp
  ultimately show ?thesis using d(2) by (metis fst_conv)
qed

end
