(* ===== verification/Server_Linearizable.thy ===== *)
theory Server_Linearizable
  imports Atomic_Server Server_Simulation
begin

section \<open>The running server implements the abstract server\<close>

text \<open>
  Every run of the server of \<open>Concurrent_Server\<close>, with any number of connections and any interleaving of
  their closures on the worker threads, is explained by a run of the abstract server of
  \<open>Atomic_Server\<close>: the same commands are taken up and the same replies are given in the same order, and
  the shards hold the same entries and counters. \<open>serves\<close> relates a suspended coroutine to the activity it works
  on, \<open>matches\<close> the states of the two servers; the simulation is an interpretation of
  \<open>forward_simulation\<close>.
\<close>

subsection \<open>Coroutines and activities\<close>

lemma key_shard_index:
  assumes "getShardIndex hash k n = Some i"
  shows "key_shard hash (unat n) k = unat i"
  using assms by (auto simp: getShardIndex_def key_shard_def unat_mod split: if_splits)

text \<open>\<open>serves hash n m x t\<close>: the coroutine \<open>t\<close> does what remains of the activity \<open>x\<close>.\<close>

inductive serves :: "(bytes \<Rightarrow> uint64) \<Rightarrow> size_t \<Rightarrow> size_t \<Rightarrow> activity \<Rightarrow> RespValue task \<Rightarrow> bool" for hash n m where
  serves_answer: "answer x = Some v \<Longrightarrow> serves hash n m x (Finished v)"
| serves_call: "keyed cmd \<Longrightarrow> valid_command cmd \<Longrightarrow> cmd_fits m cmd \<Longrightarrow> getShardIndex hash (hd (cmd_args cmd)) n = Some i \<Longrightarrow>
    serves hash n m (Calling cmd) (run_on_shard i (keyed_fn cmd) Finished)"
| serves_delete: "set keys = {k \<in> ks. key_shard hash (unat n) k = unat i} \<Longrightarrow>
    (\<And>count. serves hash n m (Deleting (ks - set keys) (c + count)) (rest count)) \<Longrightarrow>
    serves hash n m (Deleting ks c) (run_on_shard i (processDelKeys keys) rest)"
| serves_count: "unat i \<in> is \<Longrightarrow>
    (\<And>st. serves hash n m (Counting (is - {unat i}) (add_stats acc st)) (rest st)) \<Longrightarrow>
    serves hash n m (Counting is acc) (run_on_shard i (\<lambda>clk s. Some (get_stats s, s)) rest)"

inductive_cases serves_FinishedE: "serves hash n m x (Finished v)"
inductive_cases serves_OnShardE: "serves hash n m x (OnShard i f)"

lemma serves_Finished: "serves hash n m x (Finished v) \<Longrightarrow> answer x = Some v"
  by (erule serves_FinishedE) (simp_all add: run_on_shard_def)

text \<open>A closure makes a step of the abstract server.\<close>

lemma closure_step:
  assumes "serves hash n m x (OnShard i f)" and "shard_ok hash n m i s" and "f clk s = Some (t, s')"
    and "activities a j = x" and "caches a ! unat i = cache_of s" and "unat i < length (caches a)" and "length (caches a) = unat n"
  shows "\<exists>x'. atomic_step hash m a [] (act j x' (set_cache (unat i) (cache_of s') a)) \<and> serves hash n m x' t"
  using assms(1)
proof (cases rule: serves.cases)
  case (serves_call cmd i')
  then have i: "i' = i" and f: "f = (\<lambda>clk s. map_option (\<lambda>(r, s'). (Finished r, s')) (keyed_fn cmd clk s))"
    by (simp_all add: run_on_shard_def)
  obtain v where v: "keyed_fn cmd clk s = Some (v, s')" "t = Finished v" using assms(3) f by auto
  have c: "cache_keyed (unat m) cmd clk (caches a ! unat i) = (v, cache_of s')"
    using cache_keyed_refines [OF assms(2) _ _ _ _ v(1)] serves_call i assms(5) by simp
  have "key_shard hash (length (caches a)) (hd (cmd_args cmd)) = unat i"
    using key_shard_index serves_call(6) i assms(7) by simp
  from atomic_call [OF _ this c] assms(4) serves_call(1) show ?thesis
    unfolding v(2) by (intro exI [of _ "Answered v"]) (simp add: serves_answer)
next
  case (serves_delete keys ks i' c rest)
  then have i: "i' = i" and f: "f = (\<lambda>clk s. map_option (\<lambda>(r, s'). (rest r, s')) (processDelKeys keys clk s))"
    by (simp_all add: run_on_shard_def)
  let ?count = "of_nat (card (set keys \<inter> entry_keys (cached (caches a ! unat i))))"
  have t: "t = rest ?count" "cache_of s' = cache_delete (set keys) (caches a ! unat i)"
    using cache_delete_refines [OF assms(2), of keys clk] assms(3,5) f by auto
  have "set keys = {k \<in> ks. key_shard hash (length (caches a)) k = unat i}" using serves_delete(3) i assms(7) by simp
  from atomic_delete [OF _ assms(6) this] assms(4) serves_delete(1,4) show ?thesis
    unfolding t by (intro exI [of _ "Deleting (ks - set keys) (c + ?count)"]) simp
next
  case (serves_count i' "is" acc rest)
  then have i: "i' = i" and f: "f = (\<lambda>clk s. Some (rest (get_stats s), s))" by (simp_all add: run_on_shard_def)
  have t: "t = rest (get_stats s)" "s' = s" using assms(3) f by auto
  have "set_cache (unat i) (cache_of s') a = a" using assms(5) t(2) by (simp add: set_cache_def flip: assms(5))
  moreover have "cache_stats m (caches a ! unat i) = get_stats s" using cache_stats_refines [OF assms(2)] assms(5) by simp
  ultimately show ?thesis
    using atomic_count [of a j "is" acc "unat i" hash m] assms(4) serves_count(1,3,4) i t(1) by auto
qed

subsection \<open>Taking up a command\<close>

lemma serves_del_remote:
  assumes "i + length gs \<le> unat n" and "\<And>j. j < length gs \<Longrightarrow> set (gs ! j) = {k \<in> ks. key_shard hash (unat n) k = i + j}"
    and "\<And>k. k \<in> ks \<Longrightarrow> i \<le> key_shard hash (unat n) k \<and> key_shard hash (unat n) k < i + length gs"
  shows "serves hash n m (Deleting ks c) (del_remote i gs c)"
  using assms
proof (induction gs arbitrary: i ks c)
  case Nil
  then have "ks = {}" by fastforce
  then show ?case by (simp add: reply_count_def serves_answer)
next
  case (Cons keys gs)
  have keys: "set keys = {k \<in> ks. key_shard hash (unat n) k = i}" using Cons.prems(2) [of 0] by simp
  have rest: "serves hash n m (Deleting (ks - set keys) c') (del_remote (Suc i) gs c')" for c'
  proof (rule Cons.IH)
    show "set (gs ! j) = {k \<in> ks - set keys. key_shard hash (unat n) k = Suc i + j}" if "j < length gs" for j
      using Cons.prems(2) [of "Suc j"] that by (auto simp: keys)
    show "Suc i \<le> key_shard hash (unat n) k \<and> key_shard hash (unat n) k < Suc i + length gs" if "k \<in> ks - set keys" for k
      using Cons.prems(3) [of k] that by (auto simp: keys)
  qed (use Cons.prems(1) in simp)
  have "i < 2 ^ 64" using Cons.prems(1) unat64_less [of n] by simp
  then have i: "unat (of_nat i :: size_t) = i" by (rule unat64_of_nat)
  show ?case
  proof (cases "keys = []")
    case True
    then show ?thesis using rest [of c] by simp
  next
    case False
    have "serves hash n m (Deleting ks c) (run_on_shard (of_nat i) (processDelKeys keys) (\<lambda>count. del_remote (Suc i) gs (c + count)))"
      using keys rest i by (intro serves_delete) simp_all
    with False show ?thesis by simp
  qed
qed

lemma serves_info_loop:
  assumes "distinct is"
  shows "serves hash n m (Counting (unat ` set is) acc) (info_loop is acc)"
  using assms
proof (induction "is" arbitrary: acc)
  case (Cons i "is")
  then have "unat ` set (i # is) - {unat i} = unat ` set is" by (auto simp flip: word_unat_eq_iff)
  with Cons show ?case using serves_count [of i "unat ` set (i # is)"] by simp
qed (simp add: serves_answer)

lemma serves_del:
  assumes pool: "pool_ok hash m p" and "cmd_type cmd = Cmd_kDel" and "home_ok p home" and t: "execute hash th p cmd home = Some t"
  shows "serves hash (pool_size p) m (Deleting (set (cmd_args cmd)) 0) t"
proof -
  let ?n = "pool_size p" and ?ks = "set (cmd_args cmd)"
  let ?gs = "map (key_group hash ?n (cmd_args cmd)) [0..<length (workers p)]"
  note size = pool_okD(1,2) [OF pool]
  have index: "getShardIndex hash k ?n = Some i \<longleftrightarrow> key_shard hash (unat ?n) k = unat i" for k i
    using getShardIndex_total [OF size(2), of hash k] key_shard_index [of hash k ?n] by (metis option.inject word_unat_eq_iff)
  have bound: "key_shard hash (unat ?n) k < length (workers p)" for k
    using pool by (simp add: key_shard_def size(1) pool_ok_def)
  have group: "set (?gs ! j) = {k \<in> ?ks. key_shard hash (unat ?n) k = j}" if "j < length (workers p)" for j
  proof -
    have "unat (of_nat j :: size_t) = j" using that pool by (intro unat64_of_nat) (simp add: pool_ok_def)
    then show ?thesis using that index by (auto simp: key_group_def)
  qed
  have remote: "serves hash ?n m (Deleting ks c) (del_remote 0 gs c)"
    if "length gs = length (workers p)" "\<And>j. j < length gs \<Longrightarrow> set (gs ! j) = {k \<in> ks. key_shard hash (unat ?n) k = j}" for gs ks c
    using that bound size(1) by (intro serves_del_remote) simp_all
  show ?thesis
  proof (cases "?n = 1")
    case True
    then have "t = run_on_shard 0 (processDelKeys (cmd_args cmd)) reply_count"
      using t single_del [OF pool assms(2)] by (simp add: execute_eq)
    moreover have "key_shard hash (unat ?n) k = 0" for k using True by (simp add: key_shard_def)
    ultimately show ?thesis by (auto intro!: serves_delete serves_answer simp: reply_count_def)
  next
    case False
    then have "execute_multi_shard hash th p cmd home = Some t" using t by (simp add: execute_eq)
    with multi_del [OF pool assms(2,3) refl, of th] consider "t = del_remote 0 ?gs 0"
      | h where "h < ?n" "t = run_on_shard h (processDelKeys (?gs ! unat h)) (\<lambda>count. del_remote 0 (?gs[unat h := []]) count)"
      by auto
    then show ?thesis
    proof cases
      case 1
      then show ?thesis using remote [of ?gs ?ks] group by simp
    next
      case (2 h)
      have h: "unat h < length (workers p)" using 2(1) size(1) by (simp add: word_less_nat_alt)
      have "serves hash ?n m (Deleting (?ks - set (?gs ! unat h)) c) (del_remote 0 (?gs[unat h := []]) c)" for c
        using group h by (intro remote) (auto simp: nth_list_update simp del: nth_map)
      with 2(2) group [OF h] show ?thesis by (auto intro!: serves_delete simp del: nth_map)
    qed
  qed
qed

lemma serves_take_up:
  assumes pool: "pool_ok hash m p" and cmd: "valid_command cmd" "cmd_fits m cmd" and home: "home_ok p home"
    and t: "execute hash th p cmd home = Some t"
  shows "serves hash (pool_size p) m (take_up (length (workers p)) cmd) t"
  using cmd(1)
proof (cases rule: command_cases)
  case keyed
  then have "take_up (length (workers p)) cmd = Calling cmd" by (auto simp: take_up_def keyed_def)
  with execute_keyed [OF pool keyed cmd(1) home, of th] t keyed cmd show ?thesis by (auto intro: serves_call)
next
  case del
  then show ?thesis using serves_del [OF pool del home t] by (simp add: take_up_def)
next
  case keyless
  have t: "keyless_task p cmd = Some t" using execute_keyless [OF pool keyless home] t by simp
  show ?thesis
  proof (cases "cmd_type cmd = Cmd_kInfo")
    case True
    let ?is = "map of_nat [0..<unat (pool_size p)] :: size_t list"
    have "length (workers p) < 2 ^ 64" using pool by (simp add: pool_ok_def)
    then have "unat (of_nat j :: size_t) = j" if "j < length (workers p)" for j
      using that by (intro unat64_of_nat) simp
    then have "distinct ?is" "unat ` set ?is = {..<length (workers p)}"
      using pool_okD(1) [OF pool] by (auto simp: distinct_map image_image intro!: inj_onI) (metis)
    with serves_info_loop [of ?is hash "pool_size p" m zero_stats] True t show ?thesis
      by (auto simp: keyless_task_def take_up_def processInfoCommand_def info_section_def Let_def serves_answer split: list.splits if_splits)
  next
    case False
    then show ?thesis
      using keyless t valid_shapes(4) [OF cmd(1)]
      by (auto simp: keyless_def keyless_task_def take_up_def config_reply_def config_eq intro!: serves_answer)
  qed
qed

subsection \<open>The simulation\<close>

text \<open>What is seen of a step: a command is taken up, a reply is handed to the socket.\<close>

definition observe :: "Running \<Rightarrow> actor \<Rightarrow> event list" where
  "observe r a =
     (case a of
        Act_session j \<Rightarrow>
          (case phase (run_sessions r ! j) of
             Parsing \<Rightarrow>
               (case next_request (buffer (run_sessions r ! j)) of
                  Some (ExecuteRequest cmd b) \<Rightarrow> [Invoke j cmd]
                | Some (RejectRequest b) \<Rightarrow> [Refuse j invalid_reply]
                | Some (RejectStream b) \<Rightarrow> [Refuse j malformed_reply]
                | _ \<Rightarrow> [])
           | Executing (Finished v) \<Rightarrow> [Respond j v]
           | Reading \<Rightarrow> [Refuse j too_large_reply]
           | _ \<Rightarrow> [])
      | _ \<Rightarrow> [])"

definition phase_matches :: "(bytes \<Rightarrow> uint64) \<Rightarrow> size_t \<Rightarrow> size_t \<Rightarrow> activity \<Rightarrow> phase \<Rightarrow> bool" where
  "phase_matches hash n m x ph \<longleftrightarrow> (case ph of Executing t \<Rightarrow> serves hash n m x t | _ \<Rightarrow> x = Idle)"

definition phase_of :: "Running \<Rightarrow> nat \<Rightarrow> phase" where
  "phase_of r j = (if j < length (run_sessions r) then phase (run_sessions r ! j) else Closed)"

definition pool_caches :: "ShardPool \<Rightarrow> Cache list" where
  "pool_caches p = map (\<lambda>w. cache_of (shard w)) (workers p)"

definition matches :: "(bytes \<Rightarrow> uint64) \<Rightarrow> size_t \<Rightarrow> Running \<Rightarrow> Atomic \<Rightarrow> bool" where
  "matches hash m r a \<longleftrightarrow>
     caches a = pool_caches (run_pool r) \<and> (\<forall>j. phase_matches hash (pool_size (run_pool r)) m (activities a j) (phase_of r j))"

lemma phase_matches_simps [simp]:
  "phase_matches hash n m x (Executing t) = serves hash n m x t" "phase_matches hash n m x Parsing = (x = Idle)"
  "phase_matches hash n m x (Writing close) = (x = Idle)" "phase_matches hash n m x Reading = (x = Idle)"
  "phase_matches hash n m x Closed = (x = Idle)"
  by (simp_all add: phase_matches_def)

lemma pool_caches_simps [simp]:
  "length (pool_caches p) = length (workers p)"
  "j < length (workers p) \<Longrightarrow> pool_caches p ! j = cache_of (shard (workers p ! j))"
  "unat i < length (workers p) \<Longrightarrow> pool_caches (put_shard i s p) = (pool_caches p)[unat i := cache_of s]"
  by (simp_all add: pool_caches_def put_shard_def map_update)

lemma act_fields [simp]:
  "caches (act j x a) = caches a" "activities (act j x a) = (activities a)(j := x)" "act j (activities a j) a = a"
  "caches (set_cache i es a) = (caches a)[i := es]" "activities (set_cache i es a) = activities a"
  by (simp_all add: act_def set_cache_def)

lemma phase_of_simps [simp]:
  "j < length (run_sessions r) \<Longrightarrow> phase_of (set_session j s r) = (phase_of r)(j := phase s)"
  "phase_of (set_pool p r) = phase_of r" "phase_of (r\<lparr>wake_times := wakes\<rparr>) = phase_of r"
  "phase_of (r\<lparr>run_main := main\<rparr>) = phase_of r" "phase_of (r\<lparr>run_server := srv\<rparr>) = phase_of r"
  by (auto simp: phase_of_def fun_eq_iff nth_list_update)

lemma matches_phase:
  "matches hash m r a \<Longrightarrow> j < length (run_sessions r) \<Longrightarrow>
    phase_matches hash (pool_size (run_pool r)) m (activities a j) (phase (run_sessions r ! j))"
  unfolding matches_def phase_of_def by (metis (full_types))

lemma matches_set_session:
  assumes "matches hash m r a" and "j < length (run_sessions r)" and "phase_matches hash (pool_size (run_pool r)) m x (phase s)"
  shows "matches hash m (set_session j s r) (act j x a)"
  using assms by (simp add: matches_def)

lemma matches_same_phase:
  assumes "matches hash m r a" and "j < length (run_sessions r)" and "phase_matches hash (pool_size (run_pool r)) m (activities a j) (phase s)"
  shows "matches hash m (set_session j s r) a"
  using matches_set_session [OF assms] by simp

lemma matches_same_view:
  assumes "matches hash m r a" and "map shard (workers p) = map shard (workers (run_pool r))"
  shows "matches hash m (set_pool p (r\<lparr>wake_times := wakes, run_main := main\<rparr>)) a"
proof -
  have "pool_caches p = pool_caches (run_pool r)"
    using assms(2) by (simp add: pool_caches_def flip: map_map [of cache_of shard, unfolded comp_def])
  moreover have "pool_size p = pool_size (run_pool r)" using assms(2) by (metis length_map pool_size_def)
  ultimately show ?thesis using assms(1) by (simp add: matches_def)
qed

lemma matches_put_shard:
  assumes "matches hash m r a" and "unat i < length (workers (run_pool r))"
  shows "matches hash m (set_pool (put_shard i sh (run_pool r)) (r\<lparr>wake_times := wakes\<rparr>)) (set_cache (unat i) (cache_of sh) a)"
  using assms by (simp add: matches_def)

lemma matches_idle:
  assumes "matches hash m r a" and "j < length (run_sessions r)" and "\<forall>t. phase (run_sessions r ! j) \<noteq> Executing t"
  shows "activities a j = Idle"
  using matches_phase [OF assms(1,2)] assms(3) by (cases "phase (run_sessions r ! j)") simp_all

text \<open>The steps of a session.\<close>

lemma request_matches:
  assumes ok: "server_ok hash hw m r" and a: "matches hash m r a" and j: "j < length (run_sessions r)"
    and "phase (run_sessions r ! j) = Parsing" and turn: "request_turn hash th (run_pool r) (run_sessions r ! j) = Some s'"
  shows "\<exists>a'. atomic_run hash m a (observe r (Act_session j)) a' \<and> matches hash m (set_session j s' r) a'"
proof -
  let ?s = "run_sessions r ! j"
  have idle: "activities a j = Idle" using matches_idle [OF a j] assms(4) by simp
  note pool = server_okD(1) [OF ok] and s = server_okD(2) [OF ok j]
  show ?thesis
  proof (cases rule: next_request_cases [of "buffer ?s"])
    case 1
    then have "observe r (Act_session j) = []" "phase s' = Reading" using turn assms(4) by (auto simp: observe_def request_turn_def)
    then show ?thesis using matches_same_phase [OF a j, of s'] idle event_run_start by fastforce
  next
    case 2
    then have "observe r (Act_session j) = [Refuse j malformed_reply]" "phase s' = Writing True"
      using turn assms(4) by (auto simp: observe_def request_turn_def send_Some)
    then show ?thesis using matches_same_phase [OF a j, of s'] idle atomic_run_single [OF atomic_refuse [OF idle]] by fastforce
  next
    case (3 b)
    then have "observe r (Act_session j) = [Refuse j invalid_reply]" "phase s' = Writing False"
      using turn assms(4) by (auto simp: observe_def request_turn_def send_Some)
    then show ?thesis using matches_same_phase [OF a j, of s'] idle atomic_run_single [OF atomic_refuse [OF idle]] by fastforce
  next
    case (4 cmd b)
    then obtain t where t: "execute hash th (run_pool r) cmd (Some (home_shard ?s)) = Some t" "phase s' = Executing t"
      using turn session_okD(4) [OF s] by (auto simp: request_turn_def)
    have "home_ok (run_pool r) (Some (home_shard ?s))" using session_okD(1) [OF s] by (simp add: home_ok_def)
    from serves_take_up [OF pool 4(3) 4(5) [OF session_okD(2) [OF s]] this t(1)] t(2)
    have "phase_matches hash (pool_size (run_pool r)) m (take_up (length (caches a)) cmd) (phase s')"
      using a by (simp add: matches_def)
    moreover have "observe r (Act_session j) = [Invoke j cmd]" using 4 assms(4) by (simp add: observe_def)
    ultimately show ?thesis
      using matches_set_session [OF a j] atomic_run_single [OF atomic_invoke [OF idle 4(3)]] by metis
  qed
qed

lemma reply_matches:
  assumes a: "matches hash m r a" and j: "j < length (run_sessions r)" and "phase (run_sessions r ! j) = Executing (Finished v)"
    and "reply_turn v (run_sessions r ! j) = Some s'"
  shows "\<exists>a'. atomic_run hash m a (observe r (Act_session j)) a' \<and> matches hash m (set_session j s' r) a'"
proof -
  have "serves hash (pool_size (run_pool r)) m (activities a j) (Finished v)"
    using matches_phase [OF a j] assms(3) by simp
  note respond = atomic_run_single [OF atomic_respond [OF serves_Finished [OF this], of hash m]]
  have "phase s' = Writing False" using assms(4) by (auto simp: reply_turn_def dest: send_fields)
  then have "matches hash m (set_session j s' r) (act j Idle a)" by (intro matches_set_session [OF a j]) simp
  moreover have "observe r (Act_session j) = [Respond j v]" using assms(3) by (simp add: observe_def)
  ultimately show ?thesis using respond by metis
qed

lemma set_pool_session: "set_pool p (set_session j s r) = set_session j s (set_pool p r)"
  by (cases r) (simp add: set_session_def set_pool_def)

lemma shard_matches:
  assumes ok: "server_ok hash hw m r" and a: "matches hash m r a" and j: "j < length (run_sessions r)"
    and "phase (run_sessions r ! j) = Executing (OnShard i f)" and w: "worker_at i (run_pool r) = Some w"
    and f: "f clk (shard w) = Some (t, sh)"
  shows "\<exists>a'. atomic_run hash m a (observe r (Act_session j)) a' \<and>
    matches hash m (set_pool (put_shard i sh (run_pool r)) (set_session j ((run_sessions r ! j)\<lparr>phase := Executing t\<rparr>) r)) a'"
proof -
  let ?n = "pool_size (run_pool r)"
  note pool = server_okD(1) [OF ok]
  note i = worker_at_less [OF pool w]
  have less: "unat i < length (workers (run_pool r))" and view: "caches a ! unat i = cache_of (shard w)" and n: "length (caches a) = unat ?n"
    using a w pool_okD(1) [OF pool] by (auto simp: matches_def worker_at_def split: if_splits)
  have "serves hash ?n m (activities a j) (OnShard i f)"
    using matches_phase [OF a j] assms(4) by simp
  from closure_step [OF this i(2) f refl view _ n] less a obtain x where
    x: "atomic_step hash m a [] (act j x (set_cache (unat i) (cache_of sh) a))" "serves hash ?n m x t"
    by (auto simp: matches_def)
  have "matches hash m (set_pool (put_shard i sh (run_pool r)) r) (set_cache (unat i) (cache_of sh) a)"
    using matches_put_shard [OF a less, of sh "wake_times r"] by simp
  from matches_set_session [OF this, of j x "(run_sessions r ! j)\<lparr>phase := Executing t\<rparr>"] j x(2)
  have "matches hash m (set_pool (put_shard i sh (run_pool r)) (set_session j ((run_sessions r ! j)\<lparr>phase := Executing t\<rparr>) r))
      (act j x (set_cache (unat i) (cache_of sh) a))"
    by (simp add: set_pool_session)
  moreover have "observe r (Act_session j) = []" using assms(4) by (simp add: observe_def)
  ultimately show ?thesis using atomic_run_single [OF x(1)] by metis
qed

lemma read_phase:
  assumes "read_turn event s = Some s'"
  shows "unat (message_limit s) \<le> length (buffer s) \<Longrightarrow> phase s' = Writing True"
    "length (buffer s) < unat (message_limit s) \<Longrightarrow> phase s' \<in> {Parsing, Closed}"
  using assms by (auto simp: read_turn_def session_read_def dest: send_fields split: read_event.splits if_splits)

lemma silent_match:
  "matches hash m r' a \<Longrightarrow> es = [] \<Longrightarrow> \<exists>a'. atomic_run hash m a es a' \<and> matches hash m r' a'"
  using event_run_start by metis

lemma clean_matches:
  assumes ok: "server_ok hash hw m r" and a: "matches hash m r a" and w: "worker_at i (run_pool r) = Some w"
    and "cleaning_turn clk (shard w) = Some (wake, sh)"
  shows "\<exists>a'. atomic_run hash m a [] a' \<and> matches hash m (set_pool (put_shard i sh (run_pool r)) (r\<lparr>wake_times := wakes\<rparr>)) a'"
proof -
  have less: "unat i < length (workers (run_pool r))" and view: "caches a ! unat i = cache_of (shard w)"
    using a w by (auto simp: matches_def worker_at_def split: if_splits)
  have "cache_of sh = cache_purge (clk 0) (caches a ! unat i)"
    using cache_purge_refines [OF worker_at_less(2) [OF server_okD(1) [OF ok] w] assms(4)] view by simp
  moreover have "unat i < length (caches a)" using a less by (simp add: matches_def)
  ultimately have "atomic_step hash m a [] (set_cache (unat i) (cache_of sh) a)" by (simp add: atomic_purge)
  from atomic_run_single [OF this] matches_put_shard [OF a less, of sh wakes] show ?thesis by blast
qed

lemma pool_step_matches:
  assumes "matches hash m r a" and "map shard (workers p) = map shard (workers (run_pool r))"
  shows "matches hash m (set_pool p r) a" "matches hash m (set_pool p (r\<lparr>wake_times := wakes\<rparr>)) a"
    "matches hash m (set_pool p (r\<lparr>run_main := main\<rparr>)) a"
  using matches_same_view [OF assms, where wakes = "wake_times r" and main = "run_main r"]
    matches_same_view [OF assms, where wakes = wakes and main = "run_main r"]
    matches_same_view [OF assms, where wakes = "wake_times r" and main = main] by simp_all

lemma accept_matches:
  assumes ok: "server_ok hash hw m r" and a: "matches hash m r a" and turn: "listener_turn (run_server r) = (home, srv)"
  shows "matches hash m (r\<lparr>run_server := srv\<rparr>) a"
    "matches hash m (r\<lparr>run_server := srv, run_sessions := run_sessions r @ [new_session (shard_pool srv) home limit]\<rparr>) a"
proof -
  note same = server_ok_listener(2) [OF ok turn]
  show "matches hash m (r\<lparr>run_server := srv\<rparr>) a" using a same by (simp add: matches_def)
  have "phase_of (r\<lparr>run_server := srv, run_sessions := run_sessions r @ [new_session (shard_pool srv) home limit]\<rparr>) =
      (phase_of r)(length (run_sessions r) := Parsing)"
    by (auto simp: phase_of_def fun_eq_iff nth_append new_session_def)
  moreover have "activities a (length (run_sessions r)) = Idle"
    using a by (auto simp: matches_def phase_of_def dest: spec [of _ "length (run_sessions r)"])
  ultimately show "matches hash m (r\<lparr>run_server := srv, run_sessions := run_sessions r @ [new_session (shard_pool srv) home limit]\<rparr>) a"
    using a same by (simp add: matches_def)
qed

lemma join_keeps_shards:
  assumes "join_threads p = Some p'"
  shows "map shard (workers p') = map shard (workers p)"
proof -
  have "list_all2 (\<lambda>w w'. shard w' = shard w) (workers p) (workers p')"
    by (rule list_all2_mono [OF join_threadsD(2) [OF assms]]) (auto dest: join_thread_SomeD)
  then show ?thesis by (simp add: list_all2_conv_all_nth list_eq_iff_nth_eq)
qed

lemma server_step_matches:
  assumes ok: "server_ok hash hw m r" and a: "matches hash m r a" and "server_step hash hw r x r'"
  shows "\<exists>a'. atomic_run hash m a (observe r x) a' \<and> matches hash m r' a'"
  using assms(3)
proof cases
  case (step_request j s th s')
  with request_matches [OF ok a] show ?thesis by blast
next
  case (step_reply j s v th s')
  with reply_matches [OF a] show ?thesis by blast
next
  case (step_shard j s i f th w clk t sh)
  with shard_matches [OF ok a] show ?thesis by blast
next
  case (step_write j s close th)
  with matches_idle [OF a] matches_same_phase [OF a, of j "write_turn close s"] show ?thesis
    by (intro silent_match) (simp_all add: observe_def write_turn_def)
next
  case (step_full j s th event s')
  have idle: "activities a j = Idle" using matches_idle [OF a] step_full by simp
  have "matches hash m r' a" using matches_same_phase [OF a, of j s'] step_full read_phase(1) [of event s s'] idle by simp
  moreover have "observe r x = [Refuse j too_large_reply]" using step_full by (simp add: observe_def)
  ultimately show ?thesis using atomic_run_single [OF atomic_refuse [OF idle]] by fastforce
next
  case (step_read j s th event s')
  with matches_idle [OF a] matches_same_phase [OF a, of j s'] read_phase(2) [of event s s'] show ?thesis
    by (intro silent_match) (auto simp: observe_def)
next
  case (step_clean i th w clk wake sh)
  with clean_matches [OF ok a] show ?thesis by (simp add: observe_def)
next
  case (step_thread_begin i w t now)
  then show ?thesis
    by (intro silent_match) (auto simp: observe_def map_update list_update_same_conv intro!: pool_step_matches(2) [OF a])
next
  case (step_thread_return i w t)
  then show ?thesis
    by (intro silent_match) (auto simp: observe_def map_update list_update_same_conv intro!: pool_step_matches(1) [OF a])
next
  case (step_accept home srv)
  with accept_matches(2) [OF ok a step_accept(4)] show ?thesis by (intro silent_match) (simp_all add: observe_def)
next
  case (step_accept_error home srv)
  with accept_matches(1) [OF ok a step_accept_error(4)] show ?thesis by (intro silent_match) (simp_all add: observe_def)
next
  case step_signal
  then show ?thesis by (intro silent_match) (auto simp: observe_def stop_loops_def intro!: pool_step_matches(3) [OF a])
next
  case (step_join p p')
  then have "p' = p" using server_ok_join(2) [OF ok, of p] by simp
  with step_join join_keeps_shards [OF step_join(4)] show ?thesis
    by (intro silent_match) (auto simp: observe_def intro!: pool_step_matches(3) [OF a])
qed

interpretation linear: forward_simulation "server_step hash hw" "server_ok hash hw m" observe "atomic_step hash m" "\<lambda>a es. es" "matches hash m"
  for hash hw m
  by unfold_locales (rule server_step_matches)

subsection \<open>What clients are sent\<close>

definition sent_to :: "Running \<Rightarrow> nat \<Rightarrow> bytes list" where
  "sent_to r j = (if j < length (run_sessions r) then sent (run_sessions r ! j) else [])"

lemma sent_to_session:
  "j < length (run_sessions r) \<Longrightarrow> sent_to (set_session j s r) i = (if i = j then sent s else sent_to r i)"
  "sent_to (set_pool p r) i = sent_to r i" "sent_to (r\<lparr>wake_times := wakes\<rparr>) i = sent_to r i" "sent_to (r\<lparr>run_main := main\<rparr>) i = sent_to r i"
  "sent_to (r\<lparr>run_server := srv\<rparr>) i = sent_to r i"
  "sent_to (r\<lparr>run_server := srv, run_sessions := run_sessions r @ [new_session p home limit]\<rparr>) i = sent_to r i"
  by (auto simp: sent_to_def nth_append new_session_def)

text \<open>The bytes handed to a socket are the serialized replies that were observed.\<close>

lemma sent_to_request:
  assumes "phase s = Parsing" and "run_sessions r ! j = s" and "request_turn hash th p s = Some s'"
  shows "sent s' = sent s @ map serialize_rec (replies_to j (observe r (Act_session j)))"
  using assms by (cases rule: next_request_cases [of "buffer s"]) (auto simp: observe_def request_turn_def send_Some)

lemma observe_other: "i \<noteq> j \<Longrightarrow> replies_to i (observe r (Act_session j)) = []"
  by (auto simp: observe_def split: phase.split task.split option.split request_step.split)

lemma server_step_sent:
  assumes ok: "server_ok hash hw m r" and "server_step hash hw r x r'"
  shows "sent_to r' i = sent_to r i @ map serialize_rec (replies_to i (observe r x))"
  using assms(2)
proof cases
  case (step_request j s th s')
  then show ?thesis using sent_to_request [of s r j hash th] observe_other [of i j r] by (auto simp: sent_to_session) (simp add: sent_to_def)
next
  case (step_reply j s v th s')
  then have "well_typed v" using finished_within(2) [OF server_okD(2) [OF ok]] by blast
  with step_reply show ?thesis by (auto simp: sent_to_session reply_turn_def send_Some observe_def) (simp add: sent_to_def)
next
  case (step_full j s th event s')
  then show ?thesis
    by (auto simp: sent_to_session read_turn_def session_read_def send_Some observe_def) (simp add: sent_to_def)
next
  case (step_read j s th event s')
  then show ?thesis
    by (auto simp: sent_to_session read_turn_def session_read_def observe_def split: read_event.splits) (simp_all add: sent_to_def)
qed (auto simp: sent_to_session observe_def write_turn_def, simp_all add: sent_to_def)

lemma run_sent:
  assumes "event_run (server_step hash hw) observe r0 es r" and "server_ok hash hw m r0"
  shows "sent_to r j = sent_to r0 j @ map serialize_rec (replies_to j es)"
  using assms(1)
proof induction
  case (event_run_step es r x r')
  then show ?case using server_step_sent [OF linear.inv_run [OF event_run_step.hyps(1) assms(2)] event_run_step.hyps(2)] by simp
qed simp

text \<open>No command is being executed.\<close>

definition quiet :: "Running \<Rightarrow> bool" where
  "quiet r \<longleftrightarrow> (\<forall>s \<in> set (run_sessions r). \<forall>t. phase s \<noteq> Executing t)"

lemma quiet_matches: "quiet r \<Longrightarrow> matches hash m r \<lparr>caches = pool_caches (run_pool r), activities = \<lambda>j. Idle\<rparr>"
  by (auto simp: matches_def quiet_def phase_of_def phase_matches_def split: phase.split)

lemma program_start_quiet: "program_start net nt tm = Some r \<Longrightarrow> quiet r"
  by (auto simp: program_start_def run_server_start_def Let_def quiet_def)

subsection \<open>An example run\<close>

lemma ping_request:
  "next_request (serialize_rec (ArrayValue [BulkString ''PING''])) = Some (ExecuteRequest \<lparr>cmd_type = Cmd_kPing, cmd_args = []\<rparr> [])"
proof -
  let ?v = "ArrayValue [BulkString ''PING'']" and ?cmd = "\<lparr>cmd_type = Cmd_kPing, cmd_args = []\<rparr>"
  have up: "to_uppercase ''PING'' = ''PING''" by code_simp
  have "encodable 0 ?v" by (simp add: resp_limits)
  then have "parseImpl (serialize_rec ?v) = Ready (length (serialize_rec ?v)) ?v" by (rule resp_codec.decode_encode)
  moreover have "toCommand ?v = Some (Some ?cmd)"
    by (subst toCommand_array) (auto simp: request_def is_string_type_def up determineCommandType_def valid_command_def)
  ultimately show ?thesis by (simp add: next_request_eq(3))
qed

lemma ping_run:
  "\<exists>r. event_run (server_step (\<lambda>k. 0) 1) observe (sample_server (serialize_rec (ArrayValue [BulkString ''PING''])))
    [Invoke 0 \<lparr>cmd_type = Cmd_kPing, cmd_args = []\<rparr>, Respond 0 (BulkString ''PONG'')] r"
proof -
  let ?cmd = "\<lparr>cmd_type = Cmd_kPing, cmd_args = []\<rparr>" and ?r = "sample_server (serialize_rec (ArrayValue [BulkString ''PING'']))"
  let ?s = "run_sessions ?r ! 0"
  let ?s1 = "?s\<lparr>buffer := [], phase := Executing (Finished (BulkString ''PONG''))\<rparr>"
  let ?r1 = "set_session 0 ?s1 ?r"
  have loop: "loop_thread 0 (run_pool ?r) = Some 0" and home: "home_shard ?s = 0" and j: "0 < length (run_sessions ?r)"
    by (simp_all add: sample_pool loop_thread_def worker_at_def new_worker_def) (simp_all add: sample_server_def new_session_def Let_def)
  have ok: "server_ok (\<lambda>k. 0) 1 1024 ?r" and phase: "phase ?s = Parsing" by (simp_all only: ping_sample)
  have req: "next_request (buffer ?s) = Some (ExecuteRequest ?cmd [])" by (simp only: ping_sample(4) ping_request)
  have "home_ok (run_pool ?r) (Some 0)" by (simp add: home_ok_def sample_pool pool_size_def)
  from execute_keyless [OF server_okD(1) [OF ok] _ this, of ?cmd 0]
  have "execute (\<lambda>k. 0) 0 (run_pool ?r) ?cmd (Some 0) = Some (Finished (BulkString ''PONG''))"
    by (simp add: keyless_def keyless_task_def processPingCommand_def)
  then have "request_turn (\<lambda>k. 0) 0 (run_pool ?r) ?s = Some ?s1"
    using req home session_okD(4) [OF server_okD(2) [OF ok j]] by (simp add: request_turn_def)
  then have one: "server_step (\<lambda>k. 0) 1 ?r (Act_session 0) ?r1" using step_request [OF j refl phase] loop home by simp
  have "reply_turn (BulkString ''PONG'') ?s1 = Some (?s1\<lparr>sent := sent ?s @ [serialize_rec (BulkString ''PONG'')], phase := Writing False\<rparr>)"
    by (simp add: reply_turn_def send_Some)
  then obtain r where two: "server_step (\<lambda>k. 0) 1 ?r1 (Act_session 0) r"
    using step_reply [of 0 ?r1 ?s1 "BulkString ''PONG''" 0] j loop home by fastforce
  have "observe ?r (Act_session 0) = [Invoke 0 ?cmd]" "observe ?r1 (Act_session 0) = [Respond 0 (BulkString ''PONG'')]"
    using req phase j by (simp_all add: observe_def)
  with event_run_append [OF event_run_single [of "server_step (\<lambda>k. 0) 1", OF two] event_run_single [of "server_step (\<lambda>k. 0) 1", OF one], of observe]
  show ?thesis by auto
qed

subsection \<open>Properties\<close>

text \<open>C2: Linearizability. Take any run of the server, with any number of connections, any interleaving of the
  closures of their commands on the worker threads, of cleaning loops, threads, accepts and shutdown,
  and any clock readings. The commands that are taken up and the replies that are given, in the
  order in which this happens, are a behaviour of the abstract server, in which a command on one key
  takes effect in one indivisible step between its request and its reply, \<open>DEL\<close> removes the keys of
  each shard in one such step, and \<open>INFO\<close> reads each shard in one such step; the shards end up with
  the entries and counters of the abstract server; and the bytes sent to each connection are these replies,
  serialized, in order.\<close>

theorem server_linearizable:
  assumes "server_ok hash hw m r0" and "quiet r0" and "event_run (server_step hash hw) observe r0 es r"
  shows "\<exists>a. atomic_run hash m \<lparr>caches = pool_caches (run_pool r0), activities = \<lambda>j. Idle\<rparr> es a \<and>
    caches a = pool_caches (run_pool r) \<and> (\<forall>j. sent_to r j = sent_to r0 j @ map serialize_rec (replies_to j es))"
proof -
  obtain a where "atomic_run hash m \<lparr>caches = pool_caches (run_pool r0), activities = \<lambda>j. Idle\<rparr> es a" "matches hash m r a"
    using linear.runs_included [OF assms(3,1) quiet_matches [OF assms(2)]] by blast
  then show ?thesis using run_sent [OF assms(3,1)] by (auto simp: matches_def)
qed

theorem server_linearizable_witness:
  "\<exists>r a. event_run (server_step (\<lambda>k. 0) 1) observe (sample_server (serialize_rec (ArrayValue [BulkString ''PING''])))
      [Invoke 0 \<lparr>cmd_type = Cmd_kPing, cmd_args = []\<rparr>, Respond 0 (BulkString ''PONG'')] r \<and>
    atomic_run (\<lambda>k. 0) 1024 (atomic_start 1)
      [Invoke 0 \<lparr>cmd_type = Cmd_kPing, cmd_args = []\<rparr>, Respond 0 (BulkString ''PONG'')] a \<and>
    sent_to r 0 = [serialize_rec (BulkString ''PONG'')]"
proof -
  let ?r = "sample_server (serialize_rec (ArrayValue [BulkString ''PING'']))"
  obtain r where run: "event_run (server_step (\<lambda>k. 0) 1) observe ?r
      [Invoke 0 \<lparr>cmd_type = Cmd_kPing, cmd_args = []\<rparr>, Respond 0 (BulkString ''PONG'')] r"
    using ping_run by blast
  have "quiet ?r" "sent_to ?r 0 = []" "pool_caches (run_pool ?r) = [empty_cache]"
    by (simp_all add: quiet_def sent_to_def sample_pool pool_caches_def new_worker_def) (simp_all add: sample_server_def new_session_def Let_def)
  with server_linearizable [OF ping_sample(1) _ run] run show ?thesis by (auto simp: atomic_start_def)
qed

end
