(* ===== verification/Set_Nx.thy ===== *)
theory Set_Nx
  imports Server_Linearizable
begin

section \<open>\<open>SET NX\<close> as a lock\<close>

text \<open>
  A guarantee for clients that rests on the whole server: of all connections that send \<open>SET k v NX\<close>
  at most one is answered \<open>OK\<close>. It is proved on the abstract server of \<open>Atomic_Server\<close>, by an invariant over
  its runs, and carried over by the simulation of \<open>Server_Linearizable\<close>. The clients must not use the key
  in other ways, and what they store in the shard of the key must fit its budget; \<open>working set\<close>
  below is a set of pairs of key and value with everything that is ever stored there.
\<close>

subsection \<open>A working set that fits is never evicted\<close>

definition pair_size :: "bytes \<times> bytes \<Rightarrow> nat" where
  "pair_size x = length (fst x) + length (snd x)"

definition entry_pair :: "entry \<Rightarrow> bytes \<times> bytes" where
  "entry_pair e = (fst e, fst (snd e))"

definition within :: "(bytes \<times> bytes) set \<Rightarrow> entry list \<Rightarrow> bool" where
  "within S es \<longleftrightarrow> distinct (map fst es) \<and> entry_pair ` set es \<subseteq> S"

lemma within_payload:
  assumes "finite S" and "within S es"
  shows "payload es \<le> sum pair_size S"
proof -
  have "distinct (map entry_pair es)"
    using assms(2) by (auto simp: within_def distinct_map inj_on_def entry_pair_def)
  then have "sum pair_size (set (map entry_pair es)) = sum_list (map pair_size (map entry_pair es))"
    by (rule sum_list_distinct_conv_sum_set [symmetric])
  also have "\<dots> = payload es" by (simp add: payload_def entry_size_def [abs_def] pair_size_def entry_pair_def comp_def)
  finally have "payload es = sum pair_size (set (map entry_pair es))" by simp
  also have "\<dots> \<le> sum pair_size S" using assms by (intro sum_mono2) (auto simp: within_def)
  finally show ?thesis .
qed

lemma within_drop_key: "within S es \<Longrightarrow> within S (drop_key k es)"
  by (auto simp: within_def distinct_drop_key) (auto simp: drop_key_def)

lemma within_filter: "within S es \<Longrightarrow> within S (filter P es)"
  by (auto simp: within_def distinct_map_filter)

lemma within_Cons: "within S es \<Longrightarrow> (k, v) \<in> S \<Longrightarrow> within S ((k, v, d) # drop_key k es)"
  using within_drop_key [of S es k] by (auto simp: within_def entry_pair_def)

lemma within_set_deadline: "within S es \<Longrightarrow> within S (set_deadline k d es)"
  by (auto simp: within_def) (auto simp: set_deadline_def entry_pair_def image_subset_iff)

lemma within_value: "within S es \<Longrightarrow> map_of es k = Some (v, d) \<Longrightarrow> (k, v) \<in> S"
  by (auto simp: within_def entry_pair_def image_subset_iff dest!: map_of_SomeD) 

lemma set_within:
  assumes "finite S" and "sum pair_size S \<le> b" and "within S es" and "(k, v) \<in> S"
  shows "spec_set b k v d es = (k, v, d) # drop_key k es"
  unfolding spec_set_def
  using within_payload [OF assms(1) within_Cons [OF assms(3,4)]] assms(2) by (intro keep_recent_all) (meson order_trans)

subsection \<open>Commands\<close>

text \<open>\<open>claims k cmd\<close>: the command is \<open>SET k v NX\<close>. \<open>touches k cmd\<close>: it could store, delete or put a deadline on \<open>k\<close>.\<close>

definition claims :: "bytes \<Rightarrow> Command \<Rightarrow> bool" where
  "claims k cmd \<longleftrightarrow> cmd_type cmd = Cmd_kSet \<and> (\<exists>v opt. cmd_args cmd = [k, v, opt] \<and> to_uppercase opt = ''NX'')"

definition touches :: "bytes \<Rightarrow> Command \<Rightarrow> bool" where
  "touches k cmd \<longleftrightarrow>
     (cmd_type cmd \<in> {Cmd_kSet, Cmd_kExpire} \<and> hd (cmd_args cmd) = k) \<or> (cmd_type cmd = Cmd_kDel \<and> k \<in> set (cmd_args cmd))"

text \<open>What a command would store is in the working set.\<close>

definition stays_within :: "(bytes \<times> bytes) set \<Rightarrow> Command \<Rightarrow> bool" where
  "stays_within S cmd \<longleftrightarrow> (cmd_type cmd = Cmd_kSet \<longrightarrow> (\<forall>k v rest. cmd_args cmd = k # v # rest \<longrightarrow> (k, v) \<in> S))"

text \<open>The key is free, or it is held without a deadline.\<close>

definition held :: "bytes \<Rightarrow> entry list \<Rightarrow> bool" where
  "held k es \<longleftrightarrow> (\<exists>v. map_of es k = Some (v, None))"

lemma get_within:
  assumes "within S es"
  shows "within S (snd (spec_get k now es))" "within S (snd (spec_ttl k now now2 es))"
  using assms within_drop_key [OF assms] within_Cons [OF assms within_value [OF assms]]
  by (auto simp: spec_get_def spec_ttl_def Let_def split: option.splits)

lemma get_map_of:
  assumes "map_of es k = None \<or> held k es"
  shows "map_of (snd (spec_get k' now es)) k = map_of es k" "map_of (snd (spec_ttl k' now now2 es)) k = map_of es k"
  using assms by (auto simp: held_def spec_get_def spec_ttl_def is_expired_def Let_def split: option.splits)

lemma spec_keyed_stays:
  assumes "finite S" and "sum pair_size S \<le> b" and "within S es" and "valid_command cmd" and "stays_within S cmd"
  shows "within S (snd (spec_keyed b cmd clk es))"
proof -
  note set = set_within [OF assms(1-3)] and new = within_Cons [OF assms(3)]
  show ?thesis
    using assms(3,5) get_within [OF assms(3)] within_set_deadline [OF assms(3)] valid_shapes(3,5) [OF assms(4)]
    by (cases "cmd_type cmd")
      (auto simp: spec_keyed_def spec_set_command_def spec_expire_command_def spec_expire_def stays_within_def set new Let_def split: option.split)
qed

lemma spec_keyed_untouched:
  assumes "finite S" and "sum pair_size S \<le> b" and "within S es" and "valid_command cmd" and "stays_within S cmd"
    and "\<not> touches k cmd" and "map_of es k = None \<or> held k es"
  shows "map_of (snd (spec_keyed b cmd clk es)) k = map_of es k"
proof -
  note set = set_within [OF assms(1-3)]
  show ?thesis
    using assms(5-7) get_map_of [OF assms(7)] valid_shapes(3,5) [OF assms(4)]
    by (cases "cmd_type cmd")
      (auto simp: spec_keyed_def spec_set_command_def spec_expire_command_def spec_expire_def stays_within_def touches_def set
        map_of_set_deadline Let_def split: option.split)
qed

lemma spec_keyed_claim:
  assumes "finite S" and "sum pair_size S \<le> b" and "within S es" and "stays_within S cmd" and "claims k cmd"
  shows "map_of es k = None \<Longrightarrow> fst (spec_keyed b cmd clk es) = SimpleString ''OK'' \<and> held k (snd (spec_keyed b cmd clk es))"
    "held k es \<Longrightarrow> fst (spec_keyed b cmd clk es) = NullBulkString \<and> held k (snd (spec_keyed b cmd clk es))"
proof -
  obtain v opt where cmd: "cmd_type cmd = Cmd_kSet" "cmd_args cmd = [k, v, opt]" "to_uppercase opt = ''NX''" "(k, v) \<in> S"
    using assms(4,5) by (auto simp: claims_def stays_within_def)
  note set = set_within [OF assms(1-3) cmd(4)]
  show "fst (spec_keyed b cmd clk es) = SimpleString ''OK'' \<and> held k (snd (spec_keyed b cmd clk es))" if "map_of es k = None"
    using that cmd by (simp add: spec_keyed_def spec_set_command_def spec_get_def set held_def)
  show "fst (spec_keyed b cmd clk es) = NullBulkString \<and> held k (snd (spec_keyed b cmd clk es))" if "held k es"
    using that cmd by (auto simp: spec_keyed_def spec_set_command_def spec_get_def held_def is_expired_def)
qed

subsection \<open>What has been answered so far\<close>

text \<open>The command each connection waits for, and the commands that were answered, with their replies.\<close>

type_synonym history = "(nat \<Rightarrow> Command option) \<times> (Command \<times> RespValue) list"

fun track :: "event \<Rightarrow> history \<Rightarrow> history" where
  "track (Invoke j cmd) (waits, outs) = (waits(j := Some cmd), outs)"
| "track (Respond j v) (waits, outs) = (waits(j := None), (case waits j of None \<Rightarrow> outs | Some cmd \<Rightarrow> outs @ [(cmd, v)]))"
| "track (Refuse j v) h = h"

definition history_of :: "event list \<Rightarrow> history" where
  "history_of es = fold track es (\<lambda>j. None, [])"

definition answered :: "event list \<Rightarrow> (Command \<times> RespValue) list" where
  "answered es = snd (history_of es)"

text \<open>A granted claim.\<close>

definition granted :: "bytes \<Rightarrow> Command \<times> RespValue \<Rightarrow> bool" where
  "granted k x \<longleftrightarrow> claims k (fst x) \<and> snd x = SimpleString ''OK''"

text \<open>The connections whose claim has been granted and that have not been told yet.\<close>

definition holders :: "bytes \<Rightarrow> Atomic \<Rightarrow> (nat \<Rightarrow> Command option) \<Rightarrow> nat set" where
  "holders k a waits = {j. activities a j = Answered (SimpleString ''OK'') \<and> (\<exists>cmd. waits j = Some cmd \<and> claims k cmd)}"

lemma holders_act:
  "holders k (act j x a) (waits(j := c)) =
     (if x = Answered (SimpleString ''OK'') \<and> (\<exists>cmd. c = Some cmd \<and> claims k cmd) then insert j (holders k a waits) else holders k a waits - {j})"
  "holders k (set_cache i cc a) waits = holders k a waits"
  by (auto simp: holders_def)

lemma holders_step:
  "holders k (act j x a) waits =
     (if x = Answered (SimpleString ''OK'') \<and> (\<exists>cmd. waits j = Some cmd \<and> claims k cmd) then insert j (holders k a waits) else holders k a waits - {j})"
  using holders_act(1) [of k j x a waits "waits j"] by simp

subsection \<open>The invariant\<close>

definition obeys :: "(bytes \<Rightarrow> uint64) \<Rightarrow> nat \<Rightarrow> bytes \<Rightarrow> (bytes \<times> bytes) set \<Rightarrow> Command \<Rightarrow> bool" where
  "obeys hash n k S cmd \<longleftrightarrow>
     (touches k cmd \<longrightarrow> claims k cmd) \<and> (key_shard hash n (hd (cmd_args cmd)) = key_shard hash n k \<longrightarrow> stays_within S cmd)"

definition home_entries :: "(bytes \<Rightarrow> uint64) \<Rightarrow> bytes \<Rightarrow> Atomic \<Rightarrow> entry list" where
  "home_entries hash k a = cached (caches a ! key_shard hash (length (caches a)) k)"

definition calls_obey :: "(bytes \<Rightarrow> uint64) \<Rightarrow> bytes \<Rightarrow> (bytes \<times> bytes) set \<Rightarrow> Atomic \<Rightarrow> (nat \<Rightarrow> Command option) \<Rightarrow> bool" where
  "calls_obey hash k S a waits \<longleftrightarrow>
     (\<forall>j cmd. activities a j = Calling cmd \<longrightarrow> waits j = Some cmd \<and> valid_command cmd \<and> obeys hash (length (caches a)) k S cmd) \<and>
     (\<forall>j ks c. activities a j = Deleting ks c \<longrightarrow> k \<notin> ks)"

definition lock_count :: "bytes \<Rightarrow> Atomic \<Rightarrow> history \<Rightarrow> nat \<Rightarrow> bool" where
  "lock_count k a h limit \<longleftrightarrow> finite (holders k a (fst h)) \<and> length (filter (granted k) (snd h)) + card (holders k a (fst h)) \<le> limit"

definition lock_inv :: "(bytes \<Rightarrow> uint64) \<Rightarrow> bytes \<Rightarrow> (bytes \<times> bytes) set \<Rightarrow> Atomic \<Rightarrow> history \<Rightarrow> bool" where
  "lock_inv hash k S a h \<longleftrightarrow>
     caches a \<noteq> [] \<and> calls_obey hash k S a (fst h) \<and> within S (home_entries hash k a) \<and> (map_of (home_entries hash k a) k = None \<or> held k (home_entries hash k a)) \<and>
     lock_count k a h (if held k (home_entries hash k a) then 1 else 0)"

text \<open>A step that leaves the entries of the shard as they are, as far as the lock is concerned.\<close>

lemma lock_count_drop:
  assumes "lock_count k a (waits, outs) l" and "\<not> (x = Answered (SimpleString ''OK'') \<and> (\<exists>cmd. waits j = Some cmd \<and> claims k cmd))"
  shows "lock_count k (act j x a) (waits, outs) l"
proof -
  have "holders k (act j x a) waits = holders k a waits - {j}" unfolding holders_step by (rule if_not_P [OF assms(2)])
  moreover have "card (holders k a waits - {j}) \<le> card (holders k a waits)" by (rule card_Diff1_le)
  ultimately show ?thesis using assms(1) unfolding lock_count_def by simp
qed

lemma home_entries_act [simp]: "home_entries hash k (act j x a) = home_entries hash k a"
  by (simp add: home_entries_def)

lemma home_entries_set_cache:
  assumes "i < length (caches a)"
  shows "home_entries hash k (set_cache i c a) = (if i = key_shard hash (length (caches a)) k then cached c else home_entries hash k a)"
  using assms by (simp add: home_entries_def)

lemma lock_count_set_cache [simp]: "lock_count k (set_cache i c a) h l = lock_count k a h l"
  by (simp add: lock_count_def holders_act)

lemma filter_map_of:
  assumes "distinct (map fst es)" and "\<And>v d. map_of es k = Some (v, d) \<Longrightarrow> P (k, v, d)"
  shows "map_of (filter P es) k = map_of es k"
proof (cases "map_of es k")
  case None
  then have "map_of (filter P es) k = None" by (auto simp: map_of_eq_None_iff)
  with None show ?thesis by simp
next
  case (Some x)
  obtain v d where x: "x = (v, d)" by (cases x)
  then have "(k, v, d) \<in> set (filter P es)" using Some assms(2) map_of_SomeD by fastforce
  then show ?thesis using Some x map_of_is_SomeI [of "filter P es"] assms(1) by (simp add: distinct_map_filter)
qed

lemma calls_obey_act:
  assumes "calls_obey hash k S a waits" and "\<And>cmd. x \<noteq> Calling cmd" and "\<And>ks c. x = Deleting ks c \<Longrightarrow> k \<notin> ks"
  shows "calls_obey hash k S (act j x (set_cache i c a)) (waits(j := w))" "calls_obey hash k S (act j x a) (waits(j := w))"
  using assms by (auto simp: calls_obey_def)

lemma lock_inv_invoke:
  assumes inv: "lock_inv hash k S a (waits, outs)" and cmd: "valid_command cmd" "obeys hash (length (caches a)) k S cmd"
  shows "lock_inv hash k S (act j (take_up (length (caches a)) cmd) a) (waits(j := Some cmd), outs)"
proof -
  let ?x = "take_up (length (caches a)) cmd"
  have "?x = Calling c \<Longrightarrow> c = cmd" "?x = Deleting ks d \<Longrightarrow> k \<notin> ks" for c ks d
    using cmd(2) by (auto simp: take_up_def obeys_def touches_def claims_def split: CommandType.splits if_splits)
  then have "calls_obey hash k S (act j ?x a) (waits(j := Some cmd))"
    using inv cmd by (auto simp: lock_inv_def calls_obey_def)
  moreover have "claims k cmd \<Longrightarrow> ?x = Calling cmd" by (simp add: take_up_def claims_def)
  then have "holders k (act j ?x a) (waits(j := Some cmd)) = holders k a waits - {j}" by (auto simp: holders_act)
  then have "lock_count k (act j ?x a) (waits(j := Some cmd), outs) l" if "lock_count k a (waits, outs) l" for l
    using that card_Diff1_le [of "holders k a waits" j] by (simp add: lock_count_def)
  ultimately show ?thesis using inv by (simp add: lock_inv_def)
qed

lemma lock_inv_respond:
  assumes inv: "lock_inv hash k S a (waits, outs)" and v: "answer (activities a j) = Some v"
  shows "lock_inv hash k S (act j Idle a) (track (Respond j v) (waits, outs))"
proof -
  let ?H = "holders k a waits" and ?outs = "snd (track (Respond j v) (waits, outs))"
  have H: "holders k (act j Idle a) (waits(j := None)) = ?H - {j}" by (simp add: holders_act)
  have member: "granted k (cmd, v) \<Longrightarrow> waits j = Some cmd \<Longrightarrow> j \<in> ?H" for cmd
    using v by (cases "activities a j") (auto simp: holders_def granted_def split: if_splits)
  have "lock_count k (act j Idle a) (waits(j := None), ?outs) l" if "lock_count k a (waits, outs) l" for l
  proof (cases "\<exists>cmd. waits j = Some cmd \<and> granted k (cmd, v)")
    case True
    then have "j \<in> ?H" using member by blast
    with that True card_Suc_Diff1 [of ?H j] show ?thesis by (auto simp: lock_count_def H)
  next
    case False
    with that card_Diff1_le [of ?H j] show ?thesis by (auto simp: lock_count_def H split: option.split)
  qed
  moreover have "calls_obey hash k S (act j Idle a) (waits(j := None))"
    using inv by (intro calls_obey_act(2)) (simp_all add: lock_inv_def)
  ultimately show ?thesis using inv by (simp add: lock_inv_def)
qed

text \<open>A command on the shard of the key: the lock is granted only if it was free, and is never lost.\<close>

lemma spec_keyed_lock:
  assumes S: "finite S" "sum pair_size S \<le> b" and es: "within S es" "map_of es k = None \<or> held k es"
    and cmd: "valid_command cmd" "stays_within S cmd" "touches k cmd \<Longrightarrow> claims k cmd" and new: "spec_keyed b cmd clk es = (v, es')"
  shows "within S es'" "map_of es' k = None \<or> held k es'" "held k es \<Longrightarrow> held k es'"
    "claims k cmd \<Longrightarrow> v = SimpleString ''OK'' \<Longrightarrow> \<not> held k es \<and> held k es'"
proof -
  show "within S es'" using spec_keyed_stays [OF S es(1) cmd(1,2), of clk] new by simp
  note claim = spec_keyed_claim [OF S es(1) cmd(2), of k clk]
  have same: "map_of es' k = map_of es k" if "\<not> claims k cmd"
    using spec_keyed_untouched [OF S es(1) cmd(1,2) _ es(2), of clk] cmd(3) that new by auto
  show "map_of es' k = None \<or> held k es'" "held k es \<Longrightarrow> held k es'"
    using claim same es(2) new by (cases "claims k cmd"; auto simp: held_def)+
  show "\<not> held k es \<and> held k es'" if "claims k cmd" "v = SimpleString ''OK''"
    using claim [OF that(1)] es(2) new that(2) by auto
qed

lemma lock_inv_call:
  assumes inv: "lock_inv hash k S a (waits, outs)" and S: "finite S" "sum pair_size S \<le> unat m" and j: "activities a j = Calling cmd"
    and i: "key_shard hash (length (caches a)) (hd (cmd_args cmd)) = i" and v: "cache_keyed (unat m) cmd clk (caches a ! i) = (v, c)"
  shows "lock_inv hash k S (act j (Answered v) (set_cache i c a)) (waits, outs)"
proof -
  let ?a = "act j (Answered v) (set_cache i c a)" and ?home = "key_shard hash (length (caches a)) k"
  let ?es = "home_entries hash k a"
  have cmd: "waits j = Some cmd" "valid_command cmd" "touches k cmd \<Longrightarrow> claims k cmd" "i = ?home \<Longrightarrow> stays_within S cmd"
    using inv j i by (auto simp: lock_inv_def calls_obey_def obeys_def)
  have less: "i < length (caches a)" using inv i by (auto simp: lock_inv_def key_shard_def)
  have calls: "calls_obey hash k S ?a waits"
    using calls_obey_act(1) [of hash k S a waits "Answered v" j i c "waits j"] inv by (simp add: lock_inv_def)
  have count: "lock_count k a (waits, outs) (if held k ?es then 1 else 0)" using inv by (simp add: lock_inv_def)
  have drop: "lock_count k ?a (waits, outs) l" if "lock_count k a (waits, outs) l" "\<not> (v = SimpleString ''OK'' \<and> claims k cmd)" for l
    using that cmd(1) by (intro lock_count_drop) auto
  show ?thesis
  proof (cases "i = ?home")
    case False
    then have "\<not> claims k cmd" using i by (auto simp: claims_def)
    with drop [OF count] calls False inv less show ?thesis by (simp add: lock_inv_def home_entries_set_cache)
  next
    case True
    have new: "spec_keyed (unat m) cmd clk ?es = (v, cached c)"
      using v True by (auto simp: cache_keyed_def home_entries_def split_def Let_def)
    have "within S ?es" "map_of ?es k = None \<or> held k ?es" using inv by (simp_all add: lock_inv_def)
    note lock = spec_keyed_lock [OF S this cmd(2) cmd(4) [OF True] cmd(3) new]
    have "lock_count k ?a (waits, outs) (if held k (cached c) then 1 else 0)"
    proof (cases "v = SimpleString ''OK'' \<and> claims k cmd")
      case True
      with lock(4) count cmd(1) show ?thesis by (auto simp: lock_count_def holders_step holders_act(2))
    next
      case False
      with drop [OF count] lock(3) show ?thesis by (auto simp: lock_count_def split: if_splits)
    qed
    with calls inv lock True less show ?thesis by (simp add: lock_inv_def home_entries_set_cache)
  qed
qed

lemma lock_inv_filter:
  assumes inv: "lock_inv hash k S a (waits, outs)" and less: "i < length (caches a)" and "cached c = filter P (cached (caches a ! i))"
    and "\<And>v. P (k, v, None)"
  shows "lock_inv hash k S (set_cache i c a) (waits, outs)"
proof -
  let ?es = "home_entries hash k a"
  have es: "home_entries hash k (set_cache i c a) = (if i = key_shard hash (length (caches a)) k then filter P ?es else ?es)"
    using less assms(3) by (simp add: home_entries_set_cache) (simp add: home_entries_def)
  have "within S ?es" "map_of ?es k = None \<or> held k ?es" using inv by (simp_all add: lock_inv_def)
  then have "map_of (filter P ?es) k = map_of ?es k"
    using assms(4) by (intro filter_map_of) (auto simp: within_def held_def)
  then have "held k (filter P ?es) = held k ?es" "(map_of (filter P ?es) k = None) = (map_of ?es k = None)" by (simp_all add: held_def)
  moreover have "calls_obey hash k S (set_cache i c a) waits = calls_obey hash k S a waits" by (simp add: calls_obey_def)
  moreover have "caches (set_cache i c a) \<noteq> [] \<longleftrightarrow> caches a \<noteq> []" by simp
  ultimately show ?thesis using inv within_filter [of S ?es P] by (simp add: lock_inv_def es del: act_fields)
qed

lemma lock_inv_progress:
  assumes inv: "lock_inv hash k S a (waits, outs)" and "\<And>cmd. x \<noteq> Calling cmd" and "\<And>v. x \<noteq> Answered v" and "\<And>ks c. x = Deleting ks c \<Longrightarrow> k \<notin> ks"
  shows "lock_inv hash k S (act j x a) (waits, outs)"
proof -
  have "calls_obey hash k S (act j x a) waits"
    using calls_obey_act(2) [of hash k S a waits x j "waits j"] assms by (simp add: lock_inv_def)
  moreover have "lock_count k (act j x a) (waits, outs) l" if "lock_count k a (waits, outs) l" for l
    using that assms(3) by (intro lock_count_drop) auto
  ultimately show ?thesis using inv by (simp add: lock_inv_def)
qed

text \<open>Every step of the abstract server keeps the invariant.\<close>

lemma lock_inv_step:
  assumes "atomic_step hash m a es a'" and inv: "lock_inv hash k S a h" and S: "finite S" "sum pair_size S \<le> unat m"
    and obey: "\<And>j cmd. Invoke j cmd \<in> set es \<Longrightarrow> obeys hash (length (caches a)) k S cmd"
  shows "lock_inv hash k S a' (fold track es h)"
proof -
  obtain waits outs where h: "h = (waits, outs)" by (cases h)
  note inv = inv [unfolded h]
  from assms(1) show ?thesis
  proof cases
    case (atomic_invoke j cmd)
    with lock_inv_invoke [OF inv _ obey, of cmd j j] h show ?thesis by simp
  next
    case (atomic_call j cmd i clk v c)
    with lock_inv_call [OF inv S atomic_call(3-5)] h show ?thesis by simp
  next
    case (atomic_delete j ks c i part)
    have "k \<notin> ks" using inv atomic_delete(3) unfolding lock_inv_def calls_obey_def fst_conv by blast
    then have "lock_inv hash k S (set_cache i (cache_delete part (caches a ! i)) a) (waits, outs)"
      using atomic_delete by (intro lock_inv_filter [OF inv, where P = "\<lambda>e. fst e \<notin> part"]) (auto simp: cache_delete_def drop_keys_def)
    then have "lock_inv hash k S a' (waits, outs)"
      unfolding atomic_delete(2) by (rule lock_inv_progress) (use \<open>k \<notin> ks\<close> in auto)
    with atomic_delete(1) h show ?thesis by simp
  next
    case (atomic_count j "is" acc i)
    have "lock_inv hash k S a' (waits, outs)" unfolding atomic_count(2) by (rule lock_inv_progress [OF inv]) auto
    with atomic_count(1) h show ?thesis by simp
  next
    case (atomic_respond j v)
    with lock_inv_respond [OF inv] h show ?thesis by simp
  next
    case (atomic_refuse j v)
    with inv h show ?thesis by simp
  next
    case (atomic_purge i now)
    then have "lock_inv hash k S (set_cache i (cache_purge now (caches a ! i)) a) (waits, outs)"
      by (intro lock_inv_filter [OF inv, where P = "\<lambda>(k, v, d). \<not> is_expired d now"]) (auto simp: cache_purge_def spec_purge_def is_expired_def)
    with atomic_purge h show ?thesis by simp
  qed
qed

lemma atomic_step_shards: "atomic_step hash m a es a' \<Longrightarrow> length (caches a') = length (caches a)"
  by (erule atomic_step.cases) simp_all

lemma lock_inv_run:
  assumes "atomic_run hash m a es a'" and "lock_inv hash k S a (\<lambda>j. None, [])" and S: "finite S" "sum pair_size S \<le> unat m"
    and "\<And>j cmd. Invoke j cmd \<in> set es \<Longrightarrow> obeys hash (length (caches a)) k S cmd"
  shows "length (caches a') = length (caches a) \<and> lock_inv hash k S a' (history_of es)"
  using assms(1,5)
proof induction
  case event_run_start
  then show ?case using assms(2) by (simp add: history_of_def)
next
  case (event_run_step es b fs b')
  then have b: "length (caches b) = length (caches a)" "lock_inv hash k S b (history_of es)" by auto
  then have "lock_inv hash k S b' (fold track fs (history_of es))"
    using event_run_step.prems by (intro lock_inv_step [OF event_run_step.hyps(2) _ S]) auto
  with b atomic_step_shards [OF event_run_step.hyps(2)] show ?case by (simp add: history_of_def)
qed

subsection \<open>A run with one claim\<close>

lemma keyed_command_run:
  assumes ok: "server_ok hash hw m r" and loops: "in_loops (run_pool r)"
    and j: "j < length (run_sessions r)" and phase: "phase (run_sessions r ! j) = Parsing"
    and req: "next_request (buffer (run_sessions r ! j)) = Some (ExecuteRequest cmd b)" and "keyed cmd"
  shows "\<exists>r' i. getShardIndex hash (hd (cmd_args cmd)) (pool_size (run_pool r)) = Some i \<and>
    event_run (server_step hash hw) observe r [Invoke j cmd, Respond j (fst (spec_keyed (unat m) cmd (\<lambda>_. 0) (pool_view (run_pool r) ! unat i)))] r'"
proof -
  let ?s = "run_sessions r ! j"
  note pool = server_okD(1) [OF ok] and s = server_okD(2) [OF ok j] and loop = loop_thread_exists [OF ok loops]
  have cmd: "valid_command cmd" "cmd_fits m cmd"
    using req session_okD(2) [OF s] by (cases rule: next_request_cases [of "buffer ?s"]; auto)+
  obtain th where th: "loop_thread (home_shard ?s) (run_pool r) = Some th" using loop session_okD(1) [OF s] by blast
  have "home_ok (run_pool r) (Some (home_shard ?s))" using session_okD(1) [OF s] by (simp add: home_ok_def)
  from execute_keyed [OF pool assms(6) cmd(1) this, of th] obtain i where i: "getShardIndex hash (hd (cmd_args cmd)) (pool_size (run_pool r)) = Some i"
      "execute hash th (run_pool r) cmd (Some (home_shard ?s)) = Some (run_on_shard i (keyed_fn cmd) Finished)" by blast
  let ?s1 = "?s\<lparr>buffer := b, phase := Executing (run_on_shard i (keyed_fn cmd) Finished)\<rparr>"
  have "request_turn hash th (run_pool r) ?s = Some ?s1" using req i(2) session_okD(4) [OF s] by (simp add: request_turn_def)
  then have one: "server_step hash hw r (Act_session j) (set_session j ?s1 r)" by (rule step_request [OF j refl phase th])
  have less: "i < pool_size (run_pool r)" using i(1) pool_okD(2) [OF pool] by (auto simp: getShardIndex_def word_mod_less_divisor word_neq_0_conv split: if_splits)
  then have less': "unat i < length (workers (run_pool r))" using pool_okD(1) [OF pool] by (simp add: word_less_nat_alt)
  let ?w = "workers (run_pool r) ! unat i" and ?v = "fst (spec_keyed (unat m) cmd (\<lambda>_. 0) (pool_view (run_pool r) ! unat i))"
  have w: "worker_at i (run_pool r) = Some ?w" using less' by (simp add: worker_at_def)
  obtain sh where sh: "keyed_fn cmd (\<lambda>_. 0) (shard ?w) = Some (?v, sh)"
    using keyed_fn_refines [OF worker_at_less(2) [OF pool w] assms(6) cmd i(1)] less' by (metis pool_view_nth)
  obtain th' where th': "loop_thread i (run_pool r) = Some th'" using loop less by blast
  let ?s2 = "?s1\<lparr>phase := Executing (Finished ?v)\<rparr>"
  let ?r2 = "set_pool (put_shard i sh (run_pool r)) (set_session j ?s2 (set_session j ?s1 r))"
  have two: "server_step hash hw (set_session j ?s1 r) (Act_session j) ?r2"
    using step_shard [of j "set_session j ?s1 r" ?s1 i _ th' ?w "\<lambda>_. 0" "Finished ?v" sh hash hw] j th' w sh by (simp add: run_on_shard_def)
  have "server_ok hash hw m ?r2" using server_step_ok [OF two server_step_ok [OF one ok]] .
  moreover have "in_loops (put_shard i sh (run_pool r))" using loops by (simp add: in_loops_def all_set_conv_all_nth)
  ultimately obtain r' where three: "server_step hash hw ?r2 (Act_session j) r'"
    using session_progress [of hash hw m ?r2 j] j by (auto simp: settled_def next_actor_def)
  have "observe r (Act_session j) = [Invoke j cmd]" "observe (set_session j ?s1 r) (Act_session j) = []" "observe ?r2 (Act_session j) = [Respond j ?v]"
    using phase req j by (simp_all add: observe_def run_on_shard_def)
  with event_run_append [OF event_run_append [OF event_run_single [of "server_step hash hw", OF three] event_run_single [of "server_step hash hw", OF two]]
      event_run_single [of "server_step hash hw", OF one], of observe] i(1)
  show ?thesis by auto
qed

abbreviation claim_value :: RespValue where
  "claim_value \<equiv> ArrayValue [BulkString ''SET'', BulkString ''a'', BulkString ''1'', BulkString ''nx'']"

abbreviation claim_command :: Command where
  "claim_command \<equiv> \<lparr>cmd_type = Cmd_kSet, cmd_args = [''a'', ''1'', ''nx'']\<rparr>"

lemma claim_upper: "to_uppercase ''nx'' = ''NX''" "to_uppercase ''SET'' = ''SET''"
  by code_simp+

lemma claim_request: "next_request (serialize_rec claim_value) = Some (ExecuteRequest claim_command [])"
proof -
  have "encodable 0 claim_value" by (simp add: resp_limits)
  then have "parseImpl (serialize_rec claim_value) = Ready (length (serialize_rec claim_value)) claim_value" by (rule resp_codec.decode_encode)
  moreover have "toCommand claim_value = Some (Some claim_command)"
    by (subst toCommand_array) (auto simp: request_def is_string_type_def claim_upper determineCommandType_def valid_command_def)
  ultimately show ?thesis by (simp add: next_request_eq(3))
qed

lemma claim_sample:
  "server_ok (\<lambda>k. 0) 1 1024 (sample_server (serialize_rec claim_value))" "quiet (sample_server b)" "pool_view (run_pool (sample_server b)) = [[]]"
proof -
  have "length (serialize_rec claim_value) = 35" by code_simp
  then show "server_ok (\<lambda>k. 0) 1 1024 (sample_server (serialize_rec claim_value))" by (intro sample_server_ok) simp
  show "quiet (sample_server b)" by (simp add: quiet_def) (simp add: sample_server_def new_session_def Let_def)
  show "pool_view (run_pool (sample_server b)) = [[]]"
    using new_shard_wf(2) [of 1024] by (simp add: sample_pool pool_view_def new_worker_def)
qed

lemma claim_run:
  "\<exists>r. event_run (server_step (\<lambda>k. 0) 1) observe (sample_server (serialize_rec claim_value)) [Invoke 0 claim_command, Respond 0 (SimpleString ''OK'')] r"
proof -
  let ?r = "sample_server (serialize_rec claim_value)"
  have "in_loops (run_pool ?r)" by (simp add: sample_pool in_loops_def)
  moreover have "0 < length (run_sessions ?r)" by (simp add: ping_sample(3))
  moreover have "next_request (buffer (run_sessions ?r ! 0)) = Some (ExecuteRequest claim_command [])" by (simp only: ping_sample(4) claim_request)
  ultimately obtain r i where r: "getShardIndex (\<lambda>k. 0) (hd (cmd_args claim_command)) (pool_size (run_pool ?r)) = Some i"
      "event_run (server_step (\<lambda>k. 0) 1) observe ?r [Invoke 0 claim_command,
        Respond 0 (fst (spec_keyed (unat (1024 :: size_t)) claim_command (\<lambda>_. 0) (pool_view (run_pool ?r) ! unat i)))] r"
    using keyed_command_run [OF claim_sample(1) _ _ ping_sample(5), of claim_command "[]"] by (auto simp: keyed_def)
  have "i = 0" using r(1) by (auto simp: getShardIndex_def split: if_splits)
  then have "fst (spec_keyed (unat (1024 :: size_t)) claim_command (\<lambda>_. 0) (pool_view (run_pool ?r) ! unat i)) = SimpleString ''OK''"
    by (simp add: claim_sample(3) spec_keyed_def spec_set_command_def spec_get_def claim_upper)
  with r(2) show ?thesis by auto
qed

subsection \<open>Properties\<close>

text \<open>C3: \<open>SET NX\<close> excludes. Take any run of the server, with any number of connections and any interleaving, that
  starts with no command being executed and the key \<open>k\<close> not stored. Let the commands that could store, delete or put a
  deadline on \<open>k\<close> all be \<open>SET k v NX\<close>, with any values, and let everything that is stored in the shard of \<open>k\<close> at the
  start or by these and other commands fit its budget. Then at most one of all the commands
  \<open>SET k v NX\<close> is answered \<open>OK\<close>.\<close>

theorem set_nx_excludes:
  assumes "server_ok hash hw m r0" and "quiet r0" and "event_run (server_step hash hw) observe r0 es r"
    and "k \<notin> stored_keys (run_pool r0)" and "n = length (workers (run_pool r0))"
    and "finite S" and "sum pair_size S \<le> unat m" and "entry_pair ` set (pool_view (run_pool r0) ! key_shard hash n k) \<subseteq> S"
    and "\<And>j cmd. Invoke j cmd \<in> set es \<Longrightarrow> touches k cmd \<Longrightarrow> claims k cmd"
    and "\<And>j cmd. Invoke j cmd \<in> set es \<Longrightarrow> key_shard hash n (hd (cmd_args cmd)) = key_shard hash n k \<Longrightarrow> stays_within S cmd"
  shows "length (filter (\<lambda>(cmd, v). claims k cmd \<and> v = SimpleString ''OK'') (answered es)) \<le> 1"
proof -
  let ?a = "\<lparr>caches = pool_caches (run_pool r0), activities = \<lambda>j. Idle\<rparr>" and ?i = "key_shard hash n k"
  note pool = server_okD(1) [OF assms(1)]
  obtain a where run: "atomic_run hash m ?a es a"
    using linear.runs_included [OF assms(3,1) quiet_matches [OF assms(2)]] by blast
  have i: "?i < length (workers (run_pool r0))" using pool assms(5) by (simp add: key_shard_def pool_ok_def)
  have home: "home_entries hash k ?a = pool_view (run_pool r0) ! ?i"
    using i assms(5) by (simp add: home_entries_def pool_view_nth)
  have "wf_shard (shard (workers (run_pool r0) ! ?i))" using pool i by (simp add: pool_ok_def shard_ok_def)
  then have within: "within S (home_entries hash k ?a)"
    using assms(8) lru.view_distinct i by (simp add: home within_def pool_view_nth)
  have "pool_view (run_pool r0) ! ?i \<in> set (pool_view (run_pool r0))" using i by simp
  then have "map_of (home_entries hash k ?a) k = None"
    using assms(4) unfolding home by (auto simp: stored_keys_def entry_keys_def map_of_eq_None_iff)
  moreover have "pool_caches (run_pool r0) \<noteq> []" using i by (auto simp: pool_caches_def)
  ultimately have "lock_inv hash k S ?a (\<lambda>j. None, [])"
    using within by (auto simp: lock_inv_def calls_obey_def lock_count_def holders_def held_def)
  then have "lock_inv hash k S a (history_of es)"
    using lock_inv_run [OF run _ assms(6,7)] assms(5,9,10) by (simp add: obeys_def)
  moreover have "granted k = (\<lambda>(cmd, v). claims k cmd \<and> v = SimpleString ''OK'')" by (auto simp: granted_def fun_eq_iff)
  ultimately show ?thesis by (auto simp: lock_inv_def lock_count_def answered_def split: if_splits)
qed

theorem set_nx_excludes_witness:
  "\<exists>r. event_run (server_step (\<lambda>k. 0) 1) observe (sample_server (serialize_rec claim_value))
      [Invoke 0 claim_command, Respond 0 (SimpleString ''OK'')] r \<and>
    answered [Invoke 0 claim_command, Respond 0 (SimpleString ''OK'')] = [(claim_command, SimpleString ''OK'')] \<and>
    length (filter (\<lambda>(cmd, v). claims ''a'' cmd \<and> v = SimpleString ''OK'')
      (answered [Invoke 0 claim_command, Respond 0 (SimpleString ''OK'')])) \<le> 1"
proof -
  obtain r where run: "event_run (server_step (\<lambda>k. 0) 1) observe (sample_server (serialize_rec claim_value))
      [Invoke 0 claim_command, Respond 0 (SimpleString ''OK'')] r" using claim_run by blast
  let ?p = "run_pool (sample_server (serialize_rec claim_value))"
  have n: "length (workers ?p) = 1" and free: "''a'' \<notin> stored_keys ?p" by (simp_all add: sample_pool stored_keys_def entry_keys_def claim_sample(3) [unfolded sample_pool])
  have "length (filter (\<lambda>(cmd, v). claims ''a'' cmd \<and> v = SimpleString ''OK'') (answered [Invoke 0 claim_command, Respond 0 (SimpleString ''OK'')])) \<le> 1"
    by (rule set_nx_excludes [OF claim_sample(1,2) run free n [symmetric], where S = "{(''a'', ''1'')}"])
      (simp_all add: claim_sample(3) pair_size_def key_shard_def claims_def stays_within_def claim_upper)
  then show ?thesis using run by (auto simp: answered_def history_of_def)
qed

end
