(* ===== verification/Expiry_Liveness.thy ===== *)
theory Expiry_Liveness
  imports Server_Liveness
begin

section \<open>Expired keys are collected\<close>

text \<open>
  The cleaning loops in the running server, with time. \<open>timed\<close> ties the readings a cleaning loop makes
  to a clock that never goes back and passes every time; all other readings remain arbitrary. A
  cleaning loop sleeps until the time its timer was armed for; nobody else touches the timer. So,
  however far away that time is, the loop wakes up after it, and what had expired before is gone
  then. \<open>expired_entry_lifetime\<close> bounds how late this can be, under a bound on how late the loop is
  scheduled.
\<close>

definition timed :: "(nat \<Rightarrow> actor) \<Rightarrow> (nat \<Rightarrow> time_point) \<Rightarrow> bool" where
  "timed acts now \<longleftrightarrow> mono now \<and> (\<forall>t. \<exists>k. t \<le> now k) \<and> (\<forall>k i t t'. acts k = Act_cleaner i t t' \<longrightarrow> t = now k)"

text \<open>Weak fairness for the cleaning loop of a worker: if from some time on it could always go on, with the
  reading of that moment, it does go on.\<close>

definition cleaner_fair ::
  "(bytes \<Rightarrow> uint64) \<Rightarrow> uint32 \<Rightarrow> (nat \<Rightarrow> Running) \<Rightarrow> (nat \<Rightarrow> actor) \<Rightarrow> (nat \<Rightarrow> time_point) \<Rightarrow> size_t \<Rightarrow> bool" where
  "cleaner_fair hash hw \<sigma> acts now i \<longleftrightarrow>
     fair_to (server_step hash hw) \<sigma> acts (\<lambda>k. Act_cleaner i (now k) (now k)) (\<lambda>b. \<exists>t t'. b = Act_cleaner i t t')"

abbreviation shard_entries :: "size_t \<Rightarrow> Running \<Rightarrow> entry list" where
  "shard_entries i r \<equiv> entries (shard (workers (run_pool r) ! unat i))"

text \<open>A turn of the cleaning loop leaves nothing that had expired by its reading of the clock.\<close>

lemma cleaner_step_purges:
  assumes ok: "server_ok hash hw m r" and "server_step hash hw r (Act_cleaner i t t') r'"
  shows "\<forall>(k, v, d) \<in> set (shard_entries i r'). \<not> is_expired d t"
  using assms(2)
proof cases
  case (step_clean th w clk wake sh)
  have i: "unat i < length (workers (run_pool r))" using step_clean by (simp add: worker_at_def split: if_splits)
  have "entries sh = spec_purge (clk 0) (entries (shard w))"
    using purge_ok [OF worker_at_less(2) [OF server_okD(1) [OF ok] step_clean(5)], of "clk 0"] step_clean by (auto simp: cleaning_turn_def)
  then show ?thesis using step_clean(1,3) i by (auto simp: shard_put_shard spec_purge_def)
qed

text \<open>It arms the timer for the earliest deadline left, or for its second reading of the clock if that is later.\<close>

lemma arm_timer_bounds:
  assumes "wf_shard s"
  shows "now \<le> arm_timer now s" "d \<in> deadlines (entries s) \<Longrightarrow> arm_timer now s \<le> max now d"
proof -
  show "now \<le> arm_timer now s" by (auto simp: arm_timer_def idle_period_def nanos_per_second_def split: option.splits)
  show "arm_timer now s \<le> max now d" if "d \<in> deadlines (entries s)"
  proof -
    have "finite (deadlines (entries s))" using deadlines_expire_map [OF wf_shardD(1) [OF assms]] by simp
    then have "Min (deadlines (entries s)) \<le> d" using that by (rule Min_le)
    with that show ?thesis by (auto simp: arm_timer_def get_next_expire_time_refines [OF assms] spec_next_def)
  qed
qed

lemma cleaner_step_arms:
  assumes ok: "server_ok hash hw m r" and "server_step hash hw r (Act_cleaner i t t') r'"
  shows "t' \<le> wake_times r' ! unat i" "d \<in> deadlines (shard_entries i r') \<Longrightarrow> t < d \<and> wake_times r' ! unat i \<le> max t' d"
proof -
  have "t' \<le> wake_times r' ! unat i \<and> (d \<in> deadlines (shard_entries i r') \<longrightarrow> wake_times r' ! unat i \<le> max t' d)"
    using assms(2)
  proof cases
    case (step_clean th w clk wake sh)
    have i: "unat i < length (workers (run_pool r))" using step_clean by (simp add: worker_at_def split: if_splits)
    have "wf_shard (shard w)" using worker_at_less(2) [OF server_okD(1) [OF ok] step_clean(5)] by (simp add: shard_ok_def)
    then have "wf_shard sh" "wake = arm_timer t' sh"
      using remove_expired_keys_refines [of "shard w" "clk 0"] step_clean(2,8) by (auto simp: cleaning_turn_def)
    with arm_timer_bounds(1) [of sh t'] arm_timer_bounds(2) [of sh d t'] step_clean(3,6) i show ?thesis by (simp add: shard_put_shard)
  qed
  moreover have "t < d" if "d \<in> deadlines (shard_entries i r')"
    using cleaner_step_purges [OF assms] that by (fastforce simp: deadlines_def is_expired_def)
  ultimately show "t' \<le> wake_times r' ! unat i" "d \<in> deadlines (shard_entries i r') \<Longrightarrow> t < d \<and> wake_times r' ! unat i \<le> max t' d"
    by blast+
qed

text \<open>Nobody else changes the time a running cleaning loop waits for.\<close>

lemma wake_kept:
  assumes "server_step hash hw r a r'" and "\<And>t t'. a \<noteq> Act_cleaner i t t'" and "worker_thread (workers (run_pool r) ! unat i) = InLoop t"
  shows "wake_times r' ! unat i = wake_times r ! unat i"
  using assms(1)
proof cases
  case (step_clean i' th w clk wake sh)
  then have "unat i' \<noteq> unat i" using assms(2) by (auto simp flip: word_unat_eq_iff)
  with step_clean(2) show ?thesis by simp
next
  case (step_thread_begin i' w t' now)
  then have "i' \<noteq> unat i" using assms(3) by auto
  with step_thread_begin(2) show ?thesis by simp
qed simp_all

text \<open>Only a closure of a session and the shard's own cleaning loop change what a shard holds.\<close>

lemma entries_changed:
  assumes "server_step hash hw r a r'" and ok: "server_ok hash hw m r" and i: "unat i < length (workers (run_pool r))"
    and "\<And>t t'. a \<noteq> Act_cleaner i t t'" and "shard_entries i r' \<noteq> shard_entries i r"
  shows "\<exists>j f. a = Act_session j \<and> phase (run_sessions r ! j) = Executing (OnShard i f)"
proof -
  have kept: "shard (workers (put_shard i' sh (run_pool r)) ! unat i) = shard (workers (run_pool r) ! unat i)"
    if "i' \<noteq> i" for i' sh
    using that i by (simp add: put_shard_def nth_list_update flip: word_unat_eq_iff)
  show ?thesis
    using assms(1)
  proof cases
    case (step_shard j s i' f th w clk t sh)
    then show ?thesis using assms(5) kept [of i' sh] by (cases "i' = i") auto
  next
    case (step_clean i' th w clk wake sh)
    then show ?thesis using assms(4,5) kept [of i' sh] by (cases "i' = i") auto
  next
    case (step_join p p')
    then have "map shard (workers p') = map shard (workers (run_pool r))"
      using server_ok_join(2) [OF ok step_join(3,4)] join_threads_shards [OF step_join(4)] by simp
    then have "shard (workers p' ! unat i) = shard (workers (run_pool r) ! unat i)" using i by (metis length_map nth_map)
    with step_join(2) assms(5) show ?thesis by simp
  qed (use assms(5) i in \<open>auto simp: nth_list_update listener_turn_def stop_loops_def split: if_splits\<close>)
qed

lemma cleaner_enabled:
  assumes ok: "server_ok hash hw m r" and "in_loops (run_pool r)" and i: "i < pool_size (run_pool r)"
    and "wake_times r ! unat i \<le> t"
  shows "\<exists>r'. server_step hash hw r (Act_cleaner i t t') r'"
proof -
  let ?w = "workers (run_pool r) ! unat i"
  note pool = server_okD(1) [OF ok]
  have i': "unat i < length (workers (run_pool r))" using i pool_okD(1) [OF pool] by (simp add: word_less_nat_alt)
  obtain th where th: "loop_thread i (run_pool r) = Some th" using loop_thread_exists [OF assms(1-3)] by blast
  let ?clk = "\<lambda>j. if j = 0 then t else t'"
  have "cleaning_turn ?clk (shard ?w) \<noteq> None" using server_ok_defined [OF ok] i' by (simp add: server_defined_def)
  then obtain wake sh where "cleaning_turn ?clk (shard ?w) = Some (wake, sh)" by auto
  with step_clean [OF th pool_okD(3) [OF pool i] _ _ this, of hash hw] server_okD(5) [OF ok] i' assms(4) show ?thesis by auto
qed

lemma cleaner_comes:
  assumes run: "is_run (server_step hash hw) \<sigma> acts" and ok: "server_ok hash hw m (\<sigma> 0)" and main: "\<And>k. run_main (\<sigma> k) = Main_Loop"
    and threads: "\<And>i. fair (server_step hash hw) \<sigma> acts (Act_thread i)" and time: "timed acts now" and fair: "cleaner_fair hash hw \<sigma> acts now i"
    and i: "i < pool_size (run_pool (\<sigma> 0))"
  shows "\<exists>k' \<ge> k. \<exists>t'. acts k' = Act_cleaner i (now k') t'"
proof -
  obtain k0 where k0: "\<And>k. k0 \<le> k \<Longrightarrow> in_loops (run_pool (\<sigma> k))" using loops_eventually [OF run ok main threads] by blast
  have i: "i < pool_size (run_pool (\<sigma> l))" for l using i run_workers_length [OF run ok main, of l] by (simp add: pool_size_def)
  have i': "unat i < length (workers (run_pool (\<sigma> l)))" for l
    using i [of l] pool_okD(1) [OF server_okD(1) [OF run_ok [OF run ok]]] by (simp add: word_less_nat_alt)
  let ?k = "max k k0"
  let ?W = "wake_times (\<sigma> ?k) ! unat i"
  obtain k1 where k1: "?W \<le> now k1" using time unfolding timed_def by blast
  have "\<exists>k' \<ge> ?k. (\<exists>t t'. acts k' = Act_cleaner i t t') \<and> wake_times (\<sigma> k') ! unat i = ?W"
  proof (rule turn_comes [where P = "\<lambda>l. wake_times (\<sigma> l) ! unat i = ?W" and kind = "\<lambda>b. \<exists>t t'. b = Act_cleaner i t t'"
        and late = "max ?k k1", OF refl fair [unfolded cleaner_fair_def]])
    show "wake_times (\<sigma> (Suc l)) ! unat i = ?W"
      if l: "?k \<le> l" and kept: "wake_times (\<sigma> l) ! unat i = ?W" "\<nexists>t t'. acts l = Act_cleaner i t t'" for l
    proof -
      obtain t where "worker_thread (workers (run_pool (\<sigma> l)) ! unat i) = InLoop t"
        using k0 [of l] l nth_mem [OF i' [of l]] unfolding in_loops_def by fastforce
      from wake_kept [OF run_step [OF run] _ this] kept show ?thesis by auto
    qed
    show "\<exists>r'. server_step hash hw (\<sigma> l) (Act_cleaner i (now l) (now l)) r'" if "max ?k k1 \<le> l" "wake_times (\<sigma> l) ! unat i = ?W" for l
      using cleaner_enabled [OF run_ok [OF run ok] k0 i, of l "now l"] that k1 time monoD [of now k1 l]
      unfolding timed_def by auto
  qed
  then show ?thesis using time unfolding timed_def by (metis max.boundedE)
qed

subsection \<open>How late a cleaning loop can be\<close>

text \<open>\<open>punctual \<sigma> acts now i late dur\<close>: the cleaning loop of worker \<open>i\<close> never is overdue by more than \<open>late\<close>, and the
  second reading of the clock in a turn is at most \<open>dur\<close> after the first, which is the current time.\<close>

definition punctual ::
  "(nat \<Rightarrow> Running) \<Rightarrow> (nat \<Rightarrow> actor) \<Rightarrow> (nat \<Rightarrow> time_point) \<Rightarrow> size_t \<Rightarrow> int \<Rightarrow> int \<Rightarrow> bool" where
  "punctual \<sigma> acts now i late dur \<longleftrightarrow>
     0 \<le> dur \<and> (\<forall>k. now k \<le> wake_times (\<sigma> k) ! unat i + late) \<and>
     (\<forall>k t t'. acts k = Act_cleaner i t t' \<longrightarrow> t = now k \<and> t' \<le> t + dur)"

text \<open>While a deadline stays in a shard, the timer is not armed for a time beyond it.\<close>

lemma wake_before_deadline:
  assumes run: "is_run (server_step hash hw) \<sigma> acts" and ok: "server_ok hash hw m (\<sigma> 0)" and main: "\<And>k. run_main (\<sigma> k) = Main_Loop"
    and i: "i < pool_size (run_pool (\<sigma> 0))" and loop: "worker_thread (workers (run_pool (\<sigma> k)) ! unat i) = InLoop th"
    and punctual: "punctual \<sigma> acts now i late dur" and "k \<le> k'" and "\<And>l. k \<le> l \<Longrightarrow> l \<le> k' \<Longrightarrow> d \<in> deadlines (shard_entries i (\<sigma> l))"
  shows "wake_times (\<sigma> k') ! unat i \<le> max (d + dur) (wake_times (\<sigma> k) ! unat i)"
  using assms(7,8)
proof (induction rule: dec_induct)
  case (step n)
  have i': "unat i < length (workers (run_pool (\<sigma> 0)))"
    using i pool_okD(1) [OF server_okD(1) [OF ok]] by (simp add: word_less_nat_alt)
  note go = run_step [OF run, of n]
  show ?case
  proof (cases "\<exists>t t'. acts n = Act_cleaner i t t'")
    case True
    then obtain t t' where a: "acts n = Act_cleaner i t t'" by blast
    with punctual have "t' \<le> t + dur" "0 \<le> dur" by (auto simp: punctual_def)
    moreover have "t < d \<and> wake_times (\<sigma> (Suc n)) ! unat i \<le> max t' d"
      using cleaner_step_arms(2) [OF run_ok [OF run ok] go [unfolded a]] step by simp
    ultimately show ?thesis by auto
  next
    case False
    have "worker_thread (workers (run_pool (\<sigma> n)) ! unat i) = InLoop th"
      using loop_stays [OF run ok main i' loop] step.hyps by simp
    from wake_kept [OF go _ this] False step show ?thesis by auto
  qed
qed simp

subsection \<open>Such runs exist\<close>

definition cleaning_state :: "(bytes \<Rightarrow> uint64) \<Rightarrow> uint32 \<Rightarrow> size_t \<Rightarrow> size_t \<Rightarrow> Running \<times> time_point \<Rightarrow> bool" where
  "cleaning_state hash hw m i x \<longleftrightarrow>
     server_ok hash hw m (fst x) \<and> run_main (fst x) = Main_Loop \<and> in_loops (run_pool (fst x)) \<and>
     i < pool_size (run_pool (fst x)) \<and> wake_times (fst x) ! unat i \<le> snd x \<and> snd x \<le> wake_times (fst x) ! unat i + 1"

lemma in_loops_put_shard [simp]: "in_loops (put_shard i sh p) = in_loops p"
  by (simp add: in_loops_def all_set_conv_all_nth)

lemma cleaner_step_loops:
  assumes "server_step hash hw r (Act_cleaner i t t') r'"
  shows "run_main r' = run_main r \<and> pool_size (run_pool r') = pool_size (run_pool r) \<and> in_loops (run_pool r') = in_loops (run_pool r)"
  using assms by (cases rule: server_step.cases) simp

lemma cleaning_state_step:
  assumes "cleaning_state hash hw m i x"
  shows "\<exists>y. cleaning_state hash hw m i y \<and> server_step hash hw (fst x) (Act_cleaner i (snd x) (snd x)) (fst y) \<and> snd x + 1 \<le> snd y"
proof -
  obtain r' where r': "server_step hash hw (fst x) (Act_cleaner i (snd x) (snd x)) r'"
    using assms cleaner_enabled unfolding cleaning_state_def by blast
  have "cleaning_state hash hw m i (r', max (snd x + 1) (wake_times r' ! unat i))"
    using assms cleaner_step_loops [OF r'] server_step_ok [OF r'] cleaner_step_arms(1) [OF _ r', of m] by (simp add: cleaning_state_def)
  with r' show ?thesis by fastforce
qed

lemma no_thread_step:
  assumes "server_ok hash hw m r" and "run_main r = Main_Loop" and "in_loops (run_pool r)"
  shows "\<not> server_step hash hw r (Act_thread i) r'"
proof
  assume "server_step hash hw r (Act_thread i) r'"
  then show False
  proof cases
    case (step_thread_begin w t now)
    with assms(3) nth_mem show False unfolding in_loops_def by fastforce
  next
    case (step_thread_return w t)
    with server_okD(3) [OF assms(1)] assms(2) show False by (auto simp: worker_ok_def)
  qed
qed

lemma cleaning_run_exists:
  assumes "cleaning_state hash hw m i (r, t)"
  shows "\<exists>\<sigma> acts now. is_run (server_step hash hw) \<sigma> acts \<and> \<sigma> 0 = r \<and> (\<forall>k. run_main (\<sigma> k) = Main_Loop) \<and>
    (\<forall>i. fair (server_step hash hw) \<sigma> acts (Act_thread i)) \<and> timed acts now \<and> cleaner_fair hash hw \<sigma> acts now i \<and>
    punctual \<sigma> acts now i 1 0"
proof -
  obtain f where f: "\<And>n. cleaning_state hash hw m i (f n) \<and> (n = 0 \<longrightarrow> f n = (r, t))"
      "\<And>n. server_step hash hw (fst (f n)) (Act_cleaner i (snd (f n)) (snd (f n))) (fst (f (Suc n))) \<and> snd (f n) + 1 \<le> snd (f (Suc n))"
    using dependent_nat_choice [of "\<lambda>n x. cleaning_state hash hw m i x \<and> (n = 0 \<longrightarrow> x = (r, t))"
        "\<lambda>n x y. server_step hash hw (fst x) (Act_cleaner i (snd x) (snd x)) (fst y) \<and> snd x + 1 \<le> snd y"]
      assms cleaning_state_step by (metis nat.distinct(1))
  let ?acts = "\<lambda>k. Act_cleaner i (snd (f k)) (snd (f k))"
  have later: "t + int k \<le> snd (f k)" for k
  proof (induction k)
    case (Suc k)
    then show ?case using f(2) [of k] by simp
  qed (use f(1) [of 0] in simp)
  have "\<exists>k. t' \<le> snd (f k)" for t' using later [of "nat (t' - t)"] by (intro exI [of _ "nat (t' - t)"]) linarith
  moreover have "mono (\<lambda>k. snd (f k))" 
  proof -
    have "snd (f k) \<le> snd (f (Suc k))" for k using f(2) [of k] by simp
    then show ?thesis by (simp add: mono_iff_le_Suc)
  qed
  ultimately have "timed ?acts (\<lambda>k. snd (f k))" by (simp add: timed_def)
  moreover have "fair (server_step hash hw) (\<lambda>k. fst (f k)) ?acts (Act_thread l)" for l
    using no_thread_step f(1) unfolding cleaning_state_def by (intro never_fair) blast
  moreover have "is_run (server_step hash hw) (\<lambda>k. fst (f k)) ?acts" using f(2) by (simp add: is_run_def)
  moreover have "cleaner_fair hash hw (\<lambda>k. fst (f k)) ?acts (\<lambda>k. snd (f k)) i" by (auto simp: cleaner_fair_def fair_to_def)
  moreover have "punctual (\<lambda>k. fst (f k)) ?acts (\<lambda>k. snd (f k)) i 1 0" using f(1) by (simp add: punctual_def cleaning_state_def)
  moreover have "fst (f 0) = r" "run_main (fst (f k)) = Main_Loop" for k using f(1) [of 0] f(1) [of k] by (simp_all add: cleaning_state_def)
  ultimately show ?thesis by (intro exI [of _ "\<lambda>k. fst (f k)"] exI [of _ ?acts] exI [of _ "\<lambda>k. snd (f k)"]) simp
qed

lemma cleaning_sample:
  "\<exists>\<sigma> acts now t. is_run (server_step (\<lambda>k. 0) 1) \<sigma> acts \<and> server_ok (\<lambda>k. 0) 1 1024 (\<sigma> 0) \<and> (\<forall>k. run_main (\<sigma> k) = Main_Loop) \<and>
    (\<forall>i. fair (server_step (\<lambda>k. 0) 1) \<sigma> acts (Act_thread i)) \<and> timed acts now \<and> cleaner_fair (\<lambda>k. 0) 1 \<sigma> acts now 0 \<and>
    punctual \<sigma> acts now 0 1 0 \<and> 0 < pool_size (run_pool (\<sigma> 0)) \<and> worker_thread (workers (run_pool (\<sigma> 0)) ! unat (0 :: size_t)) = InLoop t \<and>
    wake_times (\<sigma> 0) = [0] \<and> shard_entries 0 (\<sigma> 0) = [(''a'', ''1'', Some 1000000000)]"
proof -
  let ?cs = "[CallSet ''a'' ''1'' (Some 1) 0]"
  let ?r0 = "sample_server []"
  let ?r = "set_pool (put_shard 0 (shard_after 1024 ?cs) (run_pool ?r0)) (?r0\<lparr>wake_times := [0]\<rparr>)"
  have "list_all (call_fits (unat (1024 :: size_t))) ?cs" by simp
  note after = shard_after_wf [OF this]
  have es: "entries (shard_after 1024 ?cs) = [(''a'', ''1'', Some 1000000000)]" unfolding after(2) by (simp add: spec_eval)
  have size: "pool_size (run_pool ?r0) = 1" by (simp add: sample_pool pool_size_def)
  have "shard_ok (\<lambda>k. 0) 1 1024 0 (shard_after 1024 ?cs)" using after by (simp add: shard_ok_def getShardIndex_def)
  then have ok: "server_ok (\<lambda>k. 0) 1 1024 ?r"
    using sample_server_ok [of "[]" "\<lambda>k. 0" 1] size by (intro server_ok_shard) (simp_all add: sample_server_def Let_def)
  have loop: "worker_thread (workers (run_pool ?r) ! unat (0 :: size_t)) = InLoop 0" by (simp add: sample_pool put_shard_def)
  have "cleaning_state (\<lambda>k. 0) 1 1024 0 (?r, 0)"
    using size ok by (simp add: cleaning_state_def ping_sample(2)) (simp add: sample_pool put_shard_def in_loops_def)
  moreover have "shard_entries 0 ?r = [(''a'', ''1'', Some 1000000000)]" "wake_times ?r = [0]" "0 < pool_size (run_pool ?r)"
    using es size by (simp_all add: sample_pool put_shard_def pool_size_def)
  ultimately show ?thesis using cleaning_run_exists ok loop by metis
qed

text \<open>A state whose timer is armed for five seconds, with an entry that expires after one.\<close>

definition late_timer :: Running where
  "late_timer = (let r = sample_server []
     in set_pool (put_shard 0 (shard_after 1024 [CallSet ''a'' ''1'' (Some 1) 0]) (run_pool r)) (r\<lparr>wake_times := [5000000000]\<rparr>))"

lemma late_timer:
  "server_ok (\<lambda>k. 0) 1 1024 late_timer" "run_main late_timer = Main_Loop" "pool_size (run_pool late_timer) = 1"
  "worker_thread (workers (run_pool late_timer) ! unat (0 :: size_t)) = InLoop 0" "wake_times late_timer = [5000000000]"
  "shard_entries 0 late_timer = [(''a'', ''1'', Some 1000000000)]"
proof -
  let ?cs = "[CallSet ''a'' ''1'' (Some 1) 0]"
  have "list_all (call_fits (unat (1024 :: size_t))) ?cs" by simp
  note after = shard_after_wf [OF this]
  have size: "pool_size (run_pool (sample_server [])) = 1" by (simp add: sample_pool pool_size_def)
  have "shard_ok (\<lambda>k. 0) 1 1024 0 (shard_after 1024 ?cs)" using after by (simp add: shard_ok_def getShardIndex_def)
  then show "server_ok (\<lambda>k. 0) 1 1024 late_timer"
    using sample_server_ok [of "[]" "\<lambda>k. 0" 1] size unfolding late_timer_def Let_def
    by (intro server_ok_shard) (simp_all add: sample_server_def Let_def)
  show "worker_thread (workers (run_pool late_timer) ! unat (0 :: size_t)) = InLoop 0"
    by (simp add: late_timer_def Let_def sample_pool put_shard_def)
  have "entries (shard_after 1024 ?cs) = [(''a'', ''1'', Some 1000000000)]" unfolding after(2) by (simp add: spec_eval)
  then show "shard_entries 0 late_timer = [(''a'', ''1'', Some 1000000000)]"
    by (simp add: late_timer_def Let_def sample_pool put_shard_def)
qed (simp_all add: late_timer_def Let_def ping_sample(2) sample_pool pool_size_def)

subsection \<open>Properties\<close>

text \<open>C17: Expired keys are collected. In every run of the server that is not shut down, in which the clock
  advances beyond every time and the worker threads and the cleaning loop of a shard are scheduled
  fairly, at whatever moment one looks there is a later moment at which the shard holds no entry
  that had expired by then: memory of expired keys is given back even if no client ever asks for
  them again.\<close>

theorem expired_keys_collected:
  assumes "is_run (server_step hash hw) \<sigma> acts" and "server_ok hash hw m (\<sigma> 0)" and "\<And>k. run_main (\<sigma> k) = Main_Loop"
    and "\<And>i. fair (server_step hash hw) \<sigma> acts (Act_thread i)" and "timed acts now" and "cleaner_fair hash hw \<sigma> acts now i"
    and "i < pool_size (run_pool (\<sigma> 0))"
  shows "\<exists>k' \<ge> k. \<forall>(key, v, d) \<in> set (shard_entries i (\<sigma> k')). \<not> is_expired d (now k)"
proof -
  obtain k' t' where k': "k \<le> k'" "acts k' = Act_cleaner i (now k') t'" using cleaner_comes [OF assms] by blast
  have "server_step hash hw (\<sigma> k') (Act_cleaner i (now k') t') (\<sigma> (Suc k'))" using run_step [OF assms(1), of k'] k'(2) by simp
  from cleaner_step_purges [OF run_ok [OF assms(1,2)] this]
  have gone: "\<forall>(key, v, d) \<in> set (shard_entries i (\<sigma> (Suc k'))). \<not> is_expired d (now k')" .
  have "now k \<le> now k'" using assms(5) k'(1) by (auto simp: timed_def dest: monoD)
  with gone have "\<forall>(key, v, d) \<in> set (shard_entries i (\<sigma> (Suc k'))). \<not> is_expired d (now k)"
    by (auto simp: is_expired_def split: option.splits)
  with k'(1) show ?thesis by (intro exI [of _ "Suc k'"]) simp
qed

theorem expired_keys_collected_witness:
  "\<exists>\<sigma> acts k k'. is_run (server_step (\<lambda>k. 0) 1) \<sigma> acts \<and> shard_entries 0 (\<sigma> k) = [(''a'', ''1'', Some 1000000000)] \<and>
    (''a'', ''1'', Some 1000000000) \<notin> set (shard_entries 0 (\<sigma> k'))"
proof -
  obtain \<sigma> acts now where run: "is_run (server_step (\<lambda>k. 0) 1) \<sigma> acts" "server_ok (\<lambda>k. 0) 1 1024 (\<sigma> 0)"
      "\<And>k. run_main (\<sigma> k) = Main_Loop" "\<And>i. fair (server_step (\<lambda>k. 0) 1) \<sigma> acts (Act_thread i)" "timed acts now" "cleaner_fair (\<lambda>k. 0) 1 \<sigma> acts now 0"
      "0 < pool_size (run_pool (\<sigma> 0))" and es: "shard_entries 0 (\<sigma> 0) = [(''a'', ''1'', Some 1000000000)]"
    using cleaning_sample by metis
  obtain k where k: "1000000000 \<le> now k" using run(5) unfolding timed_def by blast
  from expired_keys_collected [OF run, of k] obtain k' where
    "\<forall>(key, v, d) \<in> set (shard_entries 0 (\<sigma> k')). \<not> is_expired d (now k)" by blast
  then have "(''a'', ''1'', Some 1000000000) \<notin> set (shard_entries 0 (\<sigma> k'))" using k by (auto simp: is_expired_def)
  with es run(1) show ?thesis by blast
qed

text \<open>C35: No command wakes a cleaning loop. In a run of the server, as long as the time has not reached what the
  timer of a running cleaning loop was armed for at some moment, the timer stays armed for just that,
  the loop makes no turn, and only closures that sessions run on the shard change what it holds.
  This holds whatever sessions do: when a \<open>SET\<close> or an \<open>EXPIRE\<close> stores a deadline before the time the timer is armed for,
  which is as far away as the earliest deadline clients had asked for earlier, or three seconds, the expired entry keeps its
  memory until that time unless a client's command happens to remove it.\<close>

theorem timer_not_rearmed:
  assumes "is_run (server_step hash hw) \<sigma> acts" and "server_ok hash hw m (\<sigma> 0)" and "\<And>k. run_main (\<sigma> k) = Main_Loop" and "timed acts now"
    and "i < pool_size (run_pool (\<sigma> 0))" and "worker_thread (workers (run_pool (\<sigma> k)) ! unat i) = InLoop th"
    and "now k' < wake_times (\<sigma> k) ! unat i"
  shows "\<forall>l. k \<le> l \<and> l \<le> k' \<longrightarrow> wake_times (\<sigma> l) ! unat i = wake_times (\<sigma> k) ! unat i \<and>
    (\<forall>t t'. acts l \<noteq> Act_cleaner i t t') \<and>
    (shard_entries i (\<sigma> (Suc l)) \<noteq> shard_entries i (\<sigma> l) \<longrightarrow>
      (\<exists>j f. acts l = Act_session j \<and> phase (run_sessions (\<sigma> l) ! j) = Executing (OnShard i f)))"
proof (intro allI impI)
  fix l
  assume l: "k \<le> l \<and> l \<le> k'"
  have i: "unat i < length (workers (run_pool (\<sigma> l)))" for l
    using assms(5) pool_okD(1) [OF server_okD(1) [OF assms(2)]] run_workers_length [OF assms(1-3), of l] by (simp add: word_less_nat_alt)
  have idle: "acts n \<noteq> Act_cleaner i t t'" if "wake_times (\<sigma> n) ! unat i = wake_times (\<sigma> k) ! unat i" "n \<le> k'" for n t t'
  proof
    assume a: "acts n = Act_cleaner i t t'"
    then have "t = now n" "now n \<le> now k'" using assms(4) that(2) by (auto simp: timed_def dest: monoD)
    moreover have "wake_times (\<sigma> n) ! unat i \<le> t"
      using run_step [OF assms(1), of n] unfolding a by (cases rule: server_step.cases) simp
    ultimately show False using assms(7) that(1) by simp
  qed
  have "wake_times (\<sigma> l) ! unat i = wake_times (\<sigma> k) ! unat i"
    using conjunct1 [OF l] conjunct2 [OF l]
  proof (induction rule: dec_induct)
    case (step n)
    have "worker_thread (workers (run_pool (\<sigma> n)) ! unat i) = InLoop th"
      by (rule loop_stays [OF assms(1-3) i assms(6) step.hyps(1)])
    from wake_kept [OF run_step [OF assms(1)] _ this] idle [of n] step show ?case by simp
  qed simp
  with idle entries_changed [OF run_step [OF assms(1)] run_ok [OF assms(1,2)] i] l
  show "wake_times (\<sigma> l) ! unat i = wake_times (\<sigma> k) ! unat i \<and> (\<forall>t t'. acts l \<noteq> Act_cleaner i t t') \<and>
    (shard_entries i (\<sigma> (Suc l)) \<noteq> shard_entries i (\<sigma> l) \<longrightarrow>
      (\<exists>j f. acts l = Act_session j \<and> phase (run_sessions (\<sigma> l) ! j) = Executing (OnShard i f)))"
    by blast
qed

theorem timer_not_rearmed_witness:
  "\<exists>\<sigma> acts now k'. is_run (server_step (\<lambda>k. 0) 1) \<sigma> acts \<and> timed acts now \<and>
    shard_entries 0 (\<sigma> 0) = [(''a'', ''1'', Some 1000000000)] \<and> wake_times (\<sigma> k') = [5000000000] \<and>
    1000000000 < now k' \<and> shard_entries 0 (\<sigma> k') = [(''a'', ''1'', Some 1000000000)]"
proof -
  let ?\<sigma> = "\<lambda>k. (failed_accept ^^ k) late_timer" and ?acts = "\<lambda>k. Act_listener" and ?now = "\<lambda>k. 1000000000 * int k"
  have main: "run_main (?\<sigma> k) = Main_Loop" for k by (simp add: failed_accepts late_timer(2))
  then have run: "is_run (server_step (\<lambda>k. 0) 1) ?\<sigma> ?acts" using failed_accept_step by (simp add: is_run_def)
  have "\<exists>k. t \<le> ?now k" for t by (intro exI [of _ "nat t"]) linarith
  then have time: "timed ?acts ?now" by (auto simp: timed_def mono_def)
  have "\<forall>l. 0 \<le> l \<and> l \<le> 2 \<longrightarrow> wake_times (?\<sigma> l) ! unat (0 :: size_t) = wake_times (?\<sigma> 0) ! unat (0 :: size_t) \<and>
      (\<forall>t t'. Act_listener \<noteq> Act_cleaner 0 t t') \<and> (shard_entries 0 (?\<sigma> (Suc l)) \<noteq> shard_entries 0 (?\<sigma> l) \<longrightarrow>
        (\<exists>j f. Act_listener = Act_session j \<and> phase (run_sessions (?\<sigma> l) ! j) = Executing (OnShard 0 f)))"
    by (rule timer_not_rearmed [OF run _ main time]) (use late_timer in simp_all)
  then have same: "wake_times (?\<sigma> 2) ! 0 = 5000000000" "shard_entries 0 (?\<sigma> 1) = shard_entries 0 (?\<sigma> 0)"
      "shard_entries 0 (?\<sigma> 2) = shard_entries 0 (?\<sigma> 1)"
    using late_timer(5) by (auto simp del: funpow.simps simp: numeral_2_eq_2)
  moreover have "length (wake_times (?\<sigma> 2)) = 1" using late_timer(5) by (simp add: numeral_2_eq_2 failed_accept_def)
  ultimately have "wake_times (?\<sigma> 2) = [5000000000]" by (auto simp: length_Suc_conv)
  with run time same(2,3) late_timer(6) show ?thesis
    by (intro exI [of _ ?\<sigma>] exI [of _ ?acts] exI [of _ ?now] exI [of _ 2]) simp
qed

text \<open>C34: How long an expired entry can keep its memory. Let the cleaning loop of a shard never be overdue by more
  than \<open>late\<close> and a turn of it take at most \<open>dur\<close> between its two readings of the clock. If a deadline \<open>d\<close> is
  in the shard from some moment on without interruption, then the time is at most \<open>late\<close> past the later
  of \<open>d + dur\<close> and the time the timer was armed for at the first of these moments, whatever clients do
  meanwhile. The second bound is needed, as \<open>timer_not_rearmed\<close> shows.\<close>

theorem expired_entry_lifetime:
  assumes "is_run (server_step hash hw) \<sigma> acts" and "server_ok hash hw m (\<sigma> 0)" and "\<And>k. run_main (\<sigma> k) = Main_Loop"
    and "i < pool_size (run_pool (\<sigma> 0))" and "worker_thread (workers (run_pool (\<sigma> k)) ! unat i) = InLoop th"
    and "punctual \<sigma> acts now i late dur" and "k \<le> k'" and "\<And>l. k \<le> l \<Longrightarrow> l \<le> k' \<Longrightarrow> d \<in> deadlines (shard_entries i (\<sigma> l))"
  shows "now k' \<le> max (d + dur) (wake_times (\<sigma> k) ! unat i) + late"
proof -
  have "now k' \<le> wake_times (\<sigma> k') ! unat i + late" using assms(6) by (simp add: punctual_def)
  with wake_before_deadline [OF assms] show ?thesis by simp
qed

theorem expired_entry_lifetime_witness:
  "\<exists>\<sigma> acts now k'. is_run (server_step (\<lambda>k. 0) 1) \<sigma> acts \<and> punctual \<sigma> acts now 0 1 0 \<and> 1000000000 \<in> deadlines (shard_entries 0 (\<sigma> 0)) \<and>
    1000000001 < now k' \<and> (\<exists>l \<le> k'. 1000000000 \<notin> deadlines (shard_entries 0 (\<sigma> l)))"
proof -
  obtain \<sigma> acts now t where run: "is_run (server_step (\<lambda>k. 0) 1) \<sigma> acts" "server_ok (\<lambda>k. 0) 1 1024 (\<sigma> 0)" "\<And>k. run_main (\<sigma> k) = Main_Loop"
      "0 < pool_size (run_pool (\<sigma> 0))" "worker_thread (workers (run_pool (\<sigma> 0)) ! unat (0 :: size_t)) = InLoop t" "punctual \<sigma> acts now 0 1 0"
    and es: "shard_entries 0 (\<sigma> 0) = [(''a'', ''1'', Some 1000000000)]" "wake_times (\<sigma> 0) = [0]" and time: "timed acts now"
    using cleaning_sample by metis
  obtain k' where k': "1000000002 \<le> now k'" using time unfolding timed_def by blast
  have "\<exists>l \<le> k'. 1000000000 \<notin> deadlines (shard_entries 0 (\<sigma> l))"
  proof (rule ccontr)
    assume "\<not> ?thesis"
    then have "now k' \<le> max (1000000000 + 0) (wake_times (\<sigma> 0) ! unat (0 :: size_t)) + 1"
      by (intro expired_entry_lifetime [OF run]) auto
    with k' es(2) show False by simp
  qed
  moreover have "1000000000 \<in> deadlines (shard_entries 0 (\<sigma> 0))" unfolding es(1) by (simp add: deadlines_def)
  ultimately show ?thesis using run(1,6) k' by (intro exI [of _ \<sigma>] exI [of _ acts] exI [of _ now] exI [of _ k']) simp
qed

end
