(* ===== verification/Bench_Workload.thy ===== *)
theory Bench_Workload
  imports Lru_Properties
begin

section \<open>The workload of the cache benchmarks\<close>

text \<open>
  \<open>benchmarks/bench_common.hpp\<close> and the function \<open>run_workload\<close> that \<open>bench_balanced.cpp\<close>,
  \<open>bench_read_heavy.cpp\<close> and \<open>bench_write_heavy.cpp\<close> share: a shard is created and filled, and then a
  sequence of operations on random keys is run and counted. Which operation comes next and on which
  key is decided with floating point numbers and random generators, which are not modelled: the
  choices are given as a list. Measured times are left out.
\<close>

datatype Operation = Op_kGet | Op_kSet | Op_kDel

record WorkloadCounters =
  get_ops :: uint64
  set_ops :: uint64
  del_ops :: uint64
  get_hits :: uint64
  get_misses :: uint64

definition zero_counters :: WorkloadCounters where
  "zero_counters = \<lparr>get_ops = 0, set_ops = 0, del_ops = 0, get_hits = 0, get_misses = 0\<rparr>"

definition build_keys :: "nat \<Rightarrow> bytes list" where
  "build_keys count = map (\<lambda>i. ''key_'' @ nat_digits i) [0..<count]"

definition build_values :: "nat \<Rightarrow> nat \<Rightarrow> bytes list" where
  "build_values count value_size = map (\<lambda>i. replicate value_size (char_of (97 + i mod 26))) [0..<count]"

text \<open>The loop of \<open>fill_cache\<close>; reading past the end of \<open>values\<close> is \<open>None\<close>. Without an expiry the clock is not
  read.\<close>

function fill_cache :: "nat \<Rightarrow> bytes list \<Rightarrow> bytes list \<Rightarrow> nat \<Rightarrow> LruShard \<Rightarrow> LruShard option" where
  "fill_cache i keys values prefill cache =
     (if i < prefill \<and> i < length keys
      then if i < length values
        then lru_set (keys ! i) (values ! i) None 0 cache \<bind> fill_cache (Suc i) keys values prefill
        else None
      else Some cache)"
  by pat_completeness auto
termination by (relation "measure (\<lambda>(i, keys, values, prefill, cache). prefill - i)") auto

text \<open>One turn of the measured loop. The last argument of a choice is the reading of the clock in \<open>get\<close>.\<close>

type_synonym choice = "Operation \<times> nat \<times> time_point"

definition workload_turn ::
  "bytes list \<Rightarrow> bytes list \<Rightarrow> choice \<Rightarrow> LruShard \<times> WorkloadCounters \<Rightarrow> (LruShard \<times> WorkloadCounters) option" where
  "workload_turn keys values = (\<lambda>(op, key_index, now) (cache, c).
     if key_index < length keys then
       (case op of
          Op_kGet \<Rightarrow>
            map_option (\<lambda>(result, cache).
              (cache, (if result \<noteq> None then c\<lparr>get_hits := get_hits c + 1\<rparr> else c\<lparr>get_misses := get_misses c + 1\<rparr>)
                 \<lparr>get_ops := get_ops c + 1\<rparr>))
              (lru_get (keys ! key_index) now cache)
        | Op_kSet \<Rightarrow>
            if key_index < length values
            then map_option (\<lambda>cache. (cache, c\<lparr>set_ops := set_ops c + 1\<rparr>)) (lru_set (keys ! key_index) (values ! key_index) None 0 cache)
            else None
        | Op_kDel \<Rightarrow> map_option (\<lambda>(deleted, cache). (cache, c\<lparr>del_ops := del_ops c + 1\<rparr>)) (lru_del (keys ! key_index) cache))
     else None)"

fun workload_loop :: "bytes list \<Rightarrow> bytes list \<Rightarrow> choice list \<Rightarrow> LruShard \<times> WorkloadCounters \<Rightarrow> (LruShard \<times> WorkloadCounters) option" where
  "workload_loop keys values [] x = Some x"
| "workload_loop keys values (ch # chs) x = workload_turn keys values ch x \<bind> workload_loop keys values chs"

definition run_workload :: "size_t \<Rightarrow> nat \<Rightarrow> nat \<Rightarrow> nat \<Rightarrow> choice list \<Rightarrow> (LruShard \<times> WorkloadCounters) option" where
  "run_workload cache_capacity working_set prefill value_size chs =
     (let keys = build_keys working_set; values = build_values working_set value_size in
      fill_cache 0 keys values prefill (new_shard cache_capacity) \<bind>
      (\<lambda>cache. workload_loop keys values chs (cache, zero_counters)))"

subsection \<open>Invariant\<close>

text \<open>The shard is well formed and holds only entries of the workload: keys of at least five bytes, values of
  the configured size.\<close>

definition bench_entry :: "nat \<Rightarrow> entry \<Rightarrow> bool" where
  "bench_entry n e \<longleftrightarrow> 5 \<le> length (fst e) \<and> length (fst (snd e)) = n"

definition bench_ok :: "size_t \<Rightarrow> nat \<Rightarrow> LruShard \<Rightarrow> bool" where
  "bench_ok cap n s \<longleftrightarrow> wf_shard s \<and> max_memory_bytes s = cap \<and> (\<forall>e \<in> set (entries s). bench_entry n e)"

definition counters_ok :: "nat \<Rightarrow> WorkloadCounters \<Rightarrow> bool" where
  "counters_ok n c \<longleftrightarrow> get_hits c + get_misses c = get_ops c \<and> get_ops c + set_ops c + del_ops c = of_nat n"

lemma bench_keys_values:
  assumes "i < count"
  shows "build_keys count ! i = ''key_'' @ nat_digits i" "length (build_values count n ! i) = n"
    "length (build_keys count) = count" "length (build_values count n) = count"
  using assms by (simp_all add: build_keys_def build_values_def)

lemma key_length:
  assumes "i < count" and "count \<le> 10 ^ 20"
  shows "5 \<le> length (build_keys count ! i)" "length (build_keys count ! i) \<le> 24"
proof -
  have "nat_digits i \<noteq> []" by simp
  then have "1 \<le> length (nat_digits i)" by (cases "nat_digits i") auto
  moreover have "length (nat_digits i) \<le> 20" using assms by (intro length_nat_digits) simp_all
  ultimately show "5 \<le> length (build_keys count ! i)" "length (build_keys count ! i) \<le> 24"
    using bench_keys_values(1) [OF assms(1)] by simp_all
qed

lemma spec_entries_subset:
  "set (snd (spec_get k now es)) \<subseteq> set es" "set (snd (spec_del k es)) \<subseteq> set es" "set (spec_set b k v d es) \<subseteq> insert (k, v, d) (set es)"
  using keep_recent_set [of b "(k, v, d) # drop_key k es"]
  by (auto simp: spec_get_def spec_del_def spec_set_def drop_key_def dest: map_of_SomeD split: option.splits if_splits)

lemma bench_set:
  assumes "bench_ok cap n s" and "i < count" and "count \<le> 10 ^ 20" and "unat cap + 24 + n < 2 ^ 64"
  shows "\<exists>s'. lru_set (build_keys count ! i) (build_values count n ! i) None now s = Some s' \<and> bench_ok cap n s'"
proof -
  note len = key_length [OF assms(2,3)] bench_keys_values(2) [OF assms(2), of n]
  have s: "wf_shard s" "max_memory_bytes s = cap" using assms(1) by (simp_all add: bench_ok_def)
  from lru_set_refines [OF s(1), of "build_keys count ! i" "build_values count n ! i" None now] s(2) len assms(4)
  obtain s' where "lru_set (build_keys count ! i) (build_values count n ! i) None now s = Some s'" "wf_shard s'" "same_limits s s'"
      "entries s' = spec_set (unat cap) (build_keys count ! i) (build_values count n ! i) None (entries s)" by auto
  moreover from this(4) have "set (entries s') \<subseteq> insert (build_keys count ! i, build_values count n ! i, None) (set (entries s))"
    by (simp add: spec_entries_subset)
  then have "\<forall>e \<in> set (entries s'). bench_entry n e" using assms(1) len by (auto simp: bench_ok_def bench_entry_def)
  ultimately show ?thesis using s by (auto simp: bench_ok_def same_limits_def)
qed

lemma bench_subset:
  "bench_ok cap n s \<Longrightarrow> wf_shard s' \<Longrightarrow> same_limits s s' \<Longrightarrow> set (entries s') \<subseteq> set (entries s) \<Longrightarrow> bench_ok cap n s'"
  unfolding bench_ok_def same_limits_def by auto

lemma bench_get:
  assumes "bench_ok cap n s"
  shows "\<exists>v s'. lru_get k now s = Some (v, s') \<and> bench_ok cap n s'"
  using lru_get_refines [of s k now] bench_subset [OF assms] spec_entries_subset(1) [of k now "entries s"] assms
  unfolding bench_ok_def [of cap n s] by metis

lemma bench_del:
  assumes "bench_ok cap n s"
  shows "\<exists>b s'. lru_del k s = Some (b, s') \<and> bench_ok cap n s'"
  using lru_del_refines [of s k] bench_subset [OF assms] spec_entries_subset(2) [of k "entries s"] assms
  unfolding bench_ok_def [of cap n s] by metis

lemma fill_cache_ok:
  assumes "bench_ok cap n s" and "count \<le> 10 ^ 20" and "unat cap + 24 + n < 2 ^ 64"
  shows "\<exists>s'. fill_cache i (build_keys count) (build_values count n) prefill s = Some s' \<and> bench_ok cap n s'"
  using assms(1)
proof (induction "prefill - i" arbitrary: i s)
  case 0
  then show ?case by (subst fill_cache.simps) simp
next
  case (Suc d)
  show ?case
  proof (cases "i < count")
    case True
    obtain s1 where "lru_set (build_keys count ! i) (build_values count n ! i) None 0 s = Some s1" "bench_ok cap n s1"
      using bench_set [OF Suc.prems True assms(2,3)] by blast
    moreover have "i < prefill" "d = prefill - Suc i" using Suc.hyps(2) by simp_all
    ultimately show ?thesis using True Suc.hyps(1) [of "Suc i" s1]
      by (subst fill_cache.simps) (simp add: bench_keys_values)
  next
    case False
    with Suc.prems show ?thesis by (subst fill_cache.simps) (simp add: build_keys_def)
  qed
qed

lemma workload_turn_ok:
  assumes "bench_ok cap n s" and "counters_ok k c" and "i < count" and "count \<le> 10 ^ 20" and "unat cap + 24 + n < 2 ^ 64"
  shows "\<exists>s' c'. workload_turn (build_keys count) (build_values count n) (op, i, now) (s, c) = Some (s', c') \<and>
    bench_ok cap n s' \<and> counters_ok (Suc k) c'"
proof (cases op)
  case Op_kGet
  obtain v s' where "lru_get (build_keys count ! i) now s = Some (v, s')" "bench_ok cap n s'" using bench_get [OF assms(1)] by blast
  with Op_kGet assms(2,3) show ?thesis
    by (cases v) (auto simp: workload_turn_def bench_keys_values(3,4) [OF assms(3)] counters_ok_def algebra_simps)
next
  case Op_kSet
  obtain s' where "lru_set (build_keys count ! i) (build_values count n ! i) None 0 s = Some s'" "bench_ok cap n s'"
    using bench_set [OF assms(1,3-5)] by blast
  with Op_kSet assms(2,3) show ?thesis
    by (auto simp: workload_turn_def bench_keys_values(3,4) [OF assms(3)] counters_ok_def algebra_simps)
next
  case Op_kDel
  obtain b s' where "lru_del (build_keys count ! i) s = Some (b, s')" "bench_ok cap n s'" using bench_del [OF assms(1)] by blast
  with Op_kDel assms(2,3) show ?thesis
    by (auto simp: workload_turn_def bench_keys_values(3,4) [OF assms(3)] counters_ok_def algebra_simps)
qed

lemma workload_loop_ok:
  assumes "bench_ok cap n s" and "counters_ok k c" and "\<forall>(op, i, now) \<in> set chs. i < count"
    and "count \<le> 10 ^ 20" and "unat cap + 24 + n < 2 ^ 64"
  shows "\<exists>s' c'. workload_loop (build_keys count) (build_values count n) chs (s, c) = Some (s', c') \<and>
    bench_ok cap n s' \<and> counters_ok (k + length chs) c'"
  using assms(1-3)
proof (induction chs arbitrary: s c k)
  case (Cons ch chs)
  obtain op i now where ch: "ch = (op, i, now)" by (cases ch)
  then have "i < count" using Cons.prems(3) by simp
  from workload_turn_ok [OF Cons.prems(1,2) this assms(4,5), of op now] obtain s1 c1 where
    "workload_turn (build_keys count) (build_values count n) ch (s, c) = Some (s1, c1)" "bench_ok cap n s1" "counters_ok (Suc k) c1"
    using ch by blast
  with Cons.IH [of s1 "Suc k" c1] Cons.prems(3) show ?case by simp
qed auto

lemma bench_entries_bound:
  assumes "bench_ok cap n s"
  shows "length (entries s) * (n + 5) \<le> unat cap"
proof -
  have "length es * (n + 5) \<le> payload es" if "\<forall>e \<in> set es. bench_entry n e" for es
    using that by (induction es) (auto simp: bench_entry_def entry_size_def)
  with assms show ?thesis using wf_shardD(2) [of s] by (fastforce simp: bench_ok_def intro: order_trans)
qed

subsection \<open>Properties\<close>

text \<open>A benchmark runs to its end for any choice of operations on the keys of the working set, without
  reading outside the key and value lists; hits and misses add up to the reads, and reads, writes and
  deletions to the turns; and the number of keys in the cache is bounded by the capacity divided by
  the size of an entry: the capacity of the workloads counts bytes, so the 4096 with which the
  benchmarks are configured leave room for 15 of their 2048 keys with values of 256 bytes.\<close>

theorem workload_runs:
  assumes "\<forall>(op, i, now) \<in> set chs. i < working_set" and "working_set \<le> 10 ^ 20" and "unat cap + 24 + value_size < 2 ^ 64"
  shows "\<exists>cache c. run_workload cap working_set prefill value_size chs = Some (cache, c) \<and> wf_shard cache \<and>
    get_hits c + get_misses c = get_ops c \<and> get_ops c + set_ops c + del_ops c = of_nat (length chs) \<and>
    length (entries cache) * (value_size + 5) \<le> unat cap"
proof -
  have "bench_ok cap value_size (new_shard cap)" using new_shard_wf [of cap] by (simp add: bench_ok_def) (simp add: new_shard_def)
  from fill_cache_ok [OF this assms(2,3), of 0 prefill] obtain s where
    s: "fill_cache 0 (build_keys working_set) (build_values working_set value_size) prefill (new_shard cap) = Some s" "bench_ok cap value_size s"
    by blast
  have "counters_ok 0 zero_counters" by (simp add: counters_ok_def zero_counters_def)
  from workload_loop_ok [OF s(2) this assms] obtain s' c where
    "workload_loop (build_keys working_set) (build_values working_set value_size) chs (s, zero_counters) = Some (s', c)"
    "bench_ok cap value_size s'" "counters_ok (length chs) c" by auto
  with s(1) bench_entries_bound [of cap value_size s'] show ?thesis
    by (auto simp: run_workload_def Let_def bench_ok_def counters_ok_def)
qed

theorem workload_runs_witness:
  "\<exists>cache c. run_workload 4096 2048 2048 256 [(Op_kGet, 7, 0), (Op_kSet, 7, 0), (Op_kGet, 7, 0)] = Some (cache, c) \<and>
    length (entries cache) \<le> 15 \<and> get_ops c + set_ops c + del_ops c = 3"
  using workload_runs [of "[(Op_kGet, 7, 0), (Op_kSet, 7, 0), (Op_kGet, 7, 0)]" 2048 4096 256 2048] by auto

end
