(* ===== verification/Bench_Barrier.thy ===== *)
theory Bench_Barrier
  imports Prelude
begin

section \<open>The barrier of the multi-threaded benchmark\<close>

text \<open>
  \<open>ReusableBarrier\<close> of \<open>benchmarks/bench_lru_mt.cpp\<close>: the threads of a benchmark wait for each other
  before the shared cache is built, after it has been built, and around its destruction. \<open>wait\<close> holds
  a mutex except while it sleeps on the condition variable, so a call consists of two indivisible
  parts: the arrival, which either opens the barrier or goes to sleep with the generation it saw, and
  the return of a sleeper that finds the generation changed. Waking up without this changes nothing.
  The counters are of type \<open>int\<close> in the code; the comparison is signed. After \<open>2 ^ 31\<close> rounds the
  increment of \<open>generation_\<close> overflows, which C++ leaves undefined; the model lets it wrap around. A
  benchmark makes a few rounds per repetition.

  Each thread carries the number of its calls and of its returns. \<open>barrier_synchronises\<close>: no thread
  returns from a call before all threads have made that call, and nobody is left behind.
\<close>

record ReusableBarrier =
  expected :: "32 word"
  arrived :: "32 word"
  generation :: "32 word"

definition new_barrier :: ReusableBarrier where
  "new_barrier = \<lparr>expected = 0, arrived = 0, generation = 0\<rparr>"

text \<open>The first part of \<open>wait(n)\<close>: the generation to sleep on, or \<open>None\<close> if the call returns at once.\<close>

definition barrier_arrive :: "32 word \<Rightarrow> ReusableBarrier \<Rightarrow> 32 word option \<times> ReusableBarrier" where
  "barrier_arrive n b =
     (let b = (if arrived b = 0 then b\<lparr>expected := n\<rparr> else b);
          gen = generation b;
          b = b\<lparr>arrived := arrived b + 1\<rparr>
      in if sint (arrived b) \<ge> sint (expected b)
         then (None, b\<lparr>arrived := 0, generation := generation b + 1\<rparr>)
         else (Some gen, b))"

definition barrier_open :: "32 word \<Rightarrow> ReusableBarrier \<Rightarrow> bool" where
  "barrier_open gen b \<longleftrightarrow> generation b \<noteq> gen"

record Waiter =
  asleep_on :: "32 word option"
  calls_made :: nat
  calls_done :: nat

definition fresh_waiter :: Waiter where
  "fresh_waiter = \<lparr>asleep_on = None, calls_made = 0, calls_done = 0\<rparr>"

definition falls_asleep :: "32 word \<Rightarrow> Waiter \<Rightarrow> Waiter" where
  "falls_asleep gen w = w\<lparr>asleep_on := Some gen, calls_made := Suc (calls_made w)\<rparr>"

definition passes :: "Waiter \<Rightarrow> Waiter" where
  "passes w = w\<lparr>calls_made := Suc (calls_made w), calls_done := Suc (calls_done w)\<rparr>"

definition wakes :: "Waiter \<Rightarrow> Waiter" where
  "wakes w = w\<lparr>asleep_on := None, calls_done := Suc (calls_done w)\<rparr>"

text \<open>All threads of the benchmark, each calling \<open>wait\<close> with their number, over and over again.\<close>

inductive barrier_step :: "ReusableBarrier \<times> Waiter list \<Rightarrow> ReusableBarrier \<times> Waiter list \<Rightarrow> bool" where
  wait_sleeps: "i < length ts \<Longrightarrow> asleep_on (ts ! i) = None \<Longrightarrow> barrier_arrive (of_nat (length ts)) b = (Some gen, b') \<Longrightarrow>
    barrier_step (b, ts) (b', ts[i := falls_asleep gen (ts ! i)])"
| wait_opens: "i < length ts \<Longrightarrow> asleep_on (ts ! i) = None \<Longrightarrow> barrier_arrive (of_nat (length ts)) b = (None, b') \<Longrightarrow>
    barrier_step (b, ts) (b', ts[i := passes (ts ! i)])"
| wait_returns: "i < length ts \<Longrightarrow> asleep_on (ts ! i) = Some gen \<Longrightarrow> barrier_open gen b \<Longrightarrow>
    barrier_step (b, ts) (b, ts[i := wakes (ts ! i)])"

subsection \<open>Invariant\<close>

text \<open>In generation \<open>g\<close> a thread has made the call of this generation and sleeps, or has made all calls of
  the previous ones and returned from them, or is still to wake up from the last one.\<close>

definition waiter_ok :: "nat \<Rightarrow> Waiter \<Rightarrow> bool" where
  "waiter_ok g w \<longleftrightarrow>
     calls_made w = Suc g \<and> calls_done w = g \<and> asleep_on w = Some (of_nat g) \<or>
     calls_made w = g \<and> calls_done w = g \<and> asleep_on w = None \<or>
     calls_made w = g \<and> Suc (calls_done w) = g \<and> asleep_on w = Some (of_nat (g - 1))"

definition waiting :: "nat \<Rightarrow> Waiter list \<Rightarrow> nat set" where
  "waiting g ts = {i. i < length ts \<and> calls_made (ts ! i) = Suc g}"

definition barrier_ok :: "nat \<Rightarrow> ReusableBarrier \<times> Waiter list \<Rightarrow> bool" where
  "barrier_ok g x \<longleftrightarrow>
     (case x of (b, ts) \<Rightarrow>
        0 < length ts \<and> length ts < 2 ^ 31 \<and> generation b = of_nat g \<and>
        arrived b = of_nat (card (waiting g ts)) \<and> card (waiting g ts) < length ts \<and>
        (waiting g ts \<noteq> {} \<longrightarrow> expected b = of_nat (length ts)) \<and> (\<forall>i < length ts. waiter_ok g (ts ! i)))"

lemma sint32_of_nat: "n < 2 ^ 31 \<Longrightarrow> sint (of_nat n :: 32 word) = int n"
  by (simp add: signed_of_nat signed_take_bit_int_eq_self)

lemma finite_waiting [simp]: "finite (waiting g ts)"
  by (simp add: waiting_def)

lemma arrive_eq:
  assumes "barrier_ok g (b, ts)"
  shows "barrier_arrive (of_nat (length ts)) b =
    (if Suc (card (waiting g ts)) = length ts
     then (None, \<lparr>expected = of_nat (length ts), arrived = 0, generation = of_nat (Suc g)\<rparr>)
     else (Some (of_nat g), \<lparr>expected = of_nat (length ts), arrived = of_nat (Suc (card (waiting g ts))), generation = of_nat g\<rparr>))"
proof -
  let ?c = "card (waiting g ts)"
  have ok: "length ts < 2 ^ 31" "?c < length ts" "generation b = of_nat g" "arrived b = of_nat ?c"
      "waiting g ts \<noteq> {} \<longrightarrow> expected b = of_nat (length ts)"
    using assms by (simp_all add: barrier_ok_def)
  have "waiting g ts \<noteq> {}" if "arrived b \<noteq> 0" using that ok(4) by auto
  then have exp: "(if arrived b = 0 then b\<lparr>expected := of_nat (length ts)\<rparr> else b) =
      \<lparr>expected = of_nat (length ts), arrived = of_nat ?c, generation = of_nat g\<rparr>"
    using ok by (cases b) auto
  have "sint (of_nat ?c + 1 :: 32 word) = int (Suc ?c)" using sint32_of_nat [of "Suc ?c"] ok(1,2) by (simp add: add.commute)
  moreover have "sint (of_nat (length ts) :: 32 word) = int (length ts)" using ok(1) by (rule sint32_of_nat)
  ultimately show ?thesis
    using ok(2) unfolding barrier_arrive_def exp by (auto simp: Let_def add.commute)
qed

lemma waiting_update:
  assumes "i < length ts"
  shows "waiting g (ts[i := w]) = (if calls_made w = Suc g then insert i (waiting g ts) else waiting g ts - {i})"
  using assms by (auto simp: waiting_def nth_list_update)

lemma barrier_okD:
  assumes "barrier_ok g (b, ts)"
  shows "0 < length ts" "length ts < 2 ^ 31" "generation b = of_nat g" "arrived b = of_nat (card (waiting g ts))"
    "card (waiting g ts) < length ts" "waiting g ts \<noteq> {} \<Longrightarrow> expected b = of_nat (length ts)" "i < length ts \<Longrightarrow> waiter_ok g (ts ! i)"
  using assms by (simp_all add: barrier_ok_def)

lemma sleeps_ok:
  assumes ok: "barrier_ok g (b, ts)" and i: "i < length ts" and "asleep_on (ts ! i) = None"
    and arrive: "barrier_arrive (of_nat (length ts)) b = (Some gen, b')"
  shows "barrier_ok g (b', ts[i := falls_asleep gen (ts ! i)])"
proof -
  note inv = barrier_okD [OF ok]
  have w: "calls_made (ts ! i) = g" "calls_done (ts ! i) = g" using inv(7) [OF i] assms(3) by (auto simp: waiter_ok_def)
  have b': "gen = of_nat g" "b' = \<lparr>expected = of_nat (length ts), arrived = of_nat (Suc (card (waiting g ts))), generation = of_nat g\<rparr>"
    "Suc (card (waiting g ts)) \<noteq> length ts"
    using arrive unfolding arrive_eq [OF ok] by (auto split: if_splits)
  have "i \<notin> waiting g ts" using w by (simp add: waiting_def)
  moreover have "waiter_ok g (falls_asleep gen (ts ! i))" using w b'(1) by (simp add: waiter_ok_def falls_asleep_def)
  moreover have "calls_made (falls_asleep gen (ts ! i)) = Suc g" using w by (simp add: falls_asleep_def)
  ultimately show ?thesis
    using inv i b' by (auto simp: barrier_ok_def waiting_update nth_list_update)
qed

lemma opens_ok:
  assumes ok: "barrier_ok g (b, ts)" and i: "i < length ts" and "asleep_on (ts ! i) = None"
    and arrive: "barrier_arrive (of_nat (length ts)) b = (None, b')"
  shows "barrier_ok (Suc g) (b', ts[i := passes (ts ! i)])"
proof -
  note inv = barrier_okD [OF ok]
  have w: "calls_made (ts ! i) = g" "calls_done (ts ! i) = g" using inv(7) [OF i] assms(3) by (auto simp: waiter_ok_def)
  have b': "b' = \<lparr>expected = of_nat (length ts), arrived = 0, generation = of_nat (Suc g)\<rparr>" "Suc (card (waiting g ts)) = length ts"
    using arrive unfolding arrive_eq [OF ok] by (auto split: if_splits)
  have sub: "waiting g ts \<subseteq> {..<length ts} - {i}" using w by (auto simp: waiting_def)
  have "card ({..<length ts} - {i}) = length ts - 1" using i by (subst card_Diff_singleton) auto
  then have "waiting g ts = {..<length ts} - {i}" using b'(2) by (intro card_subset_eq sub) simp_all
  then have all: "calls_made (ts ! k) = Suc g" if "k < length ts" "k \<noteq> i" for k
    using that by (auto simp: waiting_def set_eq_iff)
  have others: "waiter_ok (Suc g) (ts ! k)" if "k < length ts" "k \<noteq> i" for k
    using inv(7) [OF that(1)] all [OF that] by (auto simp: waiter_ok_def)
  have "waiter_ok (Suc g) (passes (ts ! i))" using w assms(3) by (simp add: waiter_ok_def passes_def)
  then have "\<forall>k < length ts. waiter_ok (Suc g) (ts[i := passes (ts ! i)] ! k)" using others i by (auto simp: nth_list_update)
  moreover have "waiting (Suc g) (ts[i := passes (ts ! i)]) = {}"
    using all w i by (auto simp: waiting_def nth_list_update passes_def)
  ultimately show ?thesis using inv(1,2) b'(1) by (simp add: barrier_ok_def)
qed

lemma returns_ok:
  assumes ok: "barrier_ok g (b, ts)" and i: "i < length ts" and "asleep_on (ts ! i) = Some gen" and "barrier_open gen b"
  shows "barrier_ok g (b, ts[i := wakes (ts ! i)])"
proof -
  note inv = barrier_okD [OF ok]
  have w: "calls_made (ts ! i) = g" "Suc (calls_done (ts ! i)) = g"
    using inv(7) [OF i] assms(3,4) inv(3) by (auto simp: waiter_ok_def barrier_open_def)
  then have "waiter_ok g (wakes (ts ! i))" by (simp add: waiter_ok_def wakes_def)
  moreover have "waiting g (ts[i := wakes (ts ! i)]) = waiting g ts" using w i by (simp add: waiting_update wakes_def) (simp add: waiting_def)
  ultimately show ?thesis using inv i by (auto simp: barrier_ok_def nth_list_update)
qed

lemma barrier_reachable_ok:
  assumes "barrier_step\<^sup>*\<^sup>* x y" and "barrier_ok g x"
  shows "\<exists>g'. barrier_ok g' y"
  using assms(1)
proof (induction rule: rtranclp_induct)
  case (step y z)
  then obtain g' where "barrier_ok g' y" by blast
  with step.hyps(2) show ?case by (cases rule: barrier_step.cases) (auto intro: sleeps_ok opens_ok returns_ok)
qed (use assms(2) in blast)

lemma barrier_start_ok: "0 < n \<Longrightarrow> n < 2 ^ 31 \<Longrightarrow> barrier_ok 0 (new_barrier, replicate n fresh_waiter)"
proof -
  have none: "waiting 0 (replicate n fresh_waiter) = {}" by (auto simp: waiting_def fresh_waiter_def)
  show "barrier_ok 0 (new_barrier, replicate n fresh_waiter)" if "0 < n" "n < 2 ^ 31"
    using that unfolding barrier_ok_def by (simp add: none) (simp add: new_barrier_def fresh_waiter_def waiter_ok_def)
qed

subsection \<open>Properties\<close>

text \<open>C37: The barrier of the benchmark synchronises. Let any number of threads below \<open>2 ^ 31\<close> call \<open>wait\<close> with
  that number as often as they like, in any interleaving. No thread has returned from more calls than any
  other has made, so what a thread does before its call is done before any thread goes on behind
  it; and a thread that sleeps although every thread has made that call finds the barrier open.\<close>

theorem barrier_synchronises:
  assumes "barrier_step\<^sup>*\<^sup>* (new_barrier, replicate n fresh_waiter) (b, ts)" and "0 < n" and "n < 2 ^ 31"
    and "i < length ts"
  shows "(\<forall>j < length ts. calls_done (ts ! i) \<le> calls_made (ts ! j)) \<and>
    (\<forall>gen. asleep_on (ts ! i) = Some gen \<and> (\<forall>j < length ts. calls_made (ts ! i) \<le> calls_made (ts ! j)) \<longrightarrow> barrier_open gen b)"
proof -
  obtain g where ok: "barrier_ok g (b, ts)" using barrier_reachable_ok [OF assms(1) barrier_start_ok [OF assms(2,3)]] by blast
  note inv = barrier_okD [OF ok]
  have bounds: "calls_done (ts ! k) \<le> g \<and> g \<le> calls_made (ts ! k) \<and> calls_made (ts ! k) \<le> Suc g" if "k < length ts" for k
    using inv(7) [OF that] by (auto simp: waiter_ok_def)
  have "barrier_open gen b" if "asleep_on (ts ! i) = Some gen" "\<forall>j < length ts. calls_made (ts ! i) \<le> calls_made (ts ! j)" for gen
  proof -
    have "calls_made (ts ! i) \<noteq> Suc g"
    proof
      assume "calls_made (ts ! i) = Suc g"
      then have "waiting g ts = {..<length ts}" using that(2) bounds by (force simp: waiting_def)
      with inv(5) show False by simp
    qed
    then have "gen = of_nat (g - 1)" "0 < g" using inv(7) [OF assms(4)] that(1) by (auto simp: waiter_ok_def)
    moreover have "(of_nat (Suc k) :: 32 word) \<noteq> of_nat k" for k by simp
    ultimately show ?thesis using inv(3) by (cases g) (auto simp: barrier_open_def)
  qed
  then show ?thesis using bounds assms(4) by (meson order_trans)
qed

theorem barrier_synchronises_witness:
  "\<exists>b ts. barrier_step\<^sup>*\<^sup>* (new_barrier, replicate 2 fresh_waiter) (b, ts) \<and> asleep_on (ts ! 0) = Some 0 \<and>
    calls_done (ts ! 1) = 1 \<and> barrier_open 0 b"
proof -
  let ?b0 = "(new_barrier, [fresh_waiter, fresh_waiter])"
  let ?b1 = "\<lparr>expected = 2, arrived = 1, generation = 0\<rparr>" and ?b2 = "\<lparr>expected = 2, arrived = 0, generation = 1\<rparr>"
  let ?w = "falls_asleep 0 fresh_waiter"
  have "sint (1 :: 32 word) = 1" "sint (2 :: 32 word) = 2" by simp_all
  then have "barrier_arrive 2 new_barrier = (Some 0, ?b1)" "barrier_arrive 2 ?b1 = (None, ?b2)"
    by (simp_all add: barrier_arrive_def new_barrier_def Let_def)
  then have "barrier_step ?b0 (?b1, [?w, fresh_waiter])" "barrier_step (?b1, [?w, fresh_waiter]) (?b2, [?w, passes fresh_waiter])"
    using wait_sleeps [of 0 "[fresh_waiter, fresh_waiter]" new_barrier 0 ?b1] wait_opens [of 1 "[?w, fresh_waiter]" ?b1 ?b2]
    by (simp_all add: fresh_waiter_def)
  then have run: "barrier_step\<^sup>*\<^sup>* (new_barrier, replicate 2 fresh_waiter) (?b2, [?w, passes fresh_waiter])"
    by (simp add: numeral_2_eq_2)
  from barrier_synchronises [OF this, of 0] have "barrier_open 0 ?b2"
    by (simp add: falls_asleep_def passes_def fresh_waiter_def All_less_Suc)
  with run show ?thesis
    by (intro exI [of _ ?b2] exI [of _ "[?w, passes fresh_waiter]"]) (simp add: falls_asleep_def passes_def fresh_waiter_def)
qed

end
